theory Spec2Isabelle
  imports Main
begin

section \<open>The IR the passes work on\<close>

text \<open>
  \<^verbatim>\<open>preprocess_for_onnx.cpp\<close> holds four rewrite passes over the JIT graph IR and
  their entry point \<^verbatim>\<open>PreprocessForONNX\<close>. The IR itself (\<^verbatim>\<open>ir.h\<close>: Graph, Block, Node,
  Value, the types and the interned symbols) is not among the sources, so this section
  models the part of it the passes call, from the data model of the spec (sections 3
  and 6). A \<^verbatim>\<open>Node*\<close> is the index of the node in the graph's node store, a \<^verbatim>\<open>Value*\<close>
  the index of the value in the value store; a destroyed node or an erased value
  leaves an empty slot, and a new one is appended, so that a new pointer is never
  equal to an old one.
\<close>

subsection \<open>Types, symbols, attributes\<close>

text \<open>Modelled from the spec: \<^verbatim>\<open>c10::ScalarType\<close>, the scalar kind of a tensor type.\<close>

datatype ScalarType = kByte | kChar | kShort | kInt | kLong | kHalf | kFloat | kDouble | kBool

text \<open>
  Modelled from the spec: the types of section 3. A tensor type has an optional scalar
  kind (\<^verbatim>\<open>scalarType()\<close>) and an optional rank (\<^verbatim>\<open>sizes().size()\<close>); a list type
  has an element type.
\<close>

datatype JitType =
    TensorType (scalarType: "ScalarType option") (sizes_size: "nat option")
  | ListType (getElementType: JitType)
  | OptionalType JitType
  | IntType
  | FloatType
  | BoolType
  | NoneType

text \<open>Modelled from the spec: \<^verbatim>\<open>type->cast<ListType>()\<close>, the list type or null.\<close>

fun cast_ListType :: "JitType \<Rightarrow> JitType option" where
  "cast_ListType (ListType elem) = Some (ListType elem)"
| "cast_ListType _ = None"

text \<open>Modelled from the spec: \<^verbatim>\<open>type->cast<TensorType>()\<close>, the tensor type or null.\<close>

fun cast_TensorType :: "JitType \<Rightarrow> JitType option" where
  "cast_TensorType (TensorType st rk) = Some (TensorType st rk)"
| "cast_TensorType _ = None"

text \<open>Modelled from the spec: \<^verbatim>\<open>type->cast<IntType>()\<close>, the int type or null.\<close>

fun cast_IntType :: "JitType \<Rightarrow> JitType option" where
  "cast_IntType IntType = Some IntType"
| "cast_IntType _ = None"

text \<open>
  Modelled from the spec: \<^verbatim>\<open>TensorType::fromNumberType\<close>, whose body is not among the
  sources. Section 4.2 of the spec: "the tensor type derived from the integer element
  type (a 1-D integer tensor)". The pass calls it on \<^verbatim>\<open>IntType\<close> only.
\<close>

definition fromNumberType :: "JitType \<Rightarrow> JitType" where
  "fromNumberType t =
     TensorType (case t of IntType \<Rightarrow> Some kLong | FloatType \<Rightarrow> Some kDouble
                 | BoolType \<Rightarrow> Some kBool | _ \<Rightarrow> None) (Some 1)"

text \<open>
  Modelled from the spec: the interned symbols of section 6 (node kinds and attribute
  names), and the kinds the comments of the source use in their example graphs.
  \<open>aten_index_put_inplace\<close> is \<^verbatim>\<open>aten::index_put_\<close> (a name cannot end in an underscore).
\<close>

datatype Symbol =
    aten_split | aten_split_with_sizes | aten_unsafe_split | aten_unsafe_split_with_sizes
  | aten_unbind | aten_unsafe_chunk | aten_where
  | aten_add | aten_index_put_inplace | aten_masked_fill | aten_masked_scatter
  | aten_size | aten_new_zeros
  | prim_ListUnpack | prim_ListConstruct | prim_Constant | prim_Param | prim_Return | prim_If
  | onnx_Concat | onnx_Constant | onnx_Gather
  | attr_outputs | attr_axis | attr_value
  | OtherSymbol string

text \<open>
  Modelled from the spec: an attribute is an integer (\<^verbatim>\<open>i_\<close>) or a tensor (\<^verbatim>\<open>t_\<close>);
  the only tensors the passes build are \<^verbatim>\<open>at::scalar_to_tensor(at::Scalar(int(i)))\<close>,
  a scalar tensor holding one integer.
\<close>

datatype AttributeValue = IntAttr int | ScalarTensorAttr int

text \<open>
  The casts of the source, with the wrap-around written out:
  \<^verbatim>\<open>static_cast<int64_t>(size)\<close> and \<^verbatim>\<open>int(i)\<close> of a \<^verbatim>\<open>size_t\<close>.
\<close>

definition to_int64 :: "nat \<Rightarrow> int" where
  "to_int64 n = (int n + 2 ^ 63) mod 2 ^ 64 - 2 ^ 63"

definition to_int :: "nat \<Rightarrow> int" where
  "to_int n = (int n + 2 ^ 31) mod 2 ^ 32 - 2 ^ 31"

subsection \<open>Nodes, values, blocks, graphs\<close>

text \<open>
  Modelled from the spec: a Node has a kind, an ordered list of input Values, an
  ordered list of output Values and attributes.
\<close>

record Node =
  kind :: Symbol
  inputs :: "nat list"
  outputs :: "nat list"
  attrs :: "(Symbol \<times> AttributeValue) list"

text \<open>Modelled from the spec: a Value has a type and an owning producer Node.\<close>

record Value =
  type :: JitType
  node :: nat

text \<open>
  Modelled from the spec: a Block is an ordered sequence of Nodes with a distinguished
  input (param) node and return node; every node of the sequence carries its nested
  Blocks.
\<close>

datatype Block = Block (param_node: nat) (nodes: "(nat \<times> Block list) list") (return_node: nat)

text \<open>Modelled from the spec: a Graph owns its nodes and values and a root Block.\<close>

record Graph =
  all_nodes :: "Node option list"
  all_values :: "Value option list"
  block :: Block

text \<open>
  What a call can end in besides its result: \<^verbatim>\<open>std::out_of_range\<close> from a checked index,
  a failed \<^verbatim>\<open>AT_ASSERT\<close> / \<^verbatim>\<open>TORCH_INTERNAL_ASSERT\<close>, the overflow of an \<^verbatim>\<open>int\<close> counter
  (undefined behaviour), and (for totality) a pointer that names no live node or value
  of the graph.
\<close>

datatype error = out_of_range | internal_assert | signed_overflow | dangling

definition and_then :: "error + 'a \<Rightarrow> ('a \<Rightarrow> error + 'b) \<Rightarrow> error + 'b" where
  "and_then r f = (case r of Inl e \<Rightarrow> Inl e | Inr x \<Rightarrow> f x)"

primrec for_each :: "'a list \<Rightarrow> ('a \<Rightarrow> 's \<Rightarrow> error + 's) \<Rightarrow> 's \<Rightarrow> error + 's" where
  "for_each [] f s = Inr s"
| "for_each (x # xs) f s = and_then (f x s) (for_each xs f)"

subsection \<open>Reading the graph\<close>

definition node_at :: "Graph \<Rightarrow> nat \<Rightarrow> Node option" where
  "node_at g n = (if n < length (all_nodes g) then all_nodes g ! n else None)"

definition value_at :: "Graph \<Rightarrow> nat \<Rightarrow> Value option" where
  "value_at g v = (if v < length (all_values g) then all_values g ! v else None)"

definition the_node :: "Graph \<Rightarrow> nat \<Rightarrow> error + Node" where
  "the_node g n = (case node_at g n of None \<Rightarrow> Inl dangling | Some N \<Rightarrow> Inr N)"

definition the_value :: "Graph \<Rightarrow> nat \<Rightarrow> error + Value" where
  "the_value g v = (case value_at g v of None \<Rightarrow> Inl dangling | Some V \<Rightarrow> Inr V)"

text \<open>Modelled from the spec: \<^verbatim>\<open>Node::input(i)\<close>, a checked index (\<^verbatim>\<open>inputs_.at(i)\<close>).\<close>

definition input_at :: "Graph \<Rightarrow> nat \<Rightarrow> nat \<Rightarrow> error + nat" where
  "input_at g n i =
     and_then (the_node g n) (\<lambda>N.
       if i < length (inputs N) then Inr (inputs N ! i) else Inl out_of_range)"

text \<open>Modelled from the spec: \<^verbatim>\<open>Node::input()\<close>, which asserts that there is one input.\<close>

definition sole_input :: "Graph \<Rightarrow> nat \<Rightarrow> error + nat" where
  "sole_input g n =
     and_then (the_node g n) (\<lambda>N.
       if length (inputs N) = 1 then Inr (inputs N ! 0) else Inl internal_assert)"

text \<open>Modelled from the spec: \<^verbatim>\<open>Node::output(i)\<close> and \<^verbatim>\<open>outputs().at(i)\<close>, checked indices.\<close>

definition output_at :: "Graph \<Rightarrow> nat \<Rightarrow> nat \<Rightarrow> error + nat" where
  "output_at g n i =
     and_then (the_node g n) (\<lambda>N.
       if i < length (outputs N) then Inr (outputs N ! i) else Inl out_of_range)"

text \<open>Modelled from the spec: \<^verbatim>\<open>Node::output()\<close>, which asserts that there is one output.\<close>

definition sole_output :: "Graph \<Rightarrow> nat \<Rightarrow> error + nat" where
  "sole_output g n =
     and_then (the_node g n) (\<lambda>N.
       if length (outputs N) = 1 then Inr (outputs N ! 0) else Inl internal_assert)"

text \<open>Modelled from the spec: \<^verbatim>\<open>Value::type()\<close>.\<close>

definition type_of :: "Graph \<Rightarrow> nat \<Rightarrow> error + JitType" where
  "type_of g v = and_then (the_value g v) (\<lambda>V. Inr (type V))"

text \<open>Modelled from the spec: \<^verbatim>\<open>Value::node()\<close>, the producer of a value.\<close>

definition producer :: "Graph \<Rightarrow> nat \<Rightarrow> error + nat" where
  "producer g v = and_then (the_value g v) (\<lambda>V. Inr (node V))"

text \<open>
  Modelled from the spec: \<^verbatim>\<open>Value::uses()\<close>. Section 8, invariant 1: the use set of a
  value \<open>v\<close> is \<open>{(n, i) : n.input(i) == v}\<close>, consumer node and input position; so the
  uses are read off the input lists of the live nodes (the return nodes included).
\<close>

definition uses_in :: "nat \<Rightarrow> Node option \<Rightarrow> nat \<Rightarrow> (nat \<times> nat) list" where
  "uses_in n slot v =
     (case slot of None \<Rightarrow> []
      | Some N \<Rightarrow> map (\<lambda>off. (n, off)) (filter (\<lambda>off. inputs N ! off = v) [0..<length (inputs N)]))"

definition uses :: "Graph \<Rightarrow> nat \<Rightarrow> (nat \<times> nat) list" where
  "uses g v = concat (map (\<lambda>n. uses_in n (node_at g n) v) [0..<length (all_nodes g)])"

text \<open>The nodes of a block and of its nested blocks, and the nested blocks of a node.\<close>

fun ids_Block :: "Block \<Rightarrow> nat list"
  and ids_nodes :: "(nat \<times> Block list) list \<Rightarrow> nat list"
  and ids_blocks :: "Block list \<Rightarrow> nat list" where
  "ids_Block (Block p ns r) = ids_nodes ns"
| "ids_nodes [] = []"
| "ids_nodes ((n, bs) # rest) = ids_blocks bs @ n # ids_nodes rest"
| "ids_blocks [] = []"
| "ids_blocks (b # bs) = ids_Block b @ ids_blocks bs"

text \<open>Modelled from the spec: \<^verbatim>\<open>Node::inBlockList()\<close>.\<close>

definition inBlockList :: "Graph \<Rightarrow> nat \<Rightarrow> bool" where
  "inBlockList g n = (n \<in> set (ids_Block (block g)))"

text \<open>Modelled from the spec: \<^verbatim>\<open>Node::blocks()\<close>, the nested blocks of a node.\<close>

fun blocks_Block :: "nat \<Rightarrow> Block \<Rightarrow> Block list option"
  and blocks_nodes :: "nat \<Rightarrow> (nat \<times> Block list) list \<Rightarrow> Block list option"
  and blocks_blocks :: "nat \<Rightarrow> Block list \<Rightarrow> Block list option" where
  "blocks_Block it (Block p ns r) = blocks_nodes it ns"
| "blocks_nodes it [] = None"
| "blocks_nodes it ((n, bs) # rest) =
     (if n = it then Some bs
      else (case blocks_blocks it bs of Some r \<Rightarrow> Some r | None \<Rightarrow> blocks_nodes it rest))"
| "blocks_blocks it [] = None"
| "blocks_blocks it (b # bs) =
     (case blocks_Block it b of Some r \<Rightarrow> Some r | None \<Rightarrow> blocks_blocks it bs)"

definition blocks :: "Graph \<Rightarrow> nat \<Rightarrow> Block list" where
  "blocks g n = (case blocks_Block n (block g) of None \<Rightarrow> [] | Some bs \<Rightarrow> bs)"

subsection \<open>Changing the graph\<close>

definition set_node :: "nat \<Rightarrow> Node option \<Rightarrow> Graph \<Rightarrow> Graph" where
  "set_node n slot g = g\<lparr>all_nodes := (all_nodes g)[n := slot]\<rparr>"

definition set_value :: "nat \<Rightarrow> Value option \<Rightarrow> Graph \<Rightarrow> Graph" where
  "set_value v slot g = g\<lparr>all_values := (all_values g)[v := slot]\<rparr>"

text \<open>
  Modelled from the spec: \<^verbatim>\<open>Graph::create(kind, num_outputs)\<close>: a new node of the kind,
  with no inputs and \<open>num_outputs\<close> new output values, owned by the graph and in no
  block yet. A new value has the type \<^verbatim>\<open>Tensor\<close> with nothing known about it (the
  example graphs in the comments of the source print the new outputs as
  \<^verbatim>\<open>%9 : Tensor\<close>).
\<close>

definition create :: "Symbol \<Rightarrow> nat \<Rightarrow> Graph \<Rightarrow> nat \<times> Graph" where
  "create k num_outputs g =
     (let n = length (all_nodes g); v = length (all_values g)
      in (n, g\<lparr>all_nodes := all_nodes g @
                   [Some \<lparr>kind = k, inputs = [], outputs = [v..<v + num_outputs], attrs = []\<rparr>],
                all_values := all_values g @
                   replicate num_outputs (Some \<lparr>type = TensorType None None, node = n\<rparr>)\<rparr>))"

text \<open>Modelled from the spec: \<^verbatim>\<open>Node::addOutput()\<close>, a new output value at the end.\<close>

definition addOutput :: "nat \<Rightarrow> Graph \<Rightarrow> error + nat \<times> Graph" where
  "addOutput n g =
     and_then (the_node g n) (\<lambda>N.
       let v = length (all_values g)
       in Inr (v, (set_node n (Some (N\<lparr>outputs := outputs N @ [v]\<rparr>)) g)
                    \<lparr>all_values := all_values g @ [Some \<lparr>type = TensorType None None, node = n\<rparr>]\<rparr>))"

text \<open>Modelled from the spec: \<^verbatim>\<open>Node::addInput(v)\<close>, a new input edge at the end.\<close>

definition addInput :: "nat \<Rightarrow> nat \<Rightarrow> Graph \<Rightarrow> error + Graph" where
  "addInput n v g =
     and_then (the_node g n) (\<lambda>N. Inr (set_node n (Some (N\<lparr>inputs := inputs N @ [v]\<rparr>)) g))"

text \<open>Modelled from the spec: \<^verbatim>\<open>Node::removeAllInputs()\<close>, which clears the input edges.\<close>

definition removeAllInputs :: "nat \<Rightarrow> Graph \<Rightarrow> error + Graph" where
  "removeAllInputs n g =
     and_then (the_node g n) (\<lambda>N. Inr (set_node n (Some (N\<lparr>inputs := []\<rparr>)) g))"

text \<open>Modelled from the spec: \<^verbatim>\<open>Value::setType\<close> and \<^verbatim>\<open>Value::copyMetadata\<close> (the type).\<close>

definition setType :: "nat \<Rightarrow> JitType \<Rightarrow> Graph \<Rightarrow> error + Graph" where
  "setType v t g = and_then (the_value g v) (\<lambda>V. Inr (set_value v (Some (V\<lparr>type := t\<rparr>)) g))"

definition copyMetadata :: "nat \<Rightarrow> nat \<Rightarrow> Graph \<Rightarrow> error + Graph" where
  "copyMetadata v from g = and_then (type_of g from) (\<lambda>t. setType v t g)"

text \<open>
  Modelled from the spec: the attribute setters \<^verbatim>\<open>i_\<close> and \<^verbatim>\<open>t_\<close> (\<^verbatim>\<open>set_int\<close> and
  \<^verbatim>\<open>set_tensor\<close> in section 6): the attribute of that name is replaced where the node
  has one, and added at the end otherwise.
\<close>

fun set_attr :: "Symbol \<Rightarrow> AttributeValue \<Rightarrow> (Symbol \<times> AttributeValue) list
    \<Rightarrow> (Symbol \<times> AttributeValue) list" where
  "set_attr name a [] = [(name, a)]"
| "set_attr name a ((k, b) # rest) =
     (if k = name then (name, a) # rest else (k, b) # set_attr name a rest)"

definition set_int :: "nat \<Rightarrow> Symbol \<Rightarrow> int \<Rightarrow> Graph \<Rightarrow> error + Graph" where
  "set_int n name x g =
     and_then (the_node g n) (\<lambda>N.
       Inr (set_node n (Some (N\<lparr>attrs := set_attr name (IntAttr x) (attrs N)\<rparr>)) g))"

definition set_tensor :: "nat \<Rightarrow> Symbol \<Rightarrow> int \<Rightarrow> Graph \<Rightarrow> error + Graph" where
  "set_tensor n name x g =
     and_then (the_node g n) (\<lambda>N.
       Inr (set_node n (Some (N\<lparr>attrs := set_attr name (ScalarTensorAttr x) (attrs N)\<rparr>)) g))"

text \<open>
  Modelled from the spec: \<^verbatim>\<open>Node::eraseOutput(i)\<close>. Section 3: a value is removed only
  when it has no uses left (an assertion).
\<close>

definition eraseOutput :: "nat \<Rightarrow> nat \<Rightarrow> Graph \<Rightarrow> error + Graph" where
  "eraseOutput n i g =
     and_then (the_node g n) (\<lambda>N.
       if \<not> i < length (outputs N) then Inl internal_assert
       else if uses g (outputs N ! i) \<noteq> [] then Inl internal_assert
       else Inr (set_value (outputs N ! i) None
                  (set_node n (Some (N\<lparr>outputs := take i (outputs N) @ drop (Suc i) (outputs N)\<rparr>)) g)))"

text \<open>
  Modelled from the spec: \<^verbatim>\<open>Value::replaceAllUsesWith\<close>: every input edge that reads
  the value reads the new value instead.
\<close>

definition replace_input :: "nat \<Rightarrow> nat \<Rightarrow> Node \<Rightarrow> Node" where
  "replace_input v new N = N\<lparr>inputs := map (\<lambda>x. if x = v then new else x) (inputs N)\<rparr>"

definition Value_replaceAllUsesWith :: "nat \<Rightarrow> nat \<Rightarrow> Graph \<Rightarrow> Graph" where
  "Value_replaceAllUsesWith v new g =
     g\<lparr>all_nodes := map (map_option (replace_input v new)) (all_nodes g)\<rparr>"

text \<open>
  Modelled from the spec: \<^verbatim>\<open>Node::replaceAllUsesWith(n)\<close>: the nodes have the same
  number of outputs (an assertion), and the uses of the i-th output become uses of
  the i-th output of \<open>n\<close>, one output after the other.
\<close>

definition Node_replaceAllUsesWith :: "nat \<Rightarrow> nat \<Rightarrow> Graph \<Rightarrow> error + Graph" where
  "Node_replaceAllUsesWith old new g =
     and_then (the_node g old) (\<lambda>N.
     and_then (the_node g new) (\<lambda>M.
       if length (outputs N) \<noteq> length (outputs M) then Inl internal_assert
       else Inr (fold (\<lambda>(v, w). Value_replaceAllUsesWith v w) (zip (outputs N) (outputs M)) g)))"

text \<open>
  Modelled from the spec: \<^verbatim>\<open>Node::insertBefore(n)\<close>: \<open>n\<close> is in a block (an assertion),
  and the node goes into the same block, right before \<open>n\<close>.
\<close>

fun insert_Block :: "nat \<Rightarrow> nat \<Rightarrow> Block \<Rightarrow> Block"
  and insert_nodes :: "nat \<Rightarrow> nat \<Rightarrow> (nat \<times> Block list) list \<Rightarrow> (nat \<times> Block list) list"
  and insert_blocks :: "nat \<Rightarrow> nat \<Rightarrow> Block list \<Rightarrow> Block list" where
  "insert_Block new it (Block p ns r) = Block p (insert_nodes new it ns) r"
| "insert_nodes new it [] = []"
| "insert_nodes new it ((n, bs) # rest) =
     (if n = it then (new, []) # (n, bs) # rest
      else (n, insert_blocks new it bs) # insert_nodes new it rest)"
| "insert_blocks new it [] = []"
| "insert_blocks new it (b # bs) = insert_Block new it b # insert_blocks new it bs"

definition insertBefore :: "nat \<Rightarrow> nat \<Rightarrow> Graph \<Rightarrow> error + Graph" where
  "insertBefore new it g =
     (if inBlockList g it then Inr (g\<lparr>block := insert_Block new it (block g)\<rparr>)
      else Inl internal_assert)"

text \<open>
  Modelled from the spec: \<^verbatim>\<open>Node::destroy()\<close> (reached through the iterator's
  \<^verbatim>\<open>destroyCurrent()\<close>). Section 3: the outputs of a destroyed node have no uses left
  (an assertion, output by output from the last), its input edges are cleared, and
  the node leaves its block and the graph. The nested blocks of the node go with it:
  their return node loses its inputs, their nodes are destroyed from the last to
  the first, then their return and param nodes.
\<close>

definition erase_outputs :: "nat \<Rightarrow> Graph \<Rightarrow> error + Graph" where
  "erase_outputs n g =
     and_then (the_node g n) (\<lambda>N.
       for_each (rev [0..<length (outputs N)]) (\<lambda>i. eraseOutput n i) g)"

definition free_node :: "nat \<Rightarrow> Graph \<Rightarrow> error + Graph" where
  "free_node n g =
     and_then (erase_outputs n g) (\<lambda>g1.
     and_then (removeAllInputs n g1) (\<lambda>g2. Inr (set_node n None g2)))"

fun destroy_Block :: "Block \<Rightarrow> Graph \<Rightarrow> error + Graph"
  and destroy_nodes :: "(nat \<times> Block list) list \<Rightarrow> Graph \<Rightarrow> error + Graph"
  and destroy_blocks :: "Block list \<Rightarrow> Graph \<Rightarrow> error + Graph" where
  "destroy_Block (Block p ns r) g =
     and_then (removeAllInputs r g) (\<lambda>g1.
     and_then (destroy_nodes ns g1) (\<lambda>g2.
     and_then (free_node r g2) (\<lambda>g3. free_node p g3)))"
| "destroy_nodes [] g = Inr g"
| "destroy_nodes ((n, bs) # rest) g =
     and_then (destroy_nodes rest g) (\<lambda>g1.
     and_then (erase_outputs n g1) (\<lambda>g2.
     and_then (destroy_blocks bs g2) (\<lambda>g3.
     and_then (removeAllInputs n g3) (\<lambda>g4. Inr (set_node n None g4)))))"
| "destroy_blocks [] g = Inr g"
| "destroy_blocks (b # bs) g =
     and_then (destroy_blocks bs g) (\<lambda>g1. destroy_Block b g1)"

fun remove_Block :: "nat \<Rightarrow> Block \<Rightarrow> Block"
  and remove_nodes :: "nat \<Rightarrow> (nat \<times> Block list) list \<Rightarrow> (nat \<times> Block list) list"
  and remove_blocks :: "nat \<Rightarrow> Block list \<Rightarrow> Block list" where
  "remove_Block it (Block p ns r) = Block p (remove_nodes it ns) r"
| "remove_nodes it [] = []"
| "remove_nodes it ((n, bs) # rest) =
     (if n = it then rest else (n, remove_blocks it bs) # remove_nodes it rest)"
| "remove_blocks it [] = []"
| "remove_blocks it (b # bs) = remove_Block it b # remove_blocks it bs"

definition destroy :: "nat \<Rightarrow> Graph \<Rightarrow> error + Graph" where
  "destroy n g =
     and_then (erase_outputs n g) (\<lambda>g1.
     and_then (destroy_blocks (blocks g1 n) g1) (\<lambda>g2.
     and_then (removeAllInputs n g2) (\<lambda>g3.
       Inr (set_node n None (g3\<lparr>block := remove_Block n (block g3)\<rparr>)))))"

section \<open>The passes\<close>

subsection \<open>The traversal the four passes share\<close>

text \<open>
  Every pass is the same loop over a block:
  \<^verbatim>\<open>for (auto it = b->nodes().begin(), end = b->nodes().end(); it != end; ++it) {
    for (auto* child_block : it->blocks()) { Pass(child_block); }
    ... the rewrite at *it ...
  }\<close>
  The rewrites put new nodes before the current node only, and destroy the current
  node only (\<^verbatim>\<open>destroyCurrent\<close> steps back to the node before it, and \<^verbatim>\<open>++it\<close> then
  reaches the node that followed the destroyed one). So the loop visits the nodes the
  block held when the loop started, in their order, and the nested blocks of a node
  are untouched until the node is reached: the traversal is a recursion on the block
  as it was, with the graph passed along.
\<close>

fun walk_Block :: "(nat \<Rightarrow> Graph \<Rightarrow> error + Graph) \<Rightarrow> Block \<Rightarrow> Graph \<Rightarrow> error + Graph"
  and walk_nodes :: "(nat \<Rightarrow> Graph \<Rightarrow> error + Graph) \<Rightarrow> (nat \<times> Block list) list \<Rightarrow> Graph \<Rightarrow> error + Graph"
  and walk_blocks :: "(nat \<Rightarrow> Graph \<Rightarrow> error + Graph) \<Rightarrow> Block list \<Rightarrow> Graph \<Rightarrow> error + Graph" where
  "walk_Block rewrite (Block p ns r) g = walk_nodes rewrite ns g"
| "walk_nodes rewrite [] g = Inr g"
| "walk_nodes rewrite ((it, child_blocks) # rest) g =
     and_then (walk_blocks rewrite child_blocks g) (\<lambda>g1.
     and_then (rewrite it g1) (\<lambda>g2. walk_nodes rewrite rest g2))"
| "walk_blocks rewrite [] g = Inr g"
| "walk_blocks rewrite (b # bs) g =
     and_then (walk_Block rewrite b g) (\<lambda>g1. walk_blocks rewrite bs g1)"

subsection \<open>Pass 1: fuse a list producer with its ListUnpack\<close>

text \<open>\<^verbatim>\<open>FindFusibleListUnpack(Node* n)\<close>, lines 14 to 28.\<close>

definition FindFusibleListUnpack :: "nat \<Rightarrow> Graph \<Rightarrow> error + nat option" where
  "FindFusibleListUnpack n g =
     and_then (the_node g n) (\<lambda>N.
       if length (outputs N) \<noteq> 1 then Inr None
       else and_then (sole_output g n) (\<lambda>out.
         if length (uses g out) \<noteq> 1 then Inr None
         else let listUnpackNode = fst (uses g out ! 0)
           in and_then (the_node g listUnpackNode) (\<lambda>U.
             if kind U \<noteq> prim_ListUnpack then Inr None
             else Inr (Some listUnpackNode))))"

text \<open>
  \<^verbatim>\<open>FuseWithListUnpack(Node* n)\<close>, lines 57 to 83. The bound of the loop,
  \<^verbatim>\<open>listUnpack_node->outputs().size()\<close>, is read once: the loop adds outputs to \<open>n\<close>,
  and \<open>n\<close> is not the ListUnpack (the caller passes nodes of the trigger kinds). The
  counter of the loop is an \<^verbatim>\<open>int\<close> (\<^verbatim>\<open>auto i = 0\<close>): with \<open>2^31\<close> outputs or more its
  increment overflows.
\<close>

definition FuseWithListUnpack :: "nat \<Rightarrow> Graph \<Rightarrow> error + Graph" where
  "FuseWithListUnpack n g =
     and_then (FindFusibleListUnpack n g) (\<lambda>found_listUnpack.
       case found_listUnpack of
         None \<Rightarrow> Inr g
       | Some listUnpack_node \<Rightarrow>
           and_then (the_node g n) (\<lambda>N.
           if length (outputs N) \<noteq> 1 then Inl internal_assert
           else
           and_then (the_node g listUnpack_node) (\<lambda>U.
           and_then (set_int n attr_outputs (to_int64 (length (outputs U))) g) (\<lambda>g1.
           if 2 ^ 31 \<le> length (outputs U) then Inl signed_overflow
           else
           and_then (for_each [0..<length (outputs U)] (\<lambda>i gi.
               and_then (addOutput n gi) (\<lambda>(new_output, gj).
               and_then (output_at gj listUnpack_node i) (\<lambda>from.
                 copyMetadata new_output from gj))) g1) (\<lambda>g2.
           and_then (removeAllInputs listUnpack_node g2) (\<lambda>g3.
           and_then (eraseOutput n 0 g3) (\<lambda>g4.
             Node_replaceAllUsesWith listUnpack_node n g4)))))))"

text \<open>\<^verbatim>\<open>FuseWithListUnpack(Block* b)\<close>, lines 85 to 106: the switch on the kind.\<close>

definition FuseWithListUnpack_at :: "nat \<Rightarrow> Graph \<Rightarrow> error + Graph" where
  "FuseWithListUnpack_at it g =
     and_then (the_node g it) (\<lambda>N.
       if kind N \<in> {aten_split, aten_split_with_sizes, aten_unsafe_split,
                    aten_unsafe_split_with_sizes, aten_unbind, aten_unsafe_chunk, aten_where}
       then FuseWithListUnpack it g
       else Inr g)"

definition FuseWithListUnpack_Block :: "Block \<Rightarrow> Graph \<Rightarrow> error + Graph" where
  "FuseWithListUnpack_Block b g = walk_Block FuseWithListUnpack_at b g"

subsection \<open>Pass 2: aten::add of two int lists becomes onnx::Concat\<close>

text \<open>
  \<^verbatim>\<open>ReplaceAddWithConcat(Block* b)\<close>, lines 134 to 160: the body of the loop at the
  node \<open>it\<close>. The \<^verbatim>\<open>||\<close> of line 140 does not read \<^verbatim>\<open>input(1)\<close> when \<^verbatim>\<open>input(0)\<close> is
  no list.
\<close>

definition ReplaceAddWithConcat_at :: "nat \<Rightarrow> Graph \<Rightarrow> error + Graph" where
  "ReplaceAddWithConcat_at it g =
     and_then (the_node g it) (\<lambda>N.
     if kind N = aten_add then
       and_then (input_at g it 0) (\<lambda>in0.
       and_then (type_of g in0) (\<lambda>t0.
       if cast_ListType t0 = None then Inr g
       else
       and_then (input_at g it 1) (\<lambda>in1.
       and_then (type_of g in1) (\<lambda>t1.
       if cast_ListType t1 = None then Inr g
       else
         let elem = getElementType t0 in
         if cast_IntType elem \<noteq> None then
           (case create onnx_Concat 1 g of (concat_node, g1) \<Rightarrow>
           and_then (set_int concat_node attr_axis 0 g1) (\<lambda>g2.
           and_then (insertBefore concat_node it g2) (\<lambda>g3.
           and_then (input_at g3 it 0) (\<lambda>a.
           and_then (addInput concat_node a g3) (\<lambda>g4.
           and_then (input_at g4 it 1) (\<lambda>b.
           and_then (addInput concat_node b g4) (\<lambda>g5.
           and_then (output_at g5 concat_node 0) (\<lambda>out.
           and_then (setType out (fromNumberType elem) g5) (\<lambda>g6.
           and_then (Node_replaceAllUsesWith it concat_node g6) (\<lambda>g7.
           and_then (removeAllInputs it g7) (\<lambda>g8.
             destroy it g8)))))))))))
         else Inr g))))
     else Inr g)"

definition ReplaceAddWithConcat :: "Block \<Rightarrow> Graph \<Rightarrow> error + Graph" where
  "ReplaceAddWithConcat b g = walk_Block ReplaceAddWithConcat_at b g"

subsection \<open>Pass 3: aten::index_put_ with a boolean mask becomes masked_fill or masked_scatter\<close>

text \<open>The expression of line 209, \<^verbatim>\<open>(!lc_node->inputs().size()) == 1\<close>: the negation
  of a \<^verbatim>\<open>size_t\<close> is the \<^verbatim>\<open>bool\<close> "the size is zero", which \<^verbatim>\<open>== 1\<close> promotes to
  \<^verbatim>\<open>int\<close> (true is 1, false is 0).\<close>

definition size_check :: "nat \<Rightarrow> bool" where
  "size_check sz = ((if \<not> (sz \<noteq> 0) then 1 else 0 :: int) = 1)"

text \<open>
  \<^verbatim>\<open>ReplaceIndexPutWithMaskedScatter(Block* b)\<close>, lines 196 to 237: the body of the
  loop at the node \<open>it\<close>. The check of line 209 is the parameter \<open>check\<close> (the pass runs
  with \<^const>\<open>size_check\<close>), so that the pass can be compared with the loop that has
  no such check.
\<close>

definition IndexPut_at :: "(nat \<Rightarrow> bool) \<Rightarrow> nat \<Rightarrow> Graph \<Rightarrow> error + Graph" where
  "IndexPut_at check it g =
     and_then (the_node g it) (\<lambda>N.
     if kind N = aten_index_put_inplace then
       and_then (input_at g it 1) (\<lambda>indices.
       and_then (producer g indices) (\<lambda>lc_node.
       and_then (input_at g lc_node 0) (\<lambda>mask.
       and_then (type_of g mask) (\<lambda>mask_type.
       case cast_TensorType mask_type of
         None \<Rightarrow> Inr g
       | Some mask_tensor \<Rightarrow>
           if scalarType mask_tensor = None \<or> scalarType mask_tensor \<noteq> Some kBool then Inr g
           else
           and_then (the_node g lc_node) (\<lambda>LC.
           if check (length (inputs LC)) then Inr g
           else
           and_then (input_at g it 2) (\<lambda>val.
           and_then (type_of g val) (\<lambda>val_type.
           case cast_TensorType val_type of
             None \<Rightarrow> Inr g
           | Some val_tensor \<Rightarrow>
               (case sizes_size val_tensor of
                  None \<Rightarrow> Inr g
                | Some rank \<Rightarrow>
                    (case create (if rank = 0 then aten_masked_fill else aten_masked_scatter) 1 g of
                       (masked_node, g1) \<Rightarrow>
                    and_then (insertBefore masked_node it g1) (\<lambda>g2.
                    and_then (input_at g2 it 0) (\<lambda>a.
                    and_then (addInput masked_node a g2) (\<lambda>g3.
                    and_then (input_at g3 lc_node 0) (\<lambda>b.
                    and_then (addInput masked_node b g3) (\<lambda>g4.
                    and_then (input_at g4 it 2) (\<lambda>c.
                    and_then (addInput masked_node c g4) (\<lambda>g5.
                    and_then (Node_replaceAllUsesWith it masked_node g5) (\<lambda>g6.
                    and_then (removeAllInputs it g6) (\<lambda>g7.
                      destroy it g7))))))))))))))))))
     else Inr g)"

definition ReplaceIndexPutWithMaskedScatter_at :: "nat \<Rightarrow> Graph \<Rightarrow> error + Graph" where
  "ReplaceIndexPutWithMaskedScatter_at it g = IndexPut_at size_check it g"

definition ReplaceIndexPutWithMaskedScatter :: "Block \<Rightarrow> Graph \<Rightarrow> error + Graph" where
  "ReplaceIndexPutWithMaskedScatter b g = walk_Block ReplaceIndexPutWithMaskedScatter_at b g"

subsection \<open>Pass 4: ListUnpack of an int list becomes one Gather for each output\<close>

text \<open>
  \<^verbatim>\<open>fuseListAndListUnpack(Block* b)\<close>, lines 263 to 292: the body of the inner loop,
  for the output index \<open>i\<close> of the node \<open>it\<close>, and the body of the outer loop at \<open>it\<close>.
  Nothing in the inner loop changes the outputs of \<open>it\<close>, so its bound is read once.
\<close>

definition expand_output :: "nat \<Rightarrow> nat \<Rightarrow> Graph \<Rightarrow> error + Graph" where
  "expand_output it i g =
     and_then (output_at g it i) (\<lambda>out.
     and_then (the_node g it) (\<lambda>N.
     if length (inputs N) \<noteq> 1 then Inr g
     else
     and_then (sole_input g it) (\<lambda>in0.
     and_then (producer g in0) (\<lambda>p.
     and_then (the_node g p) (\<lambda>P.
     if kind P = prim_ListConstruct then Inr g
     else
     and_then (type_of g in0) (\<lambda>t.
     case cast_ListType t of
       None \<Rightarrow> Inr g
     | Some list_type \<Rightarrow>
         if cast_IntType (getElementType list_type) = None then Inr g
         else
           (case create onnx_Constant 1 g of (gather_indices, g1) \<Rightarrow>
           and_then (insertBefore gather_indices it g1) (\<lambda>g2.
           and_then (set_tensor gather_indices attr_value (to_int i) g2) (\<lambda>g3.
           (case create onnx_Gather 1 g3 of (gather_node, g4) \<Rightarrow>
           and_then (insertBefore gather_node it g4) (\<lambda>g5.
           and_then (sole_input g5 it) (\<lambda>a.
           and_then (addInput gather_node a g5) (\<lambda>g6.
           and_then (sole_output g6 gather_indices) (\<lambda>b.
           and_then (addInput gather_node b g6) (\<lambda>g7.
           and_then (sole_output g7 gather_node) (\<lambda>new.
             Inr (Value_replaceAllUsesWith out new g7)))))))))))))))))"

definition fuseListAndListUnpack_at :: "nat \<Rightarrow> Graph \<Rightarrow> error + Graph" where
  "fuseListAndListUnpack_at it g =
     and_then (the_node g it) (\<lambda>N.
     if kind N = prim_ListUnpack
     then for_each [0..<length (outputs N)] (expand_output it) g
     else Inr g)"

definition fuseListAndListUnpack :: "Block \<Rightarrow> Graph \<Rightarrow> error + Graph" where
  "fuseListAndListUnpack b g = walk_Block fuseListAndListUnpack_at b g"

subsection \<open>The entry point\<close>

text \<open>\<^verbatim>\<open>PreprocessForONNX\<close>, lines 296 to 301: the four passes on \<^verbatim>\<open>graph->block()\<close>.\<close>

definition PreprocessForONNX :: "Graph \<Rightarrow> error + Graph" where
  "PreprocessForONNX graph =
     and_then (FuseWithListUnpack_Block (block graph) graph) (\<lambda>g1.
     and_then (ReplaceAddWithConcat (block g1) g1) (\<lambda>g2.
     and_then (ReplaceIndexPutWithMaskedScatter (block g2) g2) (\<lambda>g3.
       fuseListAndListUnpack (block g3) g3)))"

section \<open>Replacing the outputs of one node by those of another\<close>

text \<open>
  What \<^const>\<open>Node_replaceAllUsesWith\<close> makes of a value that a node reads: the i-th
  of the old outputs becomes the i-th of the new outputs, any other value stays.
\<close>

definition replaced_by :: "nat list \<Rightarrow> nat list \<Rightarrow> nat \<Rightarrow> nat" where
  "replaced_by olds news x = (case map_of (zip olds news) x of None \<Rightarrow> x | Some y \<Rightarrow> y)"

section \<open>Graphs on which no rewrite fires\<close>



section \<open>Example graphs\<close>

text \<open>
  The graphs of the comments of the source and of the scenarios of the spec (section
  8). Node 0 is the param node of the root block and node 1 its return node.
\<close>

text \<open>Lines 40 to 46 (scenario S1): \<^verbatim>\<open>%8 : Tensor[] = aten::split_with_sizes(%input, %13, %7)\<close>,
  unpacked into three tensors that the graph returns.\<close>

definition graph_split :: Graph where
  "graph_split =
     \<lparr>all_nodes =
       [Some \<lparr>kind = prim_Param, inputs = [], outputs = [0], attrs = []\<rparr>,
        Some \<lparr>kind = prim_Return, inputs = [4, 5, 6], outputs = [], attrs = []\<rparr>,
        Some \<lparr>kind = prim_Constant, inputs = [], outputs = [1], attrs = []\<rparr>,
        Some \<lparr>kind = prim_Constant, inputs = [], outputs = [2], attrs = [(attr_value, IntAttr 0)]\<rparr>,
        Some \<lparr>kind = aten_split_with_sizes, inputs = [0, 1, 2], outputs = [3], attrs = []\<rparr>,
        Some \<lparr>kind = prim_ListUnpack, inputs = [3], outputs = [4, 5, 6], attrs = []\<rparr>],
      all_values =
       [Some \<lparr>type = TensorType (Some kFloat) (Some 3), node = 0\<rparr>,
        Some \<lparr>type = ListType IntType, node = 2\<rparr>,
        Some \<lparr>type = IntType, node = 3\<rparr>,
        Some \<lparr>type = ListType (TensorType None None), node = 4\<rparr>,
        Some \<lparr>type = TensorType (Some kFloat) (Some 3), node = 5\<rparr>,
        Some \<lparr>type = TensorType (Some kFloat) (Some 3), node = 5\<rparr>,
        Some \<lparr>type = TensorType (Some kFloat) (Some 3), node = 5\<rparr>],
      block = Block 0 [(2, []), (3, []), (4, []), (5, [])] 1\<rparr>"

text \<open>Scenario S6: the list of the split is unpacked and read by a second node.\<close>

definition graph_split_two_uses :: Graph where
  "graph_split_two_uses =
     \<lparr>all_nodes =
       [Some \<lparr>kind = prim_Param, inputs = [], outputs = [0], attrs = []\<rparr>,
        Some \<lparr>kind = prim_Return, inputs = [4, 5, 6], outputs = [], attrs = []\<rparr>,
        Some \<lparr>kind = prim_Constant, inputs = [], outputs = [1], attrs = [(attr_value, IntAttr 2)]\<rparr>,
        Some \<lparr>kind = prim_Constant, inputs = [], outputs = [2], attrs = [(attr_value, IntAttr 0)]\<rparr>,
        Some \<lparr>kind = aten_split, inputs = [0, 1, 2], outputs = [3], attrs = []\<rparr>,
        Some \<lparr>kind = prim_ListUnpack, inputs = [3], outputs = [4, 5], attrs = []\<rparr>,
        Some \<lparr>kind = (OtherSymbol ''some_user''), inputs = [3], outputs = [6], attrs = []\<rparr>],
      all_values =
       [Some \<lparr>type = TensorType (Some kFloat) (Some 3), node = 0\<rparr>,
        Some \<lparr>type = IntType, node = 2\<rparr>,
        Some \<lparr>type = IntType, node = 3\<rparr>,
        Some \<lparr>type = ListType (TensorType None None), node = 4\<rparr>,
        Some \<lparr>type = TensorType (Some kFloat) (Some 3), node = 5\<rparr>,
        Some \<lparr>type = TensorType (Some kFloat) (Some 3), node = 5\<rparr>,
        Some \<lparr>type = TensorType None None, node = 6\<rparr>],
      block = Block 0 [(2, []), (3, []), (4, []), (5, []), (6, [])] 1\<rparr>"

text \<open>A split whose list has no consumer.\<close>

definition graph_split_unused :: Graph where
  "graph_split_unused =
     \<lparr>all_nodes =
       [Some \<lparr>kind = prim_Param, inputs = [], outputs = [0], attrs = []\<rparr>,
        Some \<lparr>kind = prim_Return, inputs = [0], outputs = [], attrs = []\<rparr>,
        Some \<lparr>kind = prim_Constant, inputs = [], outputs = [1], attrs = [(attr_value, IntAttr 2)]\<rparr>,
        Some \<lparr>kind = prim_Constant, inputs = [], outputs = [2], attrs = [(attr_value, IntAttr 0)]\<rparr>,
        Some \<lparr>kind = aten_split, inputs = [0, 1, 2], outputs = [3], attrs = []\<rparr>],
      all_values =
       [Some \<lparr>type = TensorType (Some kFloat) (Some 3), node = 0\<rparr>,
        Some \<lparr>type = IntType, node = 2\<rparr>,
        Some \<lparr>type = IntType, node = 3\<rparr>,
        Some \<lparr>type = ListType (TensorType None None), node = 4\<rparr>],
      block = Block 0 [(2, []), (3, []), (4, [])] 1\<rparr>"

text \<open>Lines 112 to 121 (scenario S2): \<^verbatim>\<open>%7 : int[] = aten::add(%l1.1, %l2.1)\<close> of two int lists.\<close>

definition graph_add :: Graph where
  "graph_add =
     \<lparr>all_nodes =
       [Some \<lparr>kind = prim_Param, inputs = [], outputs = [0, 1], attrs = []\<rparr>,
        Some \<lparr>kind = prim_Return, inputs = [4], outputs = [], attrs = []\<rparr>,
        Some \<lparr>kind = aten_size, inputs = [0], outputs = [2], attrs = []\<rparr>,
        Some \<lparr>kind = aten_size, inputs = [1], outputs = [3], attrs = []\<rparr>,
        Some \<lparr>kind = aten_add, inputs = [2, 3], outputs = [4], attrs = []\<rparr>],
      all_values =
       [Some \<lparr>type = TensorType (Some kFloat) (Some 3), node = 0\<rparr>,
        Some \<lparr>type = TensorType (Some kFloat) (Some 3), node = 0\<rparr>,
        Some \<lparr>type = ListType IntType, node = 2\<rparr>,
        Some \<lparr>type = ListType IntType, node = 3\<rparr>,
        Some \<lparr>type = ListType IntType, node = 4\<rparr>],
      block = Block 0 [(2, []), (3, []), (4, [])] 1\<rparr>"

text \<open>The same add, of two float lists.\<close>

definition graph_add_float :: Graph where
  "graph_add_float =
     \<lparr>all_nodes =
       [Some \<lparr>kind = prim_Param, inputs = [], outputs = [0, 1], attrs = []\<rparr>,
        Some \<lparr>kind = prim_Return, inputs = [4], outputs = [], attrs = []\<rparr>,
        Some \<lparr>kind = aten_size, inputs = [0], outputs = [2], attrs = []\<rparr>,
        Some \<lparr>kind = aten_size, inputs = [1], outputs = [3], attrs = []\<rparr>,
        Some \<lparr>kind = aten_add, inputs = [2, 3], outputs = [4], attrs = []\<rparr>],
      all_values =
       [Some \<lparr>type = TensorType (Some kFloat) (Some 3), node = 0\<rparr>,
        Some \<lparr>type = TensorType (Some kFloat) (Some 3), node = 0\<rparr>,
        Some \<lparr>type = ListType FloatType, node = 2\<rparr>,
        Some \<lparr>type = ListType FloatType, node = 3\<rparr>,
        Some \<lparr>type = ListType FloatType, node = 4\<rparr>],
      block = Block 0 [(2, []), (3, []), (4, [])] 1\<rparr>"

text \<open>The same add, of an int list and a float list.\<close>

definition graph_add_mixed :: Graph where
  "graph_add_mixed =
     \<lparr>all_nodes =
       [Some \<lparr>kind = prim_Param, inputs = [], outputs = [0, 1], attrs = []\<rparr>,
        Some \<lparr>kind = prim_Return, inputs = [4], outputs = [], attrs = []\<rparr>,
        Some \<lparr>kind = aten_size, inputs = [0], outputs = [2], attrs = []\<rparr>,
        Some \<lparr>kind = aten_size, inputs = [1], outputs = [3], attrs = []\<rparr>,
        Some \<lparr>kind = aten_add, inputs = [2, 3], outputs = [4], attrs = []\<rparr>],
      all_values =
       [Some \<lparr>type = TensorType (Some kFloat) (Some 3), node = 0\<rparr>,
        Some \<lparr>type = TensorType (Some kFloat) (Some 3), node = 0\<rparr>,
        Some \<lparr>type = ListType IntType, node = 2\<rparr>,
        Some \<lparr>type = ListType FloatType, node = 3\<rparr>,
        Some \<lparr>type = ListType IntType, node = 4\<rparr>],
      block = Block 0 [(2, []), (3, []), (4, [])] 1\<rparr>"

text \<open>Lines 166 to 171 (scenario S3): \<^verbatim>\<open>aten::index_put_(%dest, %idx, %v, %acc)\<close> with
  \<^verbatim>\<open>%idx = prim::ListConstruct(%m)\<close>, a boolean mask \<^verbatim>\<open>%m\<close> and a value of rank 0.\<close>

definition graph_index_put :: Graph where
  "graph_index_put =
     \<lparr>all_nodes =
       [Some \<lparr>kind = prim_Param, inputs = [], outputs = [0, 1, 2], attrs = []\<rparr>,
        Some \<lparr>kind = prim_Return, inputs = [5], outputs = [], attrs = []\<rparr>,
        Some \<lparr>kind = prim_ListConstruct, inputs = [1], outputs = [3], attrs = []\<rparr>,
        Some \<lparr>kind = prim_Constant, inputs = [], outputs = [4], attrs = []\<rparr>,
        Some \<lparr>kind = aten_index_put_inplace, inputs = [0, 3, 2, 4], outputs = [5], attrs = []\<rparr>],
      all_values =
       [Some \<lparr>type = TensorType (Some kFloat) (Some 3), node = 0\<rparr>,
        Some \<lparr>type = TensorType (Some kBool) (Some 3), node = 0\<rparr>,
        Some \<lparr>type = TensorType (Some kFloat) (Some 0), node = 0\<rparr>,
        Some \<lparr>type = ListType (OptionalType (TensorType None None)), node = 2\<rparr>,
        Some \<lparr>type = BoolType, node = 3\<rparr>,
        Some \<lparr>type = TensorType (Some kFloat) (Some 3), node = 4\<rparr>],
      block = Block 0 [(2, []), (3, []), (4, [])] 1\<rparr>"


text \<open>The same, with an index of scalar kind Long.\<close>

definition graph_index_put_long :: Graph where
  "graph_index_put_long =
     \<lparr>all_nodes =
       [Some \<lparr>kind = prim_Param, inputs = [], outputs = [0, 1, 2], attrs = []\<rparr>,
        Some \<lparr>kind = prim_Return, inputs = [5], outputs = [], attrs = []\<rparr>,
        Some \<lparr>kind = prim_ListConstruct, inputs = [1], outputs = [3], attrs = []\<rparr>,
        Some \<lparr>kind = prim_Constant, inputs = [], outputs = [4], attrs = []\<rparr>,
        Some \<lparr>kind = aten_index_put_inplace, inputs = [0, 3, 2, 4], outputs = [5], attrs = []\<rparr>],
      all_values =
       [Some \<lparr>type = TensorType (Some kFloat) (Some 3), node = 0\<rparr>,
        Some \<lparr>type = TensorType (Some kLong) (Some 1), node = 0\<rparr>,
        Some \<lparr>type = TensorType (Some kFloat) (Some 0), node = 0\<rparr>,
        Some \<lparr>type = ListType (OptionalType (TensorType None None)), node = 2\<rparr>,
        Some \<lparr>type = BoolType, node = 3\<rparr>,
        Some \<lparr>type = TensorType (Some kFloat) (Some 3), node = 4\<rparr>],
      block = Block 0 [(2, []), (3, []), (4, [])] 1\<rparr>"

text \<open>The same, with a boolean mask and a value of unknown rank.\<close>

definition graph_index_put_unranked :: Graph where
  "graph_index_put_unranked =
     \<lparr>all_nodes =
       [Some \<lparr>kind = prim_Param, inputs = [], outputs = [0, 1, 2], attrs = []\<rparr>,
        Some \<lparr>kind = prim_Return, inputs = [5], outputs = [], attrs = []\<rparr>,
        Some \<lparr>kind = prim_ListConstruct, inputs = [1], outputs = [3], attrs = []\<rparr>,
        Some \<lparr>kind = prim_Constant, inputs = [], outputs = [4], attrs = []\<rparr>,
        Some \<lparr>kind = aten_index_put_inplace, inputs = [0, 3, 2, 4], outputs = [5], attrs = []\<rparr>],
      all_values =
       [Some \<lparr>type = TensorType (Some kFloat) (Some 3), node = 0\<rparr>,
        Some \<lparr>type = TensorType (Some kBool) (Some 3), node = 0\<rparr>,
        Some \<lparr>type = TensorType (Some kFloat) None, node = 0\<rparr>,
        Some \<lparr>type = ListType (OptionalType (TensorType None None)), node = 2\<rparr>,
        Some \<lparr>type = BoolType, node = 3\<rparr>,
        Some \<lparr>type = TensorType (Some kFloat) (Some 3), node = 4\<rparr>],
      block = Block 0 [(2, []), (3, []), (4, [])] 1\<rparr>"

text \<open>An \<^verbatim>\<open>aten::index_put_\<close> whose index list is a \<^verbatim>\<open>prim::Constant\<close>, a node with no inputs.\<close>

definition graph_index_put_constant :: Graph where
  "graph_index_put_constant =
     \<lparr>all_nodes =
       [Some \<lparr>kind = prim_Param, inputs = [], outputs = [0, 1], attrs = []\<rparr>,
        Some \<lparr>kind = prim_Return, inputs = [4], outputs = [], attrs = []\<rparr>,
        Some \<lparr>kind = prim_Constant, inputs = [], outputs = [2], attrs = []\<rparr>,
        Some \<lparr>kind = prim_Constant, inputs = [], outputs = [3], attrs = []\<rparr>,
        Some \<lparr>kind = aten_index_put_inplace, inputs = [0, 2, 1, 3], outputs = [4], attrs = []\<rparr>],
      all_values =
       [Some \<lparr>type = TensorType (Some kFloat) (Some 3), node = 0\<rparr>,
        Some \<lparr>type = TensorType (Some kFloat) (Some 0), node = 0\<rparr>,
        Some \<lparr>type = ListType (OptionalType (TensorType None None)), node = 2\<rparr>,
        Some \<lparr>type = BoolType, node = 3\<rparr>,
        Some \<lparr>type = TensorType (Some kFloat) (Some 3), node = 4\<rparr>],
      block = Block 0 [(2, []), (3, []), (4, [])] 1\<rparr>"

text \<open>Lines 243 to 249 (scenario S5): \<^verbatim>\<open>%a.1 : int, %b.1 : int = prim::ListUnpack(%2)\<close> of
  \<^verbatim>\<open>%2 : int[] = aten::size(%x.1)\<close>, read by a ListConstruct.\<close>

definition graph_unpack :: Graph where
  "graph_unpack =
     \<lparr>all_nodes =
       [Some \<lparr>kind = prim_Param, inputs = [], outputs = [0], attrs = []\<rparr>,
        Some \<lparr>kind = prim_Return, inputs = [4], outputs = [], attrs = []\<rparr>,
        Some \<lparr>kind = aten_size, inputs = [0], outputs = [1], attrs = []\<rparr>,
        Some \<lparr>kind = prim_ListUnpack, inputs = [1], outputs = [2, 3], attrs = []\<rparr>,
        Some \<lparr>kind = prim_ListConstruct, inputs = [2, 3], outputs = [4], attrs = []\<rparr>],
      all_values =
       [Some \<lparr>type = TensorType (Some kFloat) (Some 2), node = 0\<rparr>,
        Some \<lparr>type = ListType IntType, node = 2\<rparr>,
        Some \<lparr>type = IntType, node = 3\<rparr>,
        Some \<lparr>type = IntType, node = 3\<rparr>,
        Some \<lparr>type = ListType IntType, node = 4\<rparr>],
      block = Block 0 [(2, []), (3, []), (4, [])] 1\<rparr>"

text \<open>A ListUnpack of the int list of a ListConstruct.\<close>

definition graph_unpack_construct :: Graph where
  "graph_unpack_construct =
     \<lparr>all_nodes =
       [Some \<lparr>kind = prim_Param, inputs = [], outputs = [0, 1], attrs = []\<rparr>,
        Some \<lparr>kind = prim_Return, inputs = [3, 4], outputs = [], attrs = []\<rparr>,
        Some \<lparr>kind = prim_ListConstruct, inputs = [0, 1], outputs = [2], attrs = []\<rparr>,
        Some \<lparr>kind = prim_ListUnpack, inputs = [2], outputs = [3, 4], attrs = []\<rparr>],
      all_values =
       [Some \<lparr>type = IntType, node = 0\<rparr>,
        Some \<lparr>type = IntType, node = 0\<rparr>,
        Some \<lparr>type = ListType IntType, node = 2\<rparr>,
        Some \<lparr>type = IntType, node = 3\<rparr>,
        Some \<lparr>type = IntType, node = 3\<rparr>],
      block = Block 0 [(2, []), (3, [])] 1\<rparr>"

section \<open>Well-formed graphs\<close>

text \<open>
  What the passes take for granted of the graph they are given, in the words of the
  data model (spec, sections 3 and 8). Every output of a live node is a live value
  that has the node as its producer.
\<close>

definition owns_outputs :: "Graph \<Rightarrow> nat \<Rightarrow> Node \<Rightarrow> bool" where
  "owns_outputs g n N =
     (\<forall>v \<in> set (outputs N). case value_at g v of None \<Rightarrow> False | Some V \<Rightarrow> node V = n)"

text \<open>Every value a live node reads is a live value, and an output of its producer.\<close>

definition reads_owned :: "Graph \<Rightarrow> Node \<Rightarrow> bool" where
  "reads_owned g N =
     (\<forall>v \<in> set (inputs N).
        case value_at g v of
          None \<Rightarrow> False
        | Some V \<Rightarrow> (case node_at g (node V) of None \<Rightarrow> False | Some P \<Rightarrow> v \<in> set (outputs P)))"

text \<open>
  The operators the passes match have the shape of their schema: a
  \<^verbatim>\<open>prim::ListUnpack\<close> has at most one input, fewer than \<open>2^31\<close> outputs and no nested
  block; an \<^verbatim>\<open>aten::add\<close> has at least two inputs, one output and no nested block; an
  \<^verbatim>\<open>aten::index_put_\<close> has at least three inputs, one output and no nested block, and
  its index list is the output of a node that has an input and is no ListUnpack.
\<close>

definition schema :: "Graph \<Rightarrow> nat \<Rightarrow> Node \<Rightarrow> bool" where
  "schema g n N =
     ((kind N = prim_ListUnpack \<longrightarrow>
          length (inputs N) \<le> 1 \<and> int (length (outputs N)) < 2 ^ 31 \<and> blocks g n = [])
      \<and> (kind N = aten_add \<longrightarrow> 2 \<le> length (inputs N) \<and> length (outputs N) = 1 \<and> blocks g n = [])
      \<and> (kind N = aten_index_put_inplace \<longrightarrow>
           3 \<le> length (inputs N) \<and> length (outputs N) = 1 \<and> blocks g n = [] \<and>
           (case producer g (inputs N ! 1) of
              Inl e \<Rightarrow> False
            | Inr p \<Rightarrow> (case node_at g p of
                          None \<Rightarrow> False
                        | Some P \<Rightarrow> kind P \<noteq> prim_ListUnpack \<and> inputs P \<noteq> []))))"

text \<open>
  A graph is well formed when no node is in two places of its blocks, every node of
  its blocks is live, and every live node owns its outputs, reads owned values and
  has the shape of its schema.
\<close>

definition well_formed :: "Graph \<Rightarrow> bool" where
  "well_formed g =
     (distinct (ids_Block (block g))
      \<and> (\<forall>n \<in> set (ids_Block (block g)). node_at g n \<noteq> None)
      \<and> (\<forall>n \<in> set [0..<length (all_nodes g)].
           case node_at g n of
             None \<Rightarrow> True
           | Some N \<Rightarrow> owns_outputs g n N \<and> reads_owned g N \<and> schema g n N))"

text \<open>The kinds of the switch of lines 88 to 100.\<close>

definition trigger_kinds :: "Symbol set" where
  "trigger_kinds = {aten_split, aten_split_with_sizes, aten_unsafe_split,
                    aten_unsafe_split_with_sizes, aten_unbind, aten_unsafe_chunk, aten_where}"

section \<open>The states of the traversal of pass 4\<close>

text \<open>A node is a ListUnpack of an int list: the node that pass 4 expands.\<close>

definition int_list_unpack :: "Graph \<Rightarrow> Node \<Rightarrow> bool" where
  "int_list_unpack s P =
     (kind P = prim_ListUnpack \<and>
      (case inputs P of [W] \<Rightarrow> type_of s W = Inr (ListType IntType) | _ \<Rightarrow> False))"

text \<open>
  The invariants of the traversal of pass 4, for a ListUnpack \<open>it\<close> of the graph \<open>g\<close>
  with the input \<open>V\<close>, produced by \<open>p\<close>. Before the traversal reaches \<open>it\<close>: every input
  edge that read an output of \<open>it\<close> in \<open>g\<close> still reads it, \<open>it\<close> and \<open>V\<close> are as they
  were, and \<open>p\<close> is of its kind and no ListUnpack of an int list.
\<close>

definition reads_kept :: "Graph \<Rightarrow> Node \<Rightarrow> Graph \<Rightarrow> bool" where
  "reads_kept g N s =
     (\<forall>x X j. node_at g x = Some X \<and> j < length (inputs X) \<and> inputs X ! j \<in> set (outputs N) \<longrightarrow>
        (\<exists>X'. node_at s x = Some X' \<and> j < length (inputs X') \<and> inputs X' ! j = inputs X ! j))"

definition unexpanded :: "Graph \<Rightarrow> nat \<Rightarrow> Node \<Rightarrow> nat \<Rightarrow> nat \<Rightarrow> Symbol \<Rightarrow> Graph \<Rightarrow> bool" where
  "unexpanded g it N V p kP s =
     (node_at s it = Some N \<and> value_at s V = value_at g V
      \<and> length (all_nodes g) \<le> length (all_nodes s) \<and> length (all_values g) \<le> length (all_values s)
      \<and> (\<exists>P'. node_at s p = Some P' \<and> kind P' = kP \<and> \<not> int_list_unpack s P')
      \<and> reads_kept g N s)"

text \<open>
  After the traversal has left \<open>it\<close>: \<open>it\<close> is as it was; for each output index \<open>i\<close>
  the Constant is the node \<open>c0 + 2 i\<close> and the Gather the node \<open>c0 + 2 i + 1\<close>, with
  the outputs \<open>L + 2 i\<close> and \<open>L + 2 i + 1\<close>; in the order of the blocks these nodes
  come before \<open>it\<close>, one after the other; every input edge that read the i-th output
  of \<open>it\<close> in \<open>g\<close> reads the output of the i-th Gather; and no output of \<open>it\<close> has a use.
\<close>

definition expanded ::
  "Graph \<Rightarrow> nat \<Rightarrow> Node \<Rightarrow> nat \<Rightarrow> nat \<Rightarrow> Symbol \<Rightarrow> nat \<Rightarrow> nat \<Rightarrow> Graph \<Rightarrow> bool" where
  "expanded g it N V p kP c0 L s =
     (node_at s it = Some N \<and> value_at s V = value_at g V
      \<and> length (all_nodes g) \<le> c0 \<and> length (all_values g) \<le> L
      \<and> c0 + 2 * length (outputs N) \<le> length (all_nodes s)
      \<and> L + 2 * length (outputs N) \<le> length (all_values s)
      \<and> (\<exists>P'. node_at s p = Some P' \<and> kind P' = kP \<and> \<not> int_list_unpack s P')
      \<and> (\<forall>i<length (outputs N).
            node_at s (c0 + 2 * i) =
              Some \<lparr>kind = onnx_Constant, inputs = [], outputs = [L + 2 * i],
                    attrs = [(attr_value, ScalarTensorAttr (int i))]\<rparr>
          \<and> node_at s (c0 + 2 * i + 1) =
              Some \<lparr>kind = onnx_Gather, inputs = [V, L + 2 * i], outputs = [L + 2 * i + 1], attrs = []\<rparr>)
      \<and> (\<forall>x X j i. node_at g x = Some X \<and> j < length (inputs X) \<and> i < length (outputs N)
            \<and> inputs X ! j = outputs N ! i \<longrightarrow>
            (\<exists>X'. node_at s x = Some X' \<and> j < length (inputs X') \<and> inputs X' ! j = L + 2 * i + 1))
      \<and> (\<forall>v \<in> set (outputs N). uses s v = [])
      \<and> filter (\<lambda>x. x \<in> set ([c0..<c0 + 2 * length (outputs N)] @ [it])) (ids_Block (block s))
          = [c0..<c0 + 2 * length (outputs N)] @ [it])"

section \<open>Basic facts\<close>

lemma and_then_Inr [simp]: "and_then (Inr x) f = f x"
  by (simp add: and_then_def)

lemma and_then_Inl [simp]: "and_then (Inl e) f = Inl e"
  by (simp add: and_then_def)

lemma and_then_eq_Inr:
  "and_then r f = Inr y \<longleftrightarrow> (\<exists>x. r = Inr x \<and> f x = Inr y)"
  by (cases r) auto

lemma the_node_Some [simp]: "node_at g n = Some N \<Longrightarrow> the_node g n = Inr N"
  by (simp add: the_node_def)

lemma the_node_None [simp]: "node_at g n = None \<Longrightarrow> the_node g n = Inl dangling"
  by (simp add: the_node_def)

lemma the_value_Some [simp]: "value_at g v = Some V \<Longrightarrow> the_value g v = Inr V"
  by (simp add: the_value_def)

lemma the_node_eq_Inr: "the_node g n = Inr N \<longleftrightarrow> node_at g n = Some N"
  by (simp add: the_node_def split: option.splits)

lemma the_value_eq_Inr: "the_value g v = Inr V \<longleftrightarrow> value_at g v = Some V"
  by (simp add: the_value_def split: option.splits)

lemma input_at_eq_Inr:
  "input_at g n i = Inr v \<longleftrightarrow> (\<exists>N. node_at g n = Some N \<and> i < length (inputs N) \<and> inputs N ! i = v)"
  by (auto simp: input_at_def and_then_eq_Inr the_node_eq_Inr)

lemma type_of_eq_Inr:
  "type_of g v = Inr t \<longleftrightarrow> (\<exists>V. value_at g v = Some V \<and> type V = t)"
  by (auto simp: type_of_def and_then_eq_Inr the_value_eq_Inr)

lemma producer_eq_Inr:
  "producer g v = Inr n \<longleftrightarrow> (\<exists>V. value_at g v = Some V \<and> node V = n)"
  by (auto simp: producer_def and_then_eq_Inr the_value_eq_Inr)

lemma node_at_less: "node_at g n = Some N \<Longrightarrow> n < length (all_nodes g)"
  by (simp add: node_at_def split: if_splits)

lemma value_at_less: "value_at g v = Some V \<Longrightarrow> v < length (all_values g)"
  by (simp add: value_at_def split: if_splits)

lemma uses_in_iff:
  "(m, off) \<in> set (uses_in n slot v) \<longleftrightarrow>
     (m = n \<and> (\<exists>M. slot = Some M \<and> off < length (inputs M) \<and> inputs M ! off = v))"
  by (cases slot) (auto simp: uses_in_def)

lemma uses_iff:
  "(m, off) \<in> set (uses g v) \<longleftrightarrow>
     (\<exists>M. node_at g m = Some M \<and> off < length (inputs M) \<and> inputs M ! off = v)"
proof -
  have "(m, off) \<in> set (uses g v) \<longleftrightarrow> m < length (all_nodes g) \<and> (m, off) \<in> set (uses_in m (node_at g m) v)"
    by (auto simp: uses_def uses_in_iff)
  also have "\<dots> \<longleftrightarrow> (\<exists>M. node_at g m = Some M \<and> off < length (inputs M) \<and> inputs M ! off = v)"
    by (auto simp: uses_in_iff node_at_def)
  finally show ?thesis .
qed

lemma uses_empty_iff:
  "uses g v = [] \<longleftrightarrow> (\<forall>m M. node_at g m = Some M \<longrightarrow> v \<notin> set (inputs M))"
proof
  assume e: "uses g v = []"
  show "\<forall>m M. node_at g m = Some M \<longrightarrow> v \<notin> set (inputs M)"
  proof (intro allI impI notI)
    fix m M
    assume "node_at g m = Some M" and "v \<in> set (inputs M)"
    then obtain off where "off < length (inputs M)" "inputs M ! off = v"
      by (auto simp: in_set_conv_nth)
    with \<open>node_at g m = Some M\<close> have "(m, off) \<in> set (uses g v)"
      by (auto simp: uses_iff)
    with e show False by simp
  qed
next
  assume a: "\<forall>m M. node_at g m = Some M \<longrightarrow> v \<notin> set (inputs M)"
  show "uses g v = []"
  proof (cases "uses g v")
    case (Cons p ps)
    obtain m off where p: "p = (m, off)" by (cases p)
    with Cons have "(m, off) \<in> set (uses g v)" by simp
    then obtain M where "node_at g m = Some M" "off < length (inputs M)" "inputs M ! off = v"
      by (auto simp: uses_iff)
    with a show ?thesis by (metis nth_mem)
  qed simp
qed

subsection \<open>Loops and the traversal\<close>

lemma for_each_append:
  "for_each (xs @ ys) f s = and_then (for_each xs f s) (for_each ys f)"
  by (induction xs arbitrary: s) (auto simp: and_then_def split: sum.splits)

lemma for_each_upt_Suc:
  "for_each [0..<Suc j] f s = and_then (for_each [0..<j] f s) (f j)"
  by (simp add: for_each_append and_then_def split: sum.splits)

lemma for_each_fixpoint:
  "(\<forall>x \<in> set xs. f x s = Inr s) \<Longrightarrow> for_each xs f s = Inr s"
  by (induction xs) auto


subsection \<open>What the operations of the IR change\<close>

lemma node_at_set_node [simp]:
  "node_at (set_node n slot g) m =
     (if m = n \<and> n < length (all_nodes g) then slot else node_at g m)"
  by (simp add: node_at_def set_node_def)

lemma value_at_set_node [simp]: "value_at (set_node n slot g) v = value_at g v"
  by (simp add: value_at_def set_node_def)

lemma block_set_node [simp]: "block (set_node n slot g) = block g"
  by (simp add: set_node_def)

lemma length_nodes_set_node [simp]:
  "length (all_nodes (set_node n slot g)) = length (all_nodes g)"
  by (simp add: set_node_def)

lemma all_values_set_node [simp]: "all_values (set_node n slot g) = all_values g"
  by (simp add: set_node_def)

lemma node_at_set_value [simp]: "node_at (set_value v slot g) m = node_at g m"
  by (simp add: node_at_def set_value_def)

lemma value_at_set_value [simp]:
  "value_at (set_value v slot g) w =
     (if w = v \<and> v < length (all_values g) then slot else value_at g w)"
  by (simp add: value_at_def set_value_def)

lemma block_set_value [simp]: "block (set_value v slot g) = block g"
  by (simp add: set_value_def)

lemma length_values_set_value [simp]:
  "length (all_values (set_value v slot g)) = length (all_values g)"
  by (simp add: set_value_def)

lemma all_nodes_set_value [simp]: "all_nodes (set_value v slot g) = all_nodes g"
  by (simp add: set_value_def)

lemma node_at_block_update [simp]: "node_at (g\<lparr>block := b\<rparr>) m = node_at g m"
  by (simp add: node_at_def)

lemma value_at_block_update [simp]: "value_at (g\<lparr>block := b\<rparr>) v = value_at g v"
  by (simp add: value_at_def)

lemma node_at_values_update [simp]: "node_at (g\<lparr>all_values := vs\<rparr>) m = node_at g m"
  by (simp add: node_at_def)

lemma value_at_values_append [simp]:
  "value_at (g\<lparr>all_values := all_values g @ [slot]\<rparr>) v =
     (if v = length (all_values g) then slot else value_at g v)"
  by (auto simp: value_at_def nth_append)

lemma value_at_values_append_other [simp]:
  "all_values g' = all_values g \<Longrightarrow>
   value_at (g'\<lparr>all_values := all_values g @ [slot]\<rparr>) v =
     (if v = length (all_values g) then slot else value_at g v)"
  by (auto simp: value_at_def nth_append)

lemma fst_create [simp]: "fst (create k j g) = length (all_nodes g)"
  by (simp add: create_def Let_def)

lemma node_at_create [simp]:
  "node_at (snd (create k j g)) m =
     (if m = length (all_nodes g)
      then Some \<lparr>kind = k, inputs = [],
                 outputs = [length (all_values g)..<length (all_values g) + j], attrs = []\<rparr>
      else node_at g m)"
  by (simp add: node_at_def create_def Let_def nth_append)

lemma value_at_create [simp]:
  "value_at (snd (create k j g)) v =
     (if length (all_values g) \<le> v \<and> v < length (all_values g) + j
      then Some \<lparr>type = TensorType None None, node = length (all_nodes g)\<rparr>
      else value_at g v)"
  by (auto simp: value_at_def create_def Let_def nth_append)

lemma block_create [simp]: "block (snd (create k j g)) = block g"
  by (simp add: create_def Let_def)

lemma length_nodes_create [simp]:
  "length (all_nodes (snd (create k j g))) = Suc (length (all_nodes g))"
  by (simp add: create_def Let_def)

lemma length_values_create [simp]:
  "length (all_values (snd (create k j g))) = length (all_values g) + j"
  by (simp add: create_def Let_def)

lemma case_create:
  "(case create k j g of (n, g1) \<Rightarrow> f n g1) = f (length (all_nodes g)) (snd (create k j g))"
  by (simp add: create_def Let_def)

lemma node_at_Value_replaceAllUsesWith [simp]:
  "node_at (Value_replaceAllUsesWith v w g) m = map_option (replace_input v w) (node_at g m)"
  by (simp add: node_at_def Value_replaceAllUsesWith_def)

lemma value_at_Value_replaceAllUsesWith [simp]:
  "value_at (Value_replaceAllUsesWith v w g) x = value_at g x"
  by (simp add: value_at_def Value_replaceAllUsesWith_def)

lemma block_Value_replaceAllUsesWith [simp]:
  "block (Value_replaceAllUsesWith v w g) = block g"
  by (simp add: Value_replaceAllUsesWith_def)

lemma length_nodes_Value_replaceAllUsesWith [simp]:
  "length (all_nodes (Value_replaceAllUsesWith v w g)) = length (all_nodes g)"
  by (simp add: Value_replaceAllUsesWith_def)

lemma all_values_Value_replaceAllUsesWith [simp]:
  "all_values (Value_replaceAllUsesWith v w g) = all_values g"
  by (simp add: Value_replaceAllUsesWith_def)

subsection \<open>Blocks\<close>

lemma ids_insert:
  "set (ids_Block (insert_Block new it b)) =
     (if it \<in> set (ids_Block b) then insert new (set (ids_Block b)) else set (ids_Block b))"
  "set (ids_nodes (insert_nodes new it ns)) =
     (if it \<in> set (ids_nodes ns) then insert new (set (ids_nodes ns)) else set (ids_nodes ns))"
  "set (ids_blocks (insert_blocks new it bs)) =
     (if it \<in> set (ids_blocks bs) then insert new (set (ids_blocks bs)) else set (ids_blocks bs))"
  by (induction new it b and new it ns and new it bs
      rule: insert_Block_insert_nodes_insert_blocks.induct) auto

lemma blocks_insert:
  "new \<noteq> it \<Longrightarrow> blocks_Block it (insert_Block new it b) = blocks_Block it b"
  "new \<noteq> it \<Longrightarrow> blocks_nodes it (insert_nodes new it ns) = blocks_nodes it ns"
  "new \<noteq> it \<Longrightarrow> blocks_blocks it (insert_blocks new it bs) = blocks_blocks it bs"
  by (induction new it b and new it ns and new it bs
      rule: insert_Block_insert_nodes_insert_blocks.induct) (auto split: option.splits)

lemma inBlockList_insert [simp]:
  "inBlockList g it \<Longrightarrow> inBlockList (g\<lparr>block := insert_Block new it (block g)\<rparr>) it"
  by (simp add: inBlockList_def ids_insert)

lemma inBlockList_fold_insert:
  "it \<in> set (ids_Block b) \<Longrightarrow> it \<in> set (ids_Block (fold (\<lambda>m. insert_Block m it) ms b))"
  by (induction ms arbitrary: b) (simp_all add: ids_insert)

subsection \<open>Sequences of replacements\<close>

lemma node_at_fold_replace:
  "node_at (fold (\<lambda>(v, w). Value_replaceAllUsesWith v w) ps g) m =
     map_option (\<lambda>M. M\<lparr>inputs := map (fold (\<lambda>(v, w) y. if y = v then w else y) ps) (inputs M)\<rparr>)
       (node_at g m)"
proof (induction ps arbitrary: g)
  case Nil
  show ?case by (cases "node_at g m") simp_all
next
  case (Cons p ps)
  obtain v w where p: "p = (v, w)" by (cases p)
  show ?case
    by (cases "node_at g m") (simp_all add: p Cons replace_input_def comp_def)
qed

lemma other_fold_replace [simp]:
  "value_at (fold (\<lambda>(v, w). Value_replaceAllUsesWith v w) ps g) x = value_at g x"
  "block (fold (\<lambda>(v, w). Value_replaceAllUsesWith v w) ps g) = block g"
  "length (all_nodes (fold (\<lambda>(v, w). Value_replaceAllUsesWith v w) ps g)) = length (all_nodes g)"
  "all_values (fold (\<lambda>(v, w). Value_replaceAllUsesWith v w) ps g) = all_values g"
  by (induction ps arbitrary: g) (auto simp: split_def)

lemma fold_replace_other:
  "x \<notin> fst ` set ps \<Longrightarrow> fold (\<lambda>(v, w) y. if y = v then w else y) ps x = x"
  by (induction ps) (auto simp: split_def)

lemma fold_replace_hit:
  assumes "distinct (map fst ps)" and "(v, w) \<in> set ps" and "snd ` set ps \<inter> fst ` set ps = {}"
  shows "fold (\<lambda>(v, w) y. if y = v then w else y) ps v = w"
  using assms
proof (induction ps)
  case Nil
  then show ?case by simp
next
  case (Cons p ps)
  obtain a b where p: "p = (a, b)" by (cases p)
  show ?case
  proof (cases "v = a")
    case True
    with Cons.prems p have "w = b"
      by (auto simp: image_iff) 
    moreover have "b \<notin> fst ` set ps"
      using Cons.prems(3) p by auto
    ultimately show ?thesis
      using True p by (simp add: fold_replace_other)
  next
    case False
    with Cons.prems p have m: "(v, w) \<in> set ps" by auto
    have d: "distinct (map fst ps)" using Cons.prems(1) by simp
    have e: "snd ` set ps \<inter> fst ` set ps = {}" using Cons.prems(3) by auto
    have "fold (\<lambda>(v, w) y. if y = v then w else y) ps v = w"
      by (rule Cons.IH [OF d m e])
    with False p show ?thesis by simp
  qed
qed

lemma fold_replace_zip:
  assumes "distinct vs" and "length vs = length ws" and "set ws \<inter> set vs = {}"
  shows "i < length vs \<Longrightarrow> fold (\<lambda>(v, w) y. if y = v then w else y) (zip vs ws) (vs ! i) = ws ! i"
    and "x \<notin> set vs \<Longrightarrow> fold (\<lambda>(v, w) y. if y = v then w else y) (zip vs ws) x = x"
proof -
  have f: "map fst (zip vs ws) = vs" and s: "map snd (zip vs ws) = ws"
    using assms(2) by simp_all
  have fs: "fst ` set (zip vs ws) = set vs" "snd ` set (zip vs ws) = set ws"
    using f s by (metis set_map)+
  show "fold (\<lambda>(v, w) y. if y = v then w else y) (zip vs ws) (vs ! i) = ws ! i" if "i < length vs"
  proof (rule fold_replace_hit)
    show "distinct (map fst (zip vs ws))" using f assms(1) by simp
    show "(vs ! i, ws ! i) \<in> set (zip vs ws)"
      using that assms(2) by (auto simp: set_zip)
    show "snd ` set (zip vs ws) \<inter> fst ` set (zip vs ws) = {}"
      using fs assms(3) by simp
  qed
  show "fold (\<lambda>(v, w) y. if y = v then w else y) (zip vs ws) x = x" if "x \<notin> set vs"
    using that fs by (simp add: fold_replace_other)
qed

lemma fold_replace_is_replaced_by:
  assumes "distinct vs" and "length vs = length ws" and "set ws \<inter> set vs = {}"
  shows "fold (\<lambda>(v, w) y. if y = v then w else y) (zip vs ws) = replaced_by vs ws"
proof
  fix x
  show "fold (\<lambda>(v, w) y. if y = v then w else y) (zip vs ws) x = replaced_by vs ws x"
  proof (cases "x \<in> set vs")
    case True
    then obtain i where i: "i < length vs" "vs ! i = x" by (auto simp: in_set_conv_nth)
    then have "map_of (zip vs ws) x = Some (ws ! i)"
      using map_of_zip_nth [OF assms(2,1), of i] assms(2) by simp
    with fold_replace_zip(1) [OF assms, of i] i show ?thesis
      by (simp add: replaced_by_def)
  next
    case False
    then have "map_of (zip vs ws) x = None"
      using map_of_zip_is_None [of vs ws x] assms(2) by blast
    with fold_replace_zip(2) [OF assms, of x] False show ?thesis
      by (simp add: replaced_by_def)
  qed
qed

lemma replaced_by_nth:
  "distinct vs \<Longrightarrow> length vs = length ws \<Longrightarrow> i < length vs \<Longrightarrow> replaced_by vs ws (vs ! i) = ws ! i"
  using map_of_zip_nth [of vs ws i] by (simp add: replaced_by_def)

lemma replaced_by_other:
  "length vs = length ws \<Longrightarrow> x \<notin> set vs \<Longrightarrow> replaced_by vs ws x = x"
proof -
  assume "length vs = length ws" and "x \<notin> set vs"
  then have "map_of (zip vs ws) x = None"
    using map_of_zip_is_None [of vs ws x] by blast
  then show ?thesis by (simp add: replaced_by_def)
qed

lemma zip_map_upt:
  "zip xs (map f [0..<length xs]) = map (\<lambda>i. (xs ! i, f i)) [0..<length xs]"
  by (rule nth_equalityI) simp_all

subsection \<open>The casts\<close>

lemma to_int64_small: "k < 2 ^ 63 \<Longrightarrow> to_int64 k = int k"
proof -
  assume "k < 2 ^ 63"
  then have "int k < 2 ^ 63" by (metis of_nat_less_iff of_nat_numeral of_nat_power)
  then show ?thesis by (simp add: to_int64_def)
qed

lemma to_int_small: "i < 2 ^ 31 \<Longrightarrow> to_int i = int i"
proof -
  assume "i < 2 ^ 31"
  then have "int i < 2 ^ 31" by (metis of_nat_less_iff of_nat_numeral of_nat_power)
  then show ?thesis by (simp add: to_int_def)
qed

section \<open>The rewrites, step by step\<close>

subsection \<open>Pass 1\<close>

lemma FindFusibleListUnpack_Some_iff:
  assumes "node_at g n = Some N"
  shows "FindFusibleListUnpack n g = Inr (Some u) \<longleftrightarrow>
     (\<exists>out off U. outputs N = [out] \<and> uses g out = [(u, off)] \<and>
        node_at g u = Some U \<and> kind U = prim_ListUnpack)"
proof
  assume l: "FindFusibleListUnpack n g = Inr (Some u)"
  from l assms have len: "length (outputs N) = 1"
    by (auto simp: FindFusibleListUnpack_def split: if_splits)
  then obtain out where out: "outputs N = [out]"
    by (cases "outputs N") auto
  from l assms out have one: "length (uses g out) = 1"
    by (auto simp: FindFusibleListUnpack_def sole_output_def split: if_splits)
  then obtain m off where us: "uses g out = [(m, off)]"
    by (cases "uses g out") auto
  then have "(m, off) \<in> set (uses g out)" by simp
  then obtain U where U: "node_at g m = Some U"
    by (auto simp: uses_iff)
  from l assms out us U have "m = u" "kind U = prim_ListUnpack"
    by (auto simp: FindFusibleListUnpack_def sole_output_def split: if_splits)
  with out us U show "\<exists>out off U. outputs N = [out] \<and> uses g out = [(u, off)] \<and>
        node_at g u = Some U \<and> kind U = prim_ListUnpack"
    by auto
next
  assume "\<exists>out off U. outputs N = [out] \<and> uses g out = [(u, off)] \<and>
        node_at g u = Some U \<and> kind U = prim_ListUnpack"
  with assms show "FindFusibleListUnpack n g = Inr (Some u)"
    by (auto simp: FindFusibleListUnpack_def sole_output_def)
qed

lemma FindFusibleListUnpack_total:
  assumes "node_at g n = Some N"
  shows "\<exists>r. FindFusibleListUnpack n g = Inr r"
proof (cases "length (outputs N) = 1 \<and> length (uses g (outputs N ! 0)) = 1")
  case True
  then obtain m off where us: "uses g (outputs N ! 0) = [(m, off)]"
    by (cases "uses g (outputs N ! 0)") auto
  then have "(m, off) \<in> set (uses g (outputs N ! 0))" by simp
  then obtain U where U: "node_at g m = Some U"
    by (auto simp: uses_iff)
  with True us assms show ?thesis
    by (auto simp: FindFusibleListUnpack_def sole_output_def)
next
  case False
  with assms show ?thesis
    by (auto simp: FindFusibleListUnpack_def sole_output_def)
qed

lemma add_output_step:
  assumes n: "node_at g n = Some N" and u: "node_at g u = Some U" and nu: "n \<noteq> u"
    and i: "i < length (outputs U)" and V: "value_at g (outputs U ! i) = Some V"
  shows "\<exists>g'. and_then (addOutput n g) (\<lambda>(new_output, gj).
                and_then (output_at gj u i) (\<lambda>from. copyMetadata new_output from gj)) = Inr g'
      \<and> (\<forall>m. node_at g' m =
            (if m = n then Some (N\<lparr>outputs := outputs N @ [length (all_values g)]\<rparr>)
             else node_at g m))
      \<and> (\<forall>v. value_at g' v =
            (if v = length (all_values g) then Some \<lparr>type = type V, node = n\<rparr>
             else value_at g v))
      \<and> block g' = block g
      \<and> length (all_values g') = Suc (length (all_values g))
      \<and> length (all_nodes g') = length (all_nodes g)"
proof -
  let ?v = "length (all_values g)"
  let ?g1 = "(set_node n (Some (N\<lparr>outputs := outputs N @ [?v]\<rparr>)) g)
               \<lparr>all_values := all_values g @ [Some \<lparr>type = TensorType None None, node = n\<rparr>]\<rparr>"
  let ?g' = "set_value ?v (Some \<lparr>type = type V, node = n\<rparr>) ?g1"
  have nlt: "n < length (all_nodes g)" using n by (rule node_at_less)
  have vlt: "outputs U ! i < ?v" using V by (rule value_at_less)
  have a: "addOutput n g = Inr (?v, ?g1)"
    using n by (simp add: addOutput_def Let_def)
  have b: "output_at ?g1 u i = Inr (outputs U ! i)"
    using u nu i nlt by (simp add: output_at_def the_node_def)
  have c: "copyMetadata ?v (outputs U ! i) ?g1 = Inr ?g'"
    using V vlt by (simp add: copyMetadata_def type_of_def setType_def the_value_def)
  have "and_then (addOutput n g) (\<lambda>(new_output, gj).
          and_then (output_at gj u i) (\<lambda>from. copyMetadata new_output from gj)) = Inr ?g'"
    using a b c by simp
  moreover have "\<forall>m. node_at ?g' m =
            (if m = n then Some (N\<lparr>outputs := outputs N @ [?v]\<rparr>) else node_at g m)"
    using nlt by simp
  moreover have "\<forall>v. value_at ?g' v =
            (if v = ?v then Some \<lparr>type = type V, node = n\<rparr> else value_at g v)"
    by simp
  moreover have "block ?g' = block g" by (simp add: set_node_def)
  moreover have "length (all_values ?g') = Suc ?v" by simp
  moreover have "length (all_nodes ?g') = length (all_nodes g)" by (simp add: set_node_def)
  ultimately show ?thesis by blast
qed

lemma add_outputs_loop:
  assumes n: "node_at g n = Some N" and u: "node_at g u = Some U" and nu: "n \<noteq> u"
    and live: "\<forall>v \<in> set (outputs U). value_at g v \<noteq> None"
  shows "j \<le> length (outputs U) \<Longrightarrow>
    \<exists>gj. for_each [0..<j] (\<lambda>i gi. and_then (addOutput n gi) (\<lambda>(new_output, gj).
                and_then (output_at gj u i) (\<lambda>from. copyMetadata new_output from gj))) g = Inr gj
      \<and> (\<forall>m. node_at gj m =
            (if m = n
             then Some (N\<lparr>outputs := outputs N @ [length (all_values g)..<length (all_values g) + j]\<rparr>)
             else node_at g m))
      \<and> (\<forall>v. value_at gj v =
            (if length (all_values g) \<le> v \<and> v < length (all_values g) + j
             then map_option (\<lambda>V. \<lparr>type = type V, node = n\<rparr>)
                    (value_at g (outputs U ! (v - length (all_values g))))
             else value_at g v))
      \<and> block gj = block g
      \<and> length (all_values gj) = length (all_values g) + j
      \<and> length (all_nodes gj) = length (all_nodes g)"
proof (induction j)
  case 0
  show ?case using n by (intro exI [of _ g]) auto
next
  case (Suc j)
  let ?body = "\<lambda>i gi. and_then (addOutput n gi) (\<lambda>(new_output, gj).
                and_then (output_at gj u i) (\<lambda>from. copyMetadata new_output from gj))"
  let ?v = "length (all_values g)"
  from Suc obtain gj where run: "for_each [0..<j] ?body g = Inr gj"
    and nodes: "\<forall>m. node_at gj m =
            (if m = n then Some (N\<lparr>outputs := outputs N @ [?v..<?v + j]\<rparr>) else node_at g m)"
    and vals: "\<forall>v. value_at gj v =
            (if ?v \<le> v \<and> v < ?v + j
             then map_option (\<lambda>V. \<lparr>type = type V, node = n\<rparr>) (value_at g (outputs U ! (v - ?v)))
             else value_at g v)"
    and blk: "block gj = block g"
    and lv: "length (all_values gj) = ?v + j"
    and ln: "length (all_nodes gj) = length (all_nodes g)"
    by auto
  have j: "j < length (outputs U)" using Suc.prems by simp
  then have "outputs U ! j \<in> set (outputs U)" by simp
  with live obtain V where V: "value_at g (outputs U ! j) = Some V" by auto
  then have vlt: "outputs U ! j < ?v" by (rule value_at_less)
  have nj: "node_at gj n = Some (N\<lparr>outputs := outputs N @ [?v..<?v + j]\<rparr>)"
    using nodes by simp
  have uj: "node_at gj u = Some U"
    using nodes u nu by simp
  have Vj: "value_at gj (outputs U ! j) = Some V"
    using vals V vlt by simp
  obtain g' where step: "?body j gj = Inr g'"
    and nodes': "\<forall>m. node_at g' m =
            (if m = n
             then Some (N\<lparr>outputs := outputs N @ [?v..<?v + j]\<rparr>
                         \<lparr>outputs := outputs (N\<lparr>outputs := outputs N @ [?v..<?v + j]\<rparr>) @
                              [length (all_values gj)]\<rparr>)
             else node_at gj m)"
    and vals': "\<forall>v. value_at g' v =
            (if v = length (all_values gj) then Some \<lparr>type = type V, node = n\<rparr>
             else value_at gj v)"
    and blk': "block g' = block gj"
    and lv': "length (all_values g') = Suc (length (all_values gj))"
    and ln': "length (all_nodes g') = length (all_nodes gj)"
    using add_output_step [OF nj uj nu j Vj] by blast
  have "for_each [0..<Suc j] ?body g = Inr g'"
    using run step by (simp add: for_each_append)
  moreover have "\<forall>m. node_at g' m =
            (if m = n then Some (N\<lparr>outputs := outputs N @ [?v..<?v + Suc j]\<rparr>)
             else node_at g m)"
    using nodes' nodes lv by simp
  moreover have "\<forall>v. value_at g' v =
            (if ?v \<le> v \<and> v < ?v + Suc j
             then map_option (\<lambda>V. \<lparr>type = type V, node = n\<rparr>) (value_at g (outputs U ! (v - ?v)))
             else value_at g v)"
    using vals' vals lv V by (auto simp: less_Suc_eq)
  moreover have "block g' = block g" using blk' blk by simp
  moreover have "length (all_values g') = ?v + Suc j" using lv' lv by simp
  moreover have "length (all_nodes g') = length (all_nodes g)" using ln' ln by simp
  ultimately show ?case by blast
qed

text \<open>The graph after the rewrite of lines 63 to 82.\<close>

lemma fuse_with_list_unpack:
  assumes n: "node_at g n = Some N" and fus: "FindFusibleListUnpack n g = Inr (Some u)"
    and u: "node_at g u = Some U" and nu: "n \<noteq> u"
    and live: "\<forall>v \<in> set (outputs U). value_at g v \<noteq> None"
    and outlive: "\<forall>v \<in> set (outputs N). value_at g v \<noteq> None"
    and small: "length (outputs U) < 2 ^ 31"
  shows "\<exists>g' out off. FuseWithListUnpack n g = Inr g'
      \<and> outputs N = [out] \<and> uses g out = [(u, off)] \<and> kind U = prim_ListUnpack
      \<and> (\<forall>m. node_at g' m =
            map_option (\<lambda>M. M\<lparr>inputs := map (fold (\<lambda>(v, w) y. if y = v then w else y)
                (zip (outputs U) [length (all_values g)..<length (all_values g) + length (outputs U)]))
                (inputs M)\<rparr>)
            (if m = n
             then Some (N\<lparr>attrs := set_attr attr_outputs (IntAttr (to_int64 (length (outputs U)))) (attrs N),
                         outputs := [length (all_values g)..<length (all_values g) + length (outputs U)]\<rparr>)
             else if m = u then Some (U\<lparr>inputs := []\<rparr>)
             else node_at g m))
      \<and> (\<forall>v. value_at g' v =
            (if v = out then None
             else if length (all_values g) \<le> v \<and> v < length (all_values g) + length (outputs U)
             then map_option (\<lambda>V. \<lparr>type = type V, node = n\<rparr>)
                    (value_at g (outputs U ! (v - length (all_values g))))
             else value_at g v))
      \<and> block g' = block g
      \<and> length (all_values g') = length (all_values g) + length (outputs U)
      \<and> length (all_nodes g') = length (all_nodes g)"
proof -
  let ?k = "length (outputs U)" and ?nv = "length (all_values g)"
  let ?ps = "zip (outputs U) [?nv..<?nv + ?k]"
  from fus obtain out off where out: "outputs N = [out]" and us: "uses g out = [(u, off)]"
      and kU: "kind U = prim_ListUnpack"
    using FindFusibleListUnpack_Some_iff [OF n, of u] u by auto
  have nlt: "n < length (all_nodes g)" using n by (rule node_at_less)
  have ult: "u < length (all_nodes g)" using u by (rule node_at_less)
  have nouse: "out \<notin> set (inputs M)" if "node_at g m = Some M" and "m \<noteq> u" for m M
  proof
    assume "out \<in> set (inputs M)"
    then obtain j where "j < length (inputs M)" "inputs M ! j = out"
      by (auto simp: in_set_conv_nth)
    with that(1) have "(m, j) \<in> set (uses g out)" by (auto simp: uses_iff)
    with us that(2) show False by simp
  qed
  let ?N1 = "N\<lparr>attrs := set_attr attr_outputs (IntAttr (to_int64 ?k)) (attrs N)\<rparr>"
  let ?g1 = "set_node n (Some ?N1) g"
  have r1: "set_int n attr_outputs (to_int64 ?k) g = Inr ?g1"
    using n by (simp add: set_int_def)
  have n1: "node_at ?g1 n = Some ?N1" and u1: "node_at ?g1 u = Some U"
    using n u nu nlt by simp_all
  have live1: "\<forall>v \<in> set (outputs U). value_at ?g1 v \<noteq> None"
    using live by simp
  let ?body = "\<lambda>i gi. and_then (addOutput n gi) (\<lambda>(new_output, gj).
                and_then (output_at gj u i) (\<lambda>from. copyMetadata new_output from gj))"
  obtain g2 where r2: "for_each [0..<?k] ?body ?g1 = Inr g2"
    and nodes2: "\<forall>m. node_at g2 m =
            (if m = n then Some (?N1\<lparr>outputs := outputs ?N1 @ [?nv..<?nv + ?k]\<rparr>)
             else node_at ?g1 m)"
    and vals2: "\<forall>v. value_at g2 v =
            (if ?nv \<le> v \<and> v < ?nv + ?k
             then map_option (\<lambda>V. \<lparr>type = type V, node = n\<rparr>) (value_at ?g1 (outputs U ! (v - ?nv)))
             else value_at ?g1 v)"
    and blk2: "block g2 = block ?g1"
    and lv2: "length (all_values g2) = ?nv + ?k"
    and ln2: "length (all_nodes g2) = length (all_nodes ?g1)"
    using add_outputs_loop [OF n1 u1 nu live1, of ?k] by auto
  let ?N2 = "?N1\<lparr>outputs := out # [?nv..<?nv + ?k]\<rparr>"
  have n2: "node_at g2 n = Some ?N2" and u2: "node_at g2 u = Some U"
    using nodes2 u nu nlt out by simp_all
  let ?g3 = "set_node u (Some (U\<lparr>inputs := []\<rparr>)) g2"
  have r3: "removeAllInputs u g2 = Inr ?g3"
    using u2 by (simp add: removeAllInputs_def)
  have ult2: "u < length (all_nodes g2)" using ln2 ult by simp
  have nlt2: "n < length (all_nodes g2)" using ln2 nlt by simp
  have n3: "node_at ?g3 n = Some ?N2"
    using n2 nu by simp
  have u3: "uses ?g3 out = []"
    unfolding uses_empty_iff
  proof (intro allI impI)
    fix m M
    assume M: "node_at ?g3 m = Some M"
    show "out \<notin> set (inputs M)"
    proof (cases "m = u")
      case True
      with M ult2 show ?thesis by auto
    next
      case False
      note mu = this
      show ?thesis
      proof (cases "m = n")
        case True
        with M n3 have "inputs M = inputs N" by simp
        with nouse [OF n] nu show ?thesis by simp
      next
        case False
        with M mu nodes2 nlt have "node_at g m = Some M" by simp
        with nouse mu show ?thesis by blast
      qed
    qed
  qed
  let ?N4 = "?N1\<lparr>outputs := [?nv..<?nv + ?k]\<rparr>"
  let ?g4 = "set_value out None (set_node n (Some ?N4) ?g3)"
  have r4: "eraseOutput n 0 ?g3 = Inr ?g4"
    using n3 u3 by (simp add: eraseOutput_def)
  have n4: "node_at ?g4 n = Some ?N4" and u4: "node_at ?g4 u = Some (U\<lparr>inputs := []\<rparr>)"
    using nlt2 ult2 nu by simp_all
  let ?g5 = "fold (\<lambda>(v, w). Value_replaceAllUsesWith v w) ?ps ?g4"
  have r5: "Node_replaceAllUsesWith u n ?g4 = Inr ?g5"
    using n4 u4 by (simp add: Node_replaceAllUsesWith_def)
  have run: "FuseWithListUnpack n g = Inr ?g5"
    using fus n u out small r1 r2 r3 r4 r5
    by (simp add: FuseWithListUnpack_def)
  have nodes: "\<forall>m. node_at ?g5 m =
            map_option (\<lambda>M. M\<lparr>inputs := map (fold (\<lambda>(v, w) y. if y = v then w else y) ?ps) (inputs M)\<rparr>)
            (if m = n then Some ?N4
             else if m = u then Some (U\<lparr>inputs := []\<rparr>)
             else node_at g m)"
    using nodes2 nlt2 ult2 nlt by (simp add: node_at_fold_replace)
  have vals: "\<forall>v. value_at ?g5 v =
            (if v = out then None
             else if ?nv \<le> v \<and> v < ?nv + ?k
             then map_option (\<lambda>V. \<lparr>type = type V, node = n\<rparr>)
                    (value_at g (outputs U ! (v - ?nv)))
             else value_at g v)"
  proof
    fix v
    from outlive out obtain V where "value_at g out = Some V" by auto
    then have "out < ?nv" by (rule value_at_less)
    then show "value_at ?g5 v =
            (if v = out then None
             else if ?nv \<le> v \<and> v < ?nv + ?k
             then map_option (\<lambda>V. \<lparr>type = type V, node = n\<rparr>)
                    (value_at g (outputs U ! (v - ?nv)))
             else value_at g v)"
      using vals2 lv2 by simp
  qed
  have blk: "block ?g5 = block g" using blk2 by simp
  have lv: "length (all_values ?g5) = ?nv + ?k" using lv2 by simp
  have ln: "length (all_nodes ?g5) = length (all_nodes g)" using ln2 by simp
  from run out us kU nodes vals blk lv ln show ?thesis by blast
qed

subsection \<open>Passes 2 and 3\<close>

text \<open>
  Both passes end in the same three calls (lines 154 to 156 and 232 to 234): the uses
  of the node go to the new node, the inputs of the node are cleared, the node is
  destroyed.
\<close>

lemma replace_and_destroy:
  assumes it: "node_at g it = Some N" and out: "outputs N = [out]"
    and new: "node_at g new = Some M" and w: "outputs M = [w]"
    and ne: "w \<noteq> out" "new \<noteq> it"
    and bl: "blocks g it = []"
  shows "\<exists>g'. and_then (Node_replaceAllUsesWith it new g) (\<lambda>g6.
                 and_then (removeAllInputs it g6) (destroy it)) = Inr g'
      \<and> (\<forall>m. node_at g' m =
                (if m = it then None else map_option (replace_input out w) (node_at g m)))
      \<and> (\<forall>v. value_at g' v = (if v = out then None else value_at g v))
      \<and> block g' = remove_Block it (block g)
      \<and> length (all_nodes g') = length (all_nodes g)
      \<and> length (all_values g') = length (all_values g)"
proof -
  have lt: "it < length (all_nodes g)"
    using it by (rule node_at_less)
  let ?g6 = "Value_replaceAllUsesWith out w g"
  have r6: "Node_replaceAllUsesWith it new g = Inr ?g6"
    using it out new w by (simp add: Node_replaceAllUsesWith_def)
  let ?N7 = "(replace_input out w N)\<lparr>inputs := []\<rparr>"
  let ?g7 = "set_node it (Some ?N7) ?g6"
  have r7: "removeAllInputs it ?g6 = Inr ?g7"
    using it by (simp add: removeAllInputs_def)
  have u7: "uses ?g7 out = []"
    unfolding uses_empty_iff using ne
    by (auto simp: replace_input_def split: if_splits)
  let ?g8 = "set_value out None (set_node it (Some (?N7\<lparr>outputs := []\<rparr>)) ?g7)"
  have r8: "erase_outputs it ?g7 = Inr ?g8"
    using it lt out u7 by (simp add: erase_outputs_def eraseOutput_def replace_input_def)
  have b8: "blocks ?g8 it = []"
    using bl by (simp add: blocks_def)
  let ?g9 = "set_node it (Some (?N7\<lparr>outputs := [], inputs := []\<rparr>)) ?g8"
  have r9: "removeAllInputs it ?g8 = Inr ?g9"
    using it lt by (simp add: removeAllInputs_def)
  let ?g' = "set_node it None (?g9\<lparr>block := remove_Block it (block ?g9)\<rparr>)"
  have r: "destroy it ?g7 = Inr ?g'"
    using r8 b8 r9 by (simp add: destroy_def)
  have "and_then (Node_replaceAllUsesWith it new g) (\<lambda>g6.
                 and_then (removeAllInputs it g6) (destroy it)) = Inr ?g'"
    using r6 r7 r by simp
  moreover have "\<forall>m. node_at ?g' m =
                (if m = it then None else map_option (replace_input out w) (node_at g m))"
    using lt by simp
  moreover have "\<forall>v. value_at ?g' v = (if v = out then None else value_at g v)"
    by (auto simp: set_node_def value_at_def set_value_def)
  moreover have "block ?g' = remove_Block it (block g)"
    by (simp add: set_node_def)
  moreover have "length (all_nodes ?g') = length (all_nodes g)"
    by (simp add: set_node_def)
  moreover have "length (all_values ?g') = length (all_values g)"
    by (simp add: set_node_def)
  ultimately show ?thesis by blast
qed

text \<open>The graph after the rewrite of lines 147 to 156, for any element type of the second list.\<close>

lemma add_becomes_concat:
  assumes it: "node_at g it = Some N" and kind: "kind N = aten_add"
    and in0: "input_at g it 0 = Inr in0" and t0: "type_of g in0 = Inr (ListType IntType)"
    and in1: "input_at g it 1 = Inr in1" and t1: "type_of g in1 = Inr (ListType elem1)"
    and out: "outputs N = [out]" and lt: "out < length (all_values g)"
    and bl: "inBlockList g it" "blocks g it = []"
  shows "\<exists>g'. ReplaceAddWithConcat_at it g = Inr g'
      \<and> (\<forall>m. node_at g' m =
           (if m = it then None
            else if m = length (all_nodes g)
            then Some (replace_input out (length (all_values g))
                   \<lparr>kind = onnx_Concat, inputs = [in0, in1], outputs = [length (all_values g)],
                     attrs = [(attr_axis, IntAttr 0)]\<rparr>)
            else map_option (replace_input out (length (all_values g))) (node_at g m)))
      \<and> (\<forall>v. value_at g' v =
           (if v = out then None
            else if v = length (all_values g)
            then Some \<lparr>type = fromNumberType IntType, node = length (all_nodes g)\<rparr>
            else value_at g v))
      \<and> block g' = remove_Block it (insert_Block (length (all_nodes g)) it (block g))
      \<and> length (all_nodes g') = Suc (length (all_nodes g))
      \<and> length (all_values g') = Suc (length (all_values g))"
proof -
  let ?n = "length (all_nodes g)" and ?v = "length (all_values g)"
  have itlt: "it < ?n" using it by (rule node_at_less)
  from in0 in1 it have ins: "0 < length (inputs N)" "inputs N ! 0 = in0"
      "1 < length (inputs N)" "inputs N ! 1 = in1"
    by (auto simp: input_at_eq_Inr)
  let ?C = "\<lparr>kind = onnx_Concat, inputs = [in0, in1], outputs = [?v],
              attrs = [(attr_axis, IntAttr 0)]\<rparr>"
  let ?g1 = "snd (create onnx_Concat 1 g)"
  let ?g2 = "set_node ?n (Some \<lparr>kind = onnx_Concat, inputs = [], outputs = [?v],
              attrs = [(attr_axis, IntAttr 0)]\<rparr>) ?g1"
  let ?g3 = "?g2\<lparr>block := insert_Block ?n it (block g)\<rparr>"
  let ?g4 = "set_node ?n (Some \<lparr>kind = onnx_Concat, inputs = [in0], outputs = [?v],
              attrs = [(attr_axis, IntAttr 0)]\<rparr>) ?g3"
  let ?g5 = "set_node ?n (Some ?C) ?g4"
  let ?g6 = "set_value ?v (Some \<lparr>type = fromNumberType IntType, node = ?n\<rparr>) ?g5"
  have n6: "node_at ?g6 it = Some N" "node_at ?g6 ?n = Some ?C"
    using it itlt by simp_all
  have b6: "blocks ?g6 it = []"
    using bl itlt by (simp add: blocks_def blocks_insert)
  have ne: "?v \<noteq> out" "?n \<noteq> it"
    using lt itlt by simp_all
  obtain g' where g': "and_then (Node_replaceAllUsesWith it ?n ?g6) (\<lambda>g7.
                 and_then (removeAllInputs it g7) (destroy it)) = Inr g'"
      and nodes: "\<forall>m. node_at g' m =
                (if m = it then None else map_option (replace_input out ?v) (node_at ?g6 m))"
      and vals: "\<forall>v. value_at g' v = (if v = out then None else value_at ?g6 v)"
      and blk: "block g' = remove_Block it (block ?g6)"
      and lens: "length (all_nodes g') = length (all_nodes ?g6)"
        "length (all_values g') = length (all_values ?g6)"
    using replace_and_destroy [OF n6(1) out n6(2) _ ne b6] by auto
  have run: "ReplaceAddWithConcat_at it g = Inr g'"
    using it kind in0 t0 in1 t1 ins itlt bl(1) g'
    by (simp add: ReplaceAddWithConcat_at_def case_create set_int_def insertBefore_def
        inBlockList_def input_at_def addInput_def output_at_def setType_def the_value_def)
  show ?thesis
    using run nodes vals blk lens itlt by (intro exI [of _ g']) auto
qed

lemma IndexPut_at_check:
  assumes "\<And>sz. 0 < sz \<Longrightarrow> check sz = check' sz"
  shows "IndexPut_at check it g = IndexPut_at check' it g"
proof (cases "the_node g it")
  case (Inl e)
  then show ?thesis by (simp add: IndexPut_at_def)
next
  case (Inr N)
  note N = this
  show ?thesis
  proof (cases "input_at g it 1")
    case (Inl e)
    with N show ?thesis by (simp add: IndexPut_at_def)
  next
    case (Inr indices)
    note indices = this
    show ?thesis
    proof (cases "producer g indices")
      case (Inl e)
      with N indices show ?thesis by (simp add: IndexPut_at_def)
    next
      case (Inr lc_node)
      note lc = this
      show ?thesis
      proof (cases "input_at g lc_node 0")
        case (Inl e)
        with N indices lc show ?thesis by (simp add: IndexPut_at_def)
      next
        case (Inr mask)
        then obtain LC where LC: "node_at g lc_node = Some LC" "0 < length (inputs LC)"
          by (auto simp: input_at_eq_Inr)
        then have "check (length (inputs LC)) = check' (length (inputs LC))"
          using assms by simp
        with N indices lc Inr LC show ?thesis
          by (simp add: IndexPut_at_def cong: option.case_cong if_cong)
      qed
    qed
  qed
qed


subsection \<open>Pass 4\<close>

text \<open>One round of the inner loop (lines 279 to 287), where the pattern matches.\<close>

lemma expand_output_step:
  assumes it: "node_at g it = Some N" and ins: "inputs N = [V]" and i: "i < length (outputs N)"
    and p: "producer g V = Inr p" and P: "node_at g p = Some P"
    and kP: "kind P \<noteq> prim_ListConstruct"
    and t: "type_of g V = Inr (ListType IntType)"
    and bl: "inBlockList g it"
  shows "\<exists>g'. expand_output it i g = Inr g'
      \<and> (\<forall>m. node_at g' m =
            map_option (replace_input (outputs N ! i) (Suc (length (all_values g))))
              (if m = length (all_nodes g)
               then Some \<lparr>kind = onnx_Constant, inputs = [], outputs = [length (all_values g)],
                          attrs = [(attr_value, ScalarTensorAttr (to_int i))]\<rparr>
               else if m = Suc (length (all_nodes g))
               then Some \<lparr>kind = onnx_Gather, inputs = [V, length (all_values g)],
                          outputs = [Suc (length (all_values g))], attrs = []\<rparr>
               else node_at g m))
      \<and> (\<forall>v. value_at g' v =
            (if v = length (all_values g)
             then Some \<lparr>type = TensorType None None, node = length (all_nodes g)\<rparr>
             else if v = Suc (length (all_values g))
             then Some \<lparr>type = TensorType None None, node = Suc (length (all_nodes g))\<rparr>
             else value_at g v))
      \<and> block g' = insert_Block (Suc (length (all_nodes g))) it
                      (insert_Block (length (all_nodes g)) it (block g))
      \<and> length (all_nodes g') = length (all_nodes g) + 2
      \<and> length (all_values g') = length (all_values g) + 2"
proof -
  let ?nc = "length (all_nodes g)" and ?vc = "length (all_values g)"
  let ?C = "\<lparr>kind = onnx_Constant, inputs = [], outputs = [?vc],
              attrs = [(attr_value, ScalarTensorAttr (to_int i))]\<rparr>"
  let ?G = "\<lparr>kind = onnx_Gather, inputs = [V, ?vc], outputs = [Suc ?vc], attrs = []\<rparr>"
  have itlt: "it < ?nc" using it by (rule node_at_less)
  let ?g1 = "snd (create onnx_Constant 1 g)"
  let ?g2 = "?g1\<lparr>block := insert_Block ?nc it (block g)\<rparr>"
  let ?g3 = "set_node ?nc (Some ?C) ?g2"
  let ?g4 = "snd (create onnx_Gather 1 ?g3)"
  let ?g5 = "?g4\<lparr>block := insert_Block (Suc ?nc) it (insert_Block ?nc it (block g))\<rparr>"
  let ?g6 = "set_node (Suc ?nc) (Some \<lparr>kind = onnx_Gather, inputs = [V],
               outputs = [Suc ?vc], attrs = []\<rparr>) ?g5"
  let ?g7 = "set_node (Suc ?nc) (Some ?G) ?g6"
  let ?g' = "Value_replaceAllUsesWith (outputs N ! i) (Suc ?vc) ?g7"
  have b2: "inBlockList ?g2 it"
    using bl by (simp add: inBlockList_def ids_insert)
  have run: "expand_output it i g = Inr ?g'"
    using it ins i p P kP t bl b2 itlt
    by (simp add: expand_output_def output_at_def sole_input_def case_create insertBefore_def
        set_tensor_def sole_output_def addInput_def inBlockList_def)
  moreover have "\<forall>m. node_at ?g' m =
            map_option (replace_input (outputs N ! i) (Suc ?vc))
              (if m = ?nc then Some ?C else if m = Suc ?nc then Some ?G else node_at g m)"
    by simp
  moreover have "\<forall>v. value_at ?g' v =
            (if v = ?vc then Some \<lparr>type = TensorType None None, node = ?nc\<rparr>
             else if v = Suc ?vc then Some \<lparr>type = TensorType None None, node = Suc ?nc\<rparr>
             else value_at g v)"
    by simp
  moreover have "block ?g' = insert_Block (Suc ?nc) it (insert_Block ?nc it (block g))"
    by simp
  moreover have "length (all_nodes ?g') = ?nc + 2" "length (all_values ?g') = ?vc + 2"
    by simp_all
  ultimately show ?thesis by blast
qed

text \<open>The graph after \<open>j\<close> rounds of the inner loop.\<close>

lemma expand_loop:
  assumes it: "node_at g it = Some N" and ins: "inputs N = [V]"
    and p: "producer g V = Inr p" and P: "node_at g p = Some P"
    and kP: "kind P \<noteq> prim_ListConstruct"
    and t: "type_of g V = Inr (ListType IntType)"
    and bl: "inBlockList g it"
    and live: "\<forall>v \<in> set (outputs N). value_at g v \<noteq> None"
    and VN: "V \<notin> set (outputs N)"
  shows "j \<le> length (outputs N) \<Longrightarrow>
    \<exists>gj. for_each [0..<j] (expand_output it) g = Inr gj
      \<and> (\<forall>m. node_at gj m =
            (if m < length (all_nodes g)
             then map_option (\<lambda>M. M\<lparr>inputs := map (fold (\<lambda>(v, w) y. if y = v then w else y)
                      (map (\<lambda>i. (outputs N ! i, length (all_values g) + 2 * i + 1)) [0..<j]))
                      (inputs M)\<rparr>) (node_at g m)
             else if m < length (all_nodes g) + 2 * j
             then Some (if even (m - length (all_nodes g))
                  then \<lparr>kind = onnx_Constant, inputs = [],
                        outputs = [length (all_values g) + (m - length (all_nodes g))],
                        attrs = [(attr_value, ScalarTensorAttr (to_int ((m - length (all_nodes g)) div 2)))]\<rparr>
                  else \<lparr>kind = onnx_Gather,
                        inputs = [V, length (all_values g) + (m - length (all_nodes g)) - 1],
                        outputs = [length (all_values g) + (m - length (all_nodes g))], attrs = []\<rparr>)
             else None))
      \<and> (\<forall>v. value_at gj v =
            (if v < length (all_values g) then value_at g v
             else if v < length (all_values g) + 2 * j
             then Some \<lparr>type = TensorType None None,
                        node = length (all_nodes g) + (v - length (all_values g))\<rparr>
             else None))
      \<and> block gj = fold (\<lambda>m. insert_Block m it)
                       [length (all_nodes g)..<length (all_nodes g) + 2 * j] (block g)
      \<and> length (all_nodes gj) = length (all_nodes g) + 2 * j
      \<and> length (all_values gj) = length (all_values g) + 2 * j"
proof (induction j)
  case 0
  show ?case
    by (intro exI [of _ g]) (auto simp: node_at_def value_at_def option.map_ident)
next
  case (Suc j)
  let ?n0 = "length (all_nodes g)" and ?v0 = "length (all_values g)"
  let ?ps = "\<lambda>j. map (\<lambda>i. (outputs N ! i, ?v0 + 2 * i + 1)) [0..<j]"
  let ?s = "\<lambda>j. fold (\<lambda>(v, w) y. if y = v then w else y) (?ps j)"
  let ?new = "\<lambda>m. if even (m - ?n0)
                  then \<lparr>kind = onnx_Constant, inputs = [], outputs = [?v0 + (m - ?n0)],
                        attrs = [(attr_value, ScalarTensorAttr (to_int ((m - ?n0) div 2)))]\<rparr>
                  else \<lparr>kind = onnx_Gather, inputs = [V, ?v0 + (m - ?n0) - 1],
                        outputs = [?v0 + (m - ?n0)], attrs = []\<rparr>"
  from Suc obtain gj where run: "for_each [0..<j] (expand_output it) g = Inr gj"
    and nodes: "\<forall>m. node_at gj m =
            (if m < ?n0 then map_option (\<lambda>M. M\<lparr>inputs := map (?s j) (inputs M)\<rparr>) (node_at g m)
             else if m < ?n0 + 2 * j then Some (?new m) else None)"
    and vals: "\<forall>v. value_at gj v =
            (if v < ?v0 then value_at g v
             else if v < ?v0 + 2 * j
             then Some \<lparr>type = TensorType None None, node = ?n0 + (v - ?v0)\<rparr>
             else None)"
    and blk: "block gj = fold (\<lambda>m. insert_Block m it) [?n0..<?n0 + 2 * j] (block g)"
    and ln: "length (all_nodes gj) = ?n0 + 2 * j"
    and lv: "length (all_values gj) = ?v0 + 2 * j"
    by auto
  have j: "j < length (outputs N)" using Suc.prems by simp
  have itlt: "it < ?n0" using it by (rule node_at_less)
  have plt: "p < ?n0" using P by (rule node_at_less)
  from t obtain VV where VV: "value_at g V = Some VV" "type VV = ListType IntType"
    by (auto simp: type_of_eq_Inr)
  have Vlt: "V < ?v0" using VV(1) by (rule value_at_less)
  have old: "v < ?v0" if "v \<in> set (outputs N)" for v
    using that live by (auto simp: value_at_def split: if_splits)
  have fst_ps: "fst ` set (?ps j) \<subseteq> set (outputs N)"
    using j by auto
  have sV: "?s j V = V"
    using fst_ps VN by (intro fold_replace_other) auto
  have itj: "node_at gj it = Some N"
    using nodes itlt it ins sV by simp
  have pj: "producer gj V = Inr p"
    using p vals Vlt by (simp add: producer_def the_value_def)
  have Pj: "node_at gj p = Some (P\<lparr>inputs := map (?s j) (inputs P)\<rparr>)"
    using nodes plt P by simp
  have tj: "type_of gj V = Inr (ListType IntType)"
    using t vals Vlt by (simp add: type_of_def the_value_def)
  have blj: "inBlockList gj it"
    using bl blk by (simp add: inBlockList_def inBlockList_fold_insert)
  obtain g' where step: "expand_output it j gj = Inr g'"
    and nodes': "\<forall>m. node_at g' m =
            map_option (replace_input (outputs N ! j) (Suc (length (all_values gj))))
              (if m = length (all_nodes gj)
               then Some \<lparr>kind = onnx_Constant, inputs = [], outputs = [length (all_values gj)],
                          attrs = [(attr_value, ScalarTensorAttr (to_int j))]\<rparr>
               else if m = Suc (length (all_nodes gj))
               then Some \<lparr>kind = onnx_Gather, inputs = [V, length (all_values gj)],
                          outputs = [Suc (length (all_values gj))], attrs = []\<rparr>
               else node_at gj m)"
    and vals': "\<forall>v. value_at g' v =
            (if v = length (all_values gj)
             then Some \<lparr>type = TensorType None None, node = length (all_nodes gj)\<rparr>
             else if v = Suc (length (all_values gj))
             then Some \<lparr>type = TensorType None None, node = Suc (length (all_nodes gj))\<rparr>
             else value_at gj v)"
    and blk': "block g' = insert_Block (Suc (length (all_nodes gj))) it
                      (insert_Block (length (all_nodes gj)) it (block gj))"
    and ln': "length (all_nodes g') = length (all_nodes gj) + 2"
    and lv': "length (all_values g') = length (all_values gj) + 2"
    using expand_output_step [OF itj ins j pj Pj _ tj blj] kP by auto
  have r: "for_each [0..<Suc j] (expand_output it) g = Inr g'"
    using run step by (simp add: for_each_append)
  have outj: "outputs N ! j < ?v0" using old j by simp
  have VNj: "V \<noteq> outputs N ! j" using VN j by (metis nth_mem)
  have sSuc: "?s (Suc j) y = (if ?s j y = outputs N ! j then ?v0 + 2 * j + 1 else ?s j y)" for y
    by simp
  have a: "\<forall>m. node_at g' m =
            (if m < ?n0 then map_option (\<lambda>M. M\<lparr>inputs := map (?s (Suc j)) (inputs M)\<rparr>) (node_at g m)
             else if m < ?n0 + 2 * Suc j then Some (?new m) else None)"
  proof
    fix m
    consider "m < ?n0" | "?n0 \<le> m" "m < ?n0 + 2 * j" | "m = ?n0 + 2 * j" | "m = ?n0 + 2 * j + 1"
      | "?n0 + 2 * j + 1 < m" by linarith
    then show "node_at g' m =
            (if m < ?n0 then map_option (\<lambda>M. M\<lparr>inputs := map (?s (Suc j)) (inputs M)\<rparr>) (node_at g m)
             else if m < ?n0 + 2 * Suc j then Some (?new m) else None)"
    proof cases
      case 1
      then show ?thesis
        using nodes' nodes ln lv
        by (cases "node_at g m") (simp_all add: replace_input_def comp_def)
    next
      case 2
      then have "node_at g' m = Some (replace_input (outputs N ! j) (Suc (?v0 + 2 * j)) (?new m))"
        using nodes' nodes ln lv by simp
      moreover have "replace_input (outputs N ! j) (Suc (?v0 + 2 * j)) (?new m) = ?new m"
      proof (cases "even (m - ?n0)")
        case True
        then show ?thesis by (simp add: replace_input_def)
      next
        case False
        then have "?v0 \<le> ?v0 + (m - ?n0) - 1" by (cases "m - ?n0") auto
        with outj have "?v0 + (m - ?n0) - 1 \<noteq> outputs N ! j" by linarith
        with False VNj show ?thesis by (simp add: replace_input_def)
      qed
      ultimately show ?thesis using 2 by simp
    next
      case 3
      then show ?thesis
        using nodes' ln lv by (simp add: replace_input_def)
    next
      case 4
      then show ?thesis
        using nodes' ln lv outj VNj by (simp add: replace_input_def)
    next
      case 5
      then show ?thesis
        using nodes' nodes ln lv by simp
    qed
  qed
  have b: "\<forall>v. value_at g' v =
            (if v < ?v0 then value_at g v
             else if v < ?v0 + 2 * Suc j
             then Some \<lparr>type = TensorType None None, node = ?n0 + (v - ?v0)\<rparr>
             else None)"
    using vals' vals ln lv by auto
  have c: "block g' = fold (\<lambda>m. insert_Block m it) [?n0..<?n0 + 2 * Suc j] (block g)"
    using blk' blk ln by simp
  have d: "length (all_nodes g') = ?n0 + 2 * Suc j" "length (all_values g') = ?v0 + 2 * Suc j"
    using ln' lv' ln lv by simp_all
  from r a b c d show ?case by blast
qed



section \<open>The passes as a whole\<close>

subsection \<open>Well-formed graphs\<close>

lemma less_pow31_int: "(n::nat) < 2 ^ 31 \<longleftrightarrow> int n < 2 ^ 31"
proof -
  have "int ((2::nat) ^ 31) = 2 ^ 31" by simp
  then show ?thesis by (metis of_nat_less_iff)
qed

lemma owns_outputs_iff:
  "owns_outputs g n N \<longleftrightarrow> (\<forall>v \<in> set (outputs N). \<exists>V. value_at g v = Some V \<and> node V = n)"
  by (auto simp: owns_outputs_def split: option.splits)

lemma reads_owned_iff:
  "reads_owned g N \<longleftrightarrow>
     (\<forall>v \<in> set (inputs N). \<exists>V P. value_at g v = Some V \<and> node_at g (node V) = Some P
        \<and> v \<in> set (outputs P))"
  by (fastforce simp: reads_owned_def split: option.splits)

lemma well_formed_iff:
  "well_formed g \<longleftrightarrow>
     distinct (ids_Block (block g))
     \<and> (\<forall>n \<in> set (ids_Block (block g)). node_at g n \<noteq> None)
     \<and> (\<forall>n N. node_at g n = Some N \<longrightarrow> owns_outputs g n N \<and> reads_owned g N \<and> schema g n N)"
proof -
  have "(\<forall>n \<in> set [0..<length (all_nodes g)].
           case node_at g n of
             None \<Rightarrow> True
           | Some N \<Rightarrow> owns_outputs g n N \<and> reads_owned g N \<and> schema g n N)
     \<longleftrightarrow> (\<forall>n N. node_at g n = Some N \<longrightarrow> owns_outputs g n N \<and> reads_owned g N \<and> schema g n N)"
    (is "?l \<longleftrightarrow> ?r")
  proof
    assume l: ?l
    show ?r
    proof (intro allI impI)
      fix n N assume n: "node_at g n = Some N"
      then have "n < length (all_nodes g)" by (rule node_at_less)
      with l n show "owns_outputs g n N \<and> reads_owned g N \<and> schema g n N"
        by (auto dest!: bspec [where x = n])
    qed
  next
    assume ?r then show ?l by (auto split: option.splits)
  qed
  then show ?thesis by (simp add: well_formed_def)
qed

subsection \<open>The traversal as a loop over the nodes in their order\<close>

text \<open>The traversal visits the nodes in the order of \<^const>\<open>ids_Block\<close>.\<close>

lemma walk_for_each:
  "walk_Block f b g = for_each (ids_Block b) f g"
  "walk_nodes f ns g = for_each (ids_nodes ns) f g"
  "walk_blocks f bs g = for_each (ids_blocks bs) f g"
proof (induction f b g and f ns g and f bs g rule: walk_Block_walk_nodes_walk_blocks.induct)
  case (3 rewrite it child_blocks rest g)
  show ?case
  proof (cases "for_each (ids_blocks child_blocks) rewrite g")
    case (Inl e)
    then show ?thesis using 3(1) by (simp add: for_each_append)
  next
    case (Inr g1)
    then show ?thesis using 3 by (simp add: for_each_append and_then_def split: sum.splits)
  qed
next
  case (5 rewrite b bs g)
  show ?case
  proof (cases "for_each (ids_Block b) rewrite g")
    case (Inl e)
    then show ?thesis using 5(1) by (simp add: for_each_append)
  next
    case (Inr g1)
    then show ?thesis using 5 by (simp add: for_each_append and_then_def split: sum.splits)
  qed
qed simp_all

text \<open>
  An invariant of a loop may depend on the elements still to come; and a loop over
  distinct elements can be followed at one of them: a first invariant up to that
  element, a second one from there on.
\<close>

lemma for_each_invariant:
  assumes "I xs s"
    and "\<And>y ys s. I (y # ys) s \<Longrightarrow> \<exists>s'. f y s = Inr s' \<and> I ys s'"
  shows "\<exists>s'. for_each xs f s = Inr s' \<and> I [] s'"
  using assms(1)
proof (induction xs arbitrary: s)
  case Nil
  then show ?case by simp
next
  case (Cons y ys)
  from assms(2) [OF Cons.prems] obtain s1 where "f y s = Inr s1" "I ys s1" by blast
  with Cons.IH [of s1] show ?case by simp
qed

lemma for_each_focus:
  assumes J: "J (pre @ x # post) s"
    and before: "\<And>y ys s. J (y # ys) s \<Longrightarrow> y \<noteq> x \<Longrightarrow> \<exists>s'. f y s = Inr s' \<and> J ys s'"
    and at: "\<And>ys s. J (x # ys) s \<Longrightarrow> \<exists>s'. f x s = Inr s' \<and> K ys s'"
    and after: "\<And>y ys s. K (y # ys) s \<Longrightarrow> \<exists>s'. f y s = Inr s' \<and> K ys s'"
    and x: "x \<notin> set pre"
  shows "\<exists>s'. for_each (pre @ x # post) f s = Inr s' \<and> K [] s'"
  using J x
proof (induction pre arbitrary: s)
  case Nil
  from at [of post s] Nil obtain s1 where "f x s = Inr s1" "K post s1" by auto
  with for_each_invariant [of K post s1 f] after show ?case by auto
next
  case (Cons y pre)
  from Cons.prems have "y \<noteq> x" by auto
  with before [of y "pre @ x # post" s] Cons.prems
  obtain s1 where "f y s = Inr s1" "J (pre @ x # post) s1" by auto
  with Cons.IH [of s1] Cons.prems show ?case by auto
qed

subsection \<open>What a sequence of replacements does to the uses\<close>

lemma fold_replace_cases:
  "fold (\<lambda>(v, w) y. if y = v then w else y) ps x = x
   \<or> fold (\<lambda>(v, w) y. if y = v then w else y) ps x \<in> snd ` set ps"
proof (induction ps arbitrary: x)
  case Nil
  show ?case by simp
next
  case (Cons p ps)
  obtain v w where p: "p = (v, w)" by (cases p)
  show ?case
  proof (cases "x = v")
    case True
    with Cons.IH [of w] p show ?thesis by auto
  next
    case False
    with Cons.IH [of x] p show ?thesis by auto
  qed
qed

lemma fold_replace_in:
  assumes "snd ` set ps \<inter> fst ` set ps = {}"
  shows "x \<in> fst ` set ps \<Longrightarrow> fold (\<lambda>(v, w) y. if y = v then w else y) ps x \<in> snd ` set ps"
  using assms
proof (induction ps arbitrary: x)
  case Nil
  then show ?case by simp
next
  case (Cons p ps)
  obtain v w where p: "p = (v, w)" by (cases p)
  from Cons.prems(2) have d: "snd ` set ps \<inter> fst ` set ps = {}" by auto
  show ?case
  proof (cases "x = v")
    case True
    from Cons.prems(2) p have "w \<notin> fst ` set ps" by auto
    then have "fold (\<lambda>(v, w) y. if y = v then w else y) ps w = w" by (rule fold_replace_other)
    with True p show ?thesis by simp
  next
    case False
    with Cons.prems(1) p have "x \<in> fst ` set ps" by auto
    from Cons.IH [OF this d] False p show ?thesis by simp
  qed
qed

lemma uses_cong:
  assumes "length (all_nodes g') = length (all_nodes g)"
    and "\<And>x. x < length (all_nodes g) \<Longrightarrow> uses_in x (node_at g' x) v = uses_in x (node_at g x) v"
  shows "uses g' v = uses g v"
proof -
  have m: "map (\<lambda>x. uses_in x (node_at g' x) v) [0..<length (all_nodes g)] =
        map (\<lambda>x. uses_in x (node_at g x) v) [0..<length (all_nodes g)]"
    using assms(2) by (intro map_cong) auto
  show ?thesis unfolding uses_def assms(1) m ..
qed

lemma uses_in_same:
  assumes "\<And>X. slot = Some X \<Longrightarrow>
      \<exists>X'. slot' = Some X' \<and> length (inputs X') = length (inputs X)
        \<and> (\<forall>j<length (inputs X). inputs X' ! j = v \<longleftrightarrow> inputs X ! j = v)"
    and "slot = None \<Longrightarrow> slot' = None"
  shows "uses_in x slot' v = uses_in x slot v"
proof (cases slot)
  case None
  with assms(2) show ?thesis by simp
next
  case (Some X)
  from assms(1) [OF Some] obtain X' where X': "slot' = Some X'"
    and l: "length (inputs X') = length (inputs X)"
    and e: "\<forall>j<length (inputs X). inputs X' ! j = v \<longleftrightarrow> inputs X ! j = v"
    by blast
  have "filter (\<lambda>off. inputs X' ! off = v) [0..<length (inputs X)] =
        filter (\<lambda>off. inputs X ! off = v) [0..<length (inputs X)]"
    using e by (intro filter_cong) auto
  with Some X' l show ?thesis by (simp add: uses_in_def)
qed

subsection \<open>Pass 1, node by node\<close>

lemma FuseWithListUnpack_at_trigger:
  "node_at s m = Some M \<Longrightarrow>
   FuseWithListUnpack_at m s = (if kind M \<in> trigger_kinds then FuseWithListUnpack m s else Inr s)"
  by (simp add: FuseWithListUnpack_at_def trigger_kinds_def)

lemma well_formedD:
  assumes "well_formed g" and "node_at g n = Some N"
  shows "owns_outputs g n N" and "reads_owned g N" and "schema g n N"
  using assms by (auto simp: well_formed_iff)

lemma owned:
  assumes "well_formed g" and "node_at g n = Some N" and "v \<in> set (outputs N)"
  shows "\<exists>V. value_at g v = Some V \<and> node V = n"
  using well_formedD(1) [OF assms(1,2)] assms(3) by (auto simp: owns_outputs_iff)

lemma owner_unique:
  assumes "well_formed g" and "node_at g n = Some N" and "v \<in> set (outputs N)"
    and "node_at g m = Some M" and "v \<in> set (outputs M)"
  shows "m = n"
  using owned [OF assms(1,2,3)] owned [OF assms(1,4,5)] by auto

lemma read_owned:
  assumes "well_formed g" and "node_at g n = Some N" and "v \<in> set (inputs N)"
  shows "\<exists>V P. value_at g v = Some V \<and> node_at g (node V) = Some P \<and> v \<in> set (outputs P)"
  using well_formedD(2) [OF assms(1,2)] assms(3) by (auto simp: reads_owned_iff)

text \<open>
  The step of pass 1 at a node of a well-formed graph succeeds and returns a
  well-formed graph: the graph itself, or the graph with the node fused.
\<close>

lemma fuse_step:
  assumes wf: "well_formed s" and m: "node_at s m = Some M"
  shows "\<exists>s'. FuseWithListUnpack_at m s = Inr s' \<and> well_formed s' \<and> block s' = block s
     \<and> length (all_nodes s') = length (all_nodes s)
     \<and> ((s' = s \<and> (kind M \<notin> trigger_kinds \<or> FindFusibleListUnpack m s = Inr None))
        \<or> (\<exists>u U out r. kind M \<in> trigger_kinds \<and> outputs M = [out] \<and> uses s out = [(u, 0)]
             \<and> node_at s u = Some U \<and> kind U = prim_ListUnpack \<and> inputs U = [out] \<and> u \<noteq> m
             \<and> out \<notin> set (outputs U) \<and> out < length (all_values s)
             \<and> (\<forall>x. x \<notin> set (outputs U) \<longrightarrow> r x = x)
             \<and> (\<forall>x \<in> set (outputs U). length (all_values s) \<le> r x
                    \<and> r x < length (all_values s) + length (outputs U))
             \<and> (\<forall>x. node_at s' x = map_option (\<lambda>X. X\<lparr>inputs := map r (inputs X)\<rparr>)
                    (if x = m
                     then Some (M\<lparr>attrs := set_attr attr_outputs (IntAttr (int (length (outputs U)))) (attrs M),
                                 outputs := [length (all_values s)..<length (all_values s) + length (outputs U)]\<rparr>)
                     else if x = u then Some (U\<lparr>inputs := []\<rparr>)
                     else node_at s x))
             \<and> (\<forall>v. value_at s' v =
                    (if v = out then None
                     else if length (all_values s) \<le> v \<and> v < length (all_values s) + length (outputs U)
                     then map_option (\<lambda>V. \<lparr>type = type V, node = m\<rparr>)
                            (value_at s (outputs U ! (v - length (all_values s))))
                     else value_at s v))
             \<and> length (all_values s') = length (all_values s) + length (outputs U)))"
proof (cases "kind M \<in> trigger_kinds")
  case False
  with m wf show ?thesis by (simp add: FuseWithListUnpack_at_trigger)
next
  case True
  note kM = this
  from FindFusibleListUnpack_total [OF m] obtain res where res: "FindFusibleListUnpack m s = Inr res"
    by blast
  show ?thesis
  proof (cases res)
    case None
    with res m kM wf show ?thesis
      by (simp add: FuseWithListUnpack_at_trigger FuseWithListUnpack_def)
  next
    case (Some u)
    with res have fus: "FindFusibleListUnpack m s = Inr (Some u)" by simp
    then obtain out off U where out: "outputs M = [out]" and us: "uses s out = [(u, off)]"
      and u: "node_at s u = Some U" and kU: "kind U = prim_ListUnpack"
      using FindFusibleListUnpack_Some_iff [OF m, of u] by auto
    from kM kU have mu: "m \<noteq> u" using m u by (auto simp: trigger_kinds_def)
    let ?k = "length (outputs U)" and ?L = "length (all_values s)"
    let ?ps = "zip (outputs U) [?L..<?L + ?k]"
    let ?r = "fold (\<lambda>(v, w) y. if y = v then w else y) ?ps"
    have schU: "schema s u U" using well_formedD(3) [OF wf u] .
    with kU have lin: "length (inputs U) \<le> 1" and small': "int ?k < 2 ^ 31"
      by (simp_all add: schema_def)
    from small' have small: "?k < 2 ^ 31" by (simp add: less_pow31_int)
    have "(u, off) \<in> set (uses s out)" using us by simp
    then have "off < length (inputs U)" "inputs U ! off = out"
      using u by (auto simp: uses_iff)
    with lin have off: "off = 0" and inU: "inputs U = [out]"
      by (cases "inputs U"; simp)+
    have liveU: "\<forall>v \<in> set (outputs U). value_at s v \<noteq> None"
      using owned [OF wf u] by auto
    have liveM: "\<forall>v \<in> set (outputs M). value_at s v \<noteq> None"
      using owned [OF wf m] by auto
    from owned [OF wf m, of out] out obtain Vo where Vo: "value_at s out = Some Vo" "node Vo = m"
      by auto
    then have outlt: "out < ?L" by (auto dest: value_at_less)
    have outU: "out \<notin> set (outputs U)"
      using owner_unique [OF wf m _ u, of out] out mu by auto
    have fst_ps: "fst ` set ?ps = set (outputs U)"
      by (metis (no_types, lifting) diff_add_inverse length_upt map_fst_zip set_map)
    have snd_ps: "snd ` set ?ps = {?L..<?L + ?k}"
      by (metis (no_types, lifting) atLeastLessThan_upt diff_add_inverse length_upt map_snd_zip set_map)
    have oldlt: "\<forall>x \<in> set (outputs U). x < ?L"
      using owned [OF wf u] by (auto dest: value_at_less)
    have disj: "snd ` set ?ps \<inter> fst ` set ?ps = {}"
      unfolding fst_ps snd_ps using oldlt by fastforce
    have r_other: "\<forall>x. x \<notin> set (outputs U) \<longrightarrow> ?r x = x"
      using fold_replace_other [of _ ?ps] fst_ps by auto
    have r_hit: "\<forall>x \<in> set (outputs U). ?L \<le> ?r x \<and> ?r x < ?L + ?k"
      using fold_replace_in [OF disj] fst_ps snd_ps by auto
    from fuse_with_list_unpack [OF m fus u mu liveU liveM small]
    obtain s' where run: "FuseWithListUnpack m s = Inr s'"
      and nodes0: "\<forall>x. node_at s' x =
            map_option (\<lambda>X. X\<lparr>inputs := map ?r (inputs X)\<rparr>)
            (if x = m
             then Some (M\<lparr>attrs := set_attr attr_outputs (IntAttr (to_int64 ?k)) (attrs M),
                         outputs := [?L..<?L + ?k]\<rparr>)
             else if x = u then Some (U\<lparr>inputs := []\<rparr>)
             else node_at s x)"
      and vals: "\<forall>v. value_at s' v =
            (if v = out then None
             else if ?L \<le> v \<and> v < ?L + ?k
             then map_option (\<lambda>V. \<lparr>type = type V, node = m\<rparr>) (value_at s (outputs U ! (v - ?L)))
             else value_at s v)"
      and blk: "block s' = block s"
      and lv: "length (all_values s') = ?L + ?k"
      and ln: "length (all_nodes s') = length (all_nodes s)"
      using out by auto
    have "?k < 2 ^ 63" using small by (rule less_trans) simp
    then have k64: "to_int64 ?k = int ?k" by (rule to_int64_small)
    let ?M' = "M\<lparr>attrs := set_attr attr_outputs (IntAttr (int ?k)) (attrs M), outputs := [?L..<?L + ?k]\<rparr>"
    have nodes: "\<forall>x. node_at s' x =
            map_option (\<lambda>X. X\<lparr>inputs := map ?r (inputs X)\<rparr>)
            (if x = m then Some ?M' else if x = u then Some (U\<lparr>inputs := []\<rparr>) else node_at s x)"
      using nodes0 k64 by simp
    have step: "FuseWithListUnpack_at m s = Inr s'"
      using run m kM by (simp add: FuseWithListUnpack_at_trigger)
    have base: "\<And>x X'. node_at s' x = Some X' \<Longrightarrow>
        \<exists>X. node_at s x = Some X \<and> kind X' = kind X \<and> length (inputs X') \<le> length (inputs X)
          \<and> (x \<noteq> m \<longrightarrow> outputs X' = outputs X) \<and> (x \<noteq> u \<longrightarrow> length (inputs X') = length (inputs X))"
      using nodes m u mu by (auto split: if_splits)
    have fresh_val: "\<And>v. ?L \<le> v \<Longrightarrow> v < ?L + ?k \<Longrightarrow> \<exists>V. value_at s' v = Some V \<and> node V = m"
    proof -
      fix v assume v: "?L \<le> v" "v < ?L + ?k"
      then have "outputs U ! (v - ?L) \<in> set (outputs U)" by simp
      with owned [OF wf u] obtain V where "value_at s (outputs U ! (v - ?L)) = Some V" by blast
      with vals v outlt show "\<exists>V. value_at s' v = Some V \<and> node V = m" by simp
    qed
    have old_val: "\<And>v V. value_at s v = Some V \<Longrightarrow> v \<noteq> out \<Longrightarrow> value_at s' v = Some V"
    proof -
      fix v V assume "value_at s v = Some V" "v \<noteq> out"
      moreover from this have "v < ?L" by (auto dest: value_at_less)
      ultimately show "value_at s' v = Some V" using vals by simp
    qed
    have reads_out: "\<And>x X. node_at s x = Some X \<Longrightarrow> out \<in> set (inputs X) \<Longrightarrow> x = u"
    proof -
      fix x X assume X: "node_at s x = Some X" "out \<in> set (inputs X)"
      then obtain j where "j < length (inputs X)" "inputs X ! j = out"
        by (auto simp: in_set_conv_nth)
      with X have "(x, j) \<in> set (uses s out)" by (auto simp: uses_iff)
      with us show "x = u" by simp
    qed
    have wf': "well_formed s'"
      unfolding well_formed_iff
    proof (intro conjI ballI allI impI)
      show "distinct (ids_Block (block s'))" using wf blk by (simp add: well_formed_iff)
    next
      fix x assume "x \<in> set (ids_Block (block s'))"
      with wf blk have "node_at s x \<noteq> None" by (simp add: well_formed_iff)
      then show "node_at s' x \<noteq> None" using nodes m u by auto
    next
      fix x X' assume X': "node_at s' x = Some X'"
      show "owns_outputs s' x X'"
        unfolding owns_outputs_iff
      proof
        fix v assume v: "v \<in> set (outputs X')"
        show "\<exists>V. value_at s' v = Some V \<and> node V = x"
        proof (cases "x = m")
          case True
          with X' nodes have "outputs X' = [?L..<?L + ?k]" by auto
          with v fresh_val [of v] True show ?thesis by auto
        next
          case False
          with base [OF X'] obtain X where X: "node_at s x = Some X" "outputs X' = outputs X"
            by auto
          with owned [OF wf X(1), of v] v obtain V where V: "value_at s v = Some V" "node V = x"
            by auto
          with Vo False have "v \<noteq> out" by auto
          with old_val [OF V(1)] V(2) show ?thesis by simp
        qed
      qed
    next
      fix x X' assume X': "node_at s' x = Some X'"
      show "reads_owned s' X'"
        unfolding reads_owned_iff
      proof
        fix v' assume v': "v' \<in> set (inputs X')"
        from X' nodes obtain X0 where X0: "X' = X0\<lparr>inputs := map ?r (inputs X0)\<rparr>"
          and X0def: "(if x = m then Some ?M' else if x = u then Some (U\<lparr>inputs := []\<rparr>) else node_at s x) = Some X0"
          by auto
        from v' X0 obtain v where v: "v \<in> set (inputs X0)" "v' = ?r v" by auto
        from X0def v mu have xu: "x \<noteq> u" by (auto split: if_splits)
        from X0def xu obtain X where X: "node_at s x = Some X" "inputs X0 = inputs X"
          using m by (auto split: if_splits)
        show "\<exists>V P. value_at s' v' = Some V \<and> node_at s' (node V) = Some P \<and> v' \<in> set (outputs P)"
        proof (cases "v \<in> set (outputs U)")
          case True
          with r_hit v(2) have rng: "?L \<le> v'" "v' < ?L + ?k" by auto
          from fresh_val [OF rng] obtain V where V: "value_at s' v' = Some V" "node V = m" by blast
          have "node_at s' m = Some (?M'\<lparr>inputs := map ?r (inputs ?M')\<rparr>)" using nodes by simp
          with V rng show ?thesis by auto
        next
          case False
          with r_other v(2) have e: "v' = v" by simp
          from reads_out [OF X(1)] v(1) X(2) xu have vo: "v \<noteq> out" by auto
          from read_owned [OF wf X(1), of v] v(1) X(2)
          obtain V P where V: "value_at s v = Some V" and P: "node_at s (node V) = Some P"
            and vP: "v \<in> set (outputs P)" by auto
          have "node V \<noteq> m"
          proof
            assume "node V = m"
            with P m vP out have "v = out" by auto
            with vo show False by simp
          qed
          then have "\<exists>P'. node_at s' (node V) = Some P' \<and> outputs P' = outputs P"
            using nodes P u by auto
          with old_val [OF V vo] vP e show ?thesis by auto
        qed
      qed
    next
      fix x X' assume X': "node_at s' x = Some X'"
      from base [OF X'] obtain X where X: "node_at s x = Some X" "kind X' = kind X"
        "length (inputs X') \<le> length (inputs X)" "x \<noteq> m \<longrightarrow> outputs X' = outputs X"
        "x \<noteq> u \<longrightarrow> length (inputs X') = length (inputs X)"
        by blast
      have sX: "schema s x X" using well_formedD(3) [OF wf X(1)] .
      have bl: "blocks s' x = blocks s x" using blk by (simp add: blocks_def)
      have xm: "kind X \<notin> trigger_kinds \<Longrightarrow> x \<noteq> m" using kM m X(1) by auto
      have xu: "kind X \<noteq> prim_ListUnpack \<Longrightarrow> x \<noteq> u" using kU u X(1) by auto
      have c1: "kind X' = prim_ListUnpack \<longrightarrow>
          length (inputs X') \<le> 1 \<and> int (length (outputs X')) < 2 ^ 31 \<and> blocks s' x = []"
        using sX X xm bl by (auto simp: schema_def trigger_kinds_def)
      have c2: "kind X' = aten_add \<longrightarrow> 2 \<le> length (inputs X') \<and> length (outputs X') = 1 \<and> blocks s' x = []"
        using sX X xm xu bl by (auto simp: schema_def trigger_kinds_def)
      have c3: "kind X' = aten_index_put_inplace \<longrightarrow>
           3 \<le> length (inputs X') \<and> length (outputs X') = 1 \<and> blocks s' x = [] \<and>
           (case producer s' (inputs X' ! 1) of
              Inl e \<Rightarrow> False
            | Inr p \<Rightarrow> (case node_at s' p of
                          None \<Rightarrow> False
                        | Some P \<Rightarrow> kind P \<noteq> prim_ListUnpack \<and> inputs P \<noteq> []))"
      proof
        assume k: "kind X' = aten_index_put_inplace"
        with X have kX: "kind X = aten_index_put_inplace" by simp
        then have nm: "x \<noteq> m" and nu: "x \<noteq> u" using xm xu by (auto simp: trigger_kinds_def)
        from sX kX obtain p P where l3: "3 \<le> length (inputs X)" and o1: "length (outputs X) = 1"
          and b0: "blocks s x = []" and p: "producer s (inputs X ! 1) = Inr p"
          and P: "node_at s p = Some P" and kP: "kind P \<noteq> prim_ListUnpack" and iP: "inputs P \<noteq> []"
          by (auto simp: schema_def split: sum.splits option.splits)
        let ?v = "inputs X ! 1"
        have vin: "?v \<in> set (inputs X)" using l3 by simp
        from p obtain V where V: "value_at s ?v = Some V" "node V = p"
          by (auto simp: producer_eq_Inr)
        from read_owned [OF wf X(1) vin] V P have vP: "?v \<in> set (outputs P)" by auto
        have vU: "?v \<notin> set (outputs U)"
          using owner_unique [OF wf P vP u] kP kU P u by auto
        have vo: "?v \<noteq> out" using reads_out [OF X(1)] vin nu by auto
        have X'eq: "X' = X\<lparr>inputs := map ?r (inputs X)\<rparr>" using X' nodes nm nu X(1) by simp
        then have "inputs X' ! 1 = ?r ?v" using l3 by simp
        with r_other vU have i1: "inputs X' ! 1 = ?v" by simp
        have pr: "producer s' ?v = Inr p" using old_val [OF V(1) vo] V(2) by (simp add: producer_eq_Inr)
        have pu: "p \<noteq> u" using kP kU P u by auto
        have "\<exists>P'. node_at s' p = Some P' \<and> kind P' = kind P \<and> length (inputs P') = length (inputs P)"
          using nodes P pu m by auto
        with kP iP i1 pr l3 o1 b0 bl X'eq show "3 \<le> length (inputs X') \<and> length (outputs X') = 1 \<and> blocks s' x = [] \<and>
           (case producer s' (inputs X' ! 1) of
              Inl e \<Rightarrow> False
            | Inr p \<Rightarrow> (case node_at s' p of
                          None \<Rightarrow> False
                        | Some P \<Rightarrow> kind P \<noteq> prim_ListUnpack \<and> inputs P \<noteq> []))"
          by auto
      qed
      from c1 c2 c3 show "schema s' x X'" by (simp add: schema_def)
    qed
    have "off = 0" by (rule off)
    with us have us0: "uses s out = [(u, 0)]" by simp
    from step wf' blk ln kM out us0 u kU inU mu outU outlt r_other r_hit nodes vals lv
    show ?thesis by (intro exI [of _ s'] conjI disjI2 exI [of _ u] exI [of _ U] exI [of _ out] exI [of _ ?r]) simp_all
  qed
qed

lemma uses_in_none:
  "(\<And>X. slot = Some X \<Longrightarrow> v \<notin> set (inputs X)) \<Longrightarrow> uses_in x slot v = []"
  by (cases slot) (auto simp: uses_in_def filter_empty_conv)

lemma renamed_uses:
  assumes ln: "length (all_nodes s') = length (all_nodes s)"
    and nodes: "\<forall>x. node_at s' x = map_option (\<lambda>X. X\<lparr>inputs := map r (inputs X)\<rparr>)
                    (if x = m then Some M' else if x = u then Some (U\<lparr>inputs := []\<rparr>) else node_at s x)"
    and m: "node_at s m = Some M" "inputs M' = inputs M"
    and u: "node_at s u = Some U" "v \<notin> set (inputs U)" "u \<noteq> m"
    and r: "\<forall>z. r z = v \<longleftrightarrow> z = v"
  shows "uses s' v = uses s v"
proof (rule uses_cong [OF ln])
  fix x
  show "uses_in x (node_at s' x) v = uses_in x (node_at s x) v"
  proof (cases "x = u")
    case True
    have "uses_in x (node_at s x) v = []" using True u by (intro uses_in_none) auto
    moreover have "uses_in x (node_at s' x) v = []"
      using True nodes u(3) by (intro uses_in_none) auto
    ultimately show ?thesis by simp
  next
    case False
    show ?thesis
    proof (rule uses_in_same)
      fix X assume X: "node_at s x = Some X"
      show "\<exists>X'. node_at s' x = Some X' \<and> length (inputs X') = length (inputs X)
            \<and> (\<forall>j<length (inputs X). (inputs X' ! j = v) = (inputs X ! j = v))"
      proof (cases "x = m")
        case True
        with nodes have "node_at s' x = Some (M'\<lparr>inputs := map r (inputs M')\<rparr>)" by simp
        with True X m r show ?thesis by auto
      next
        case xm: False
        with nodes False X have "node_at s' x = Some (X\<lparr>inputs := map r (inputs X)\<rparr>)" by simp
        with r show ?thesis by auto
      qed
    next
      assume "node_at s x = None"
      with nodes False m show "node_at s' x = None" by auto
    qed
  qed
qed

text \<open>What the step of pass 1 at a node leaves as it is at another node of a trigger kind.\<close>

lemma fused_stays:
  assumes wf: "well_formed s" and y: "node_at s y = Some Y"
    and n: "node_at s n = Some N'" and kN: "kind N' \<in> trigger_kinds" and yn: "y \<noteq> n"
    and step: "FuseWithListUnpack_at y s = Inr s'"
  shows "\<exists>N''. node_at s' n = Some N'' \<and> kind N'' = kind N' \<and> outputs N'' = outputs N'
      \<and> attrs N'' = attrs N' \<and> length (inputs N'') = length (inputs N')"
    and "\<forall>v \<in> set (outputs N'). uses s' v = uses s v"
    and "\<forall>x X'. node_at s' x = Some X' \<longrightarrow> (\<exists>X. node_at s x = Some X \<and> kind X = kind X')"
    and "\<forall>x U. node_at s x = Some U \<and> kind U = prim_ListUnpack \<and> inputs U = [] \<longrightarrow> node_at s' x = Some U"
    and "\<forall>x U v. node_at s x = Some U \<and> kind U = prim_ListUnpack \<and> inputs U = [v]
           \<and> v \<in> set (outputs N') \<longrightarrow> node_at s' x = Some U"
    and "\<forall>v. value_at s v = None \<and> v < length (all_values s) \<longrightarrow> value_at s' v = None"
    and "length (all_values s) \<le> length (all_values s')"
proof -
  from fuse_step [OF wf y] step obtain
    alt: "(s' = s \<and> (kind Y \<notin> trigger_kinds \<or> FindFusibleListUnpack y s = Inr None))
        \<or> (\<exists>u U out r. kind Y \<in> trigger_kinds \<and> outputs Y = [out] \<and> uses s out = [(u, 0)]
             \<and> node_at s u = Some U \<and> kind U = prim_ListUnpack \<and> inputs U = [out] \<and> u \<noteq> y
             \<and> out \<notin> set (outputs U) \<and> out < length (all_values s)
             \<and> (\<forall>x. x \<notin> set (outputs U) \<longrightarrow> r x = x)
             \<and> (\<forall>x \<in> set (outputs U). length (all_values s) \<le> r x
                    \<and> r x < length (all_values s) + length (outputs U))
             \<and> (\<forall>x. node_at s' x = map_option (\<lambda>X. X\<lparr>inputs := map r (inputs X)\<rparr>)
                    (if x = y
                     then Some (Y\<lparr>attrs := set_attr attr_outputs (IntAttr (int (length (outputs U)))) (attrs Y),
                                 outputs := [length (all_values s)..<length (all_values s) + length (outputs U)]\<rparr>)
                     else if x = u then Some (U\<lparr>inputs := []\<rparr>)
                     else node_at s x))
             \<and> (\<forall>v. value_at s' v =
                    (if v = out then None
                     else if length (all_values s) \<le> v \<and> v < length (all_values s) + length (outputs U)
                     then map_option (\<lambda>V. \<lparr>type = type V, node = y\<rparr>)
                            (value_at s (outputs U ! (v - length (all_values s))))
                     else value_at s v))
             \<and> length (all_values s') = length (all_values s) + length (outputs U))"
    and ln: "length (all_nodes s') = length (all_nodes s)"
    by auto
  let ?A = "\<exists>N''. node_at s' n = Some N'' \<and> kind N'' = kind N' \<and> outputs N'' = outputs N'
      \<and> attrs N'' = attrs N' \<and> length (inputs N'') = length (inputs N')"
  let ?B = "\<forall>v \<in> set (outputs N'). uses s' v = uses s v"
  let ?C = "\<forall>x X'. node_at s' x = Some X' \<longrightarrow> (\<exists>X. node_at s x = Some X \<and> kind X = kind X')"
  let ?D = "\<forall>x U. node_at s x = Some U \<and> kind U = prim_ListUnpack \<and> inputs U = [] \<longrightarrow> node_at s' x = Some U"
  let ?E = "\<forall>x U v. node_at s x = Some U \<and> kind U = prim_ListUnpack \<and> inputs U = [v]
           \<and> v \<in> set (outputs N') \<longrightarrow> node_at s' x = Some U"
  let ?F = "\<forall>v. value_at s v = None \<and> v < length (all_values s) \<longrightarrow> value_at s' v = None"
  let ?G = "length (all_values s) \<le> length (all_values s')"
  have "?A \<and> ?B \<and> ?C \<and> ?D \<and> ?E \<and> ?F \<and> ?G"
    using alt
  proof
    assume "s' = s \<and> (kind Y \<notin> trigger_kinds \<or> FindFusibleListUnpack y s = Inr None)"
    with n show ?thesis by auto
  next
    assume "\<exists>u U out r. kind Y \<in> trigger_kinds \<and> outputs Y = [out] \<and> uses s out = [(u, 0)]
             \<and> node_at s u = Some U \<and> kind U = prim_ListUnpack \<and> inputs U = [out] \<and> u \<noteq> y
             \<and> out \<notin> set (outputs U) \<and> out < length (all_values s)
             \<and> (\<forall>x. x \<notin> set (outputs U) \<longrightarrow> r x = x)
             \<and> (\<forall>x \<in> set (outputs U). length (all_values s) \<le> r x
                    \<and> r x < length (all_values s) + length (outputs U))
             \<and> (\<forall>x. node_at s' x = map_option (\<lambda>X. X\<lparr>inputs := map r (inputs X)\<rparr>)
                    (if x = y
                     then Some (Y\<lparr>attrs := set_attr attr_outputs (IntAttr (int (length (outputs U)))) (attrs Y),
                                 outputs := [length (all_values s)..<length (all_values s) + length (outputs U)]\<rparr>)
                     else if x = u then Some (U\<lparr>inputs := []\<rparr>)
                     else node_at s x))
             \<and> (\<forall>v. value_at s' v =
                    (if v = out then None
                     else if length (all_values s) \<le> v \<and> v < length (all_values s) + length (outputs U)
                     then map_option (\<lambda>V. \<lparr>type = type V, node = y\<rparr>)
                            (value_at s (outputs U ! (v - length (all_values s))))
                     else value_at s v))
             \<and> length (all_values s') = length (all_values s) + length (outputs U)"
    then obtain u U out r where kY: "kind Y \<in> trigger_kinds" and oY: "outputs Y = [out]"
      and us: "uses s out = [(u, 0)]" and u: "node_at s u = Some U" and kU: "kind U = prim_ListUnpack"
      and inU: "inputs U = [out]" and uy: "u \<noteq> y" and outU: "out \<notin> set (outputs U)"
      and outlt: "out < length (all_values s)"
      and r_other: "\<forall>x. x \<notin> set (outputs U) \<longrightarrow> r x = x"
      and r_hit: "\<forall>x \<in> set (outputs U). length (all_values s) \<le> r x
                    \<and> r x < length (all_values s) + length (outputs U)"
      and nodes: "\<forall>x. node_at s' x = map_option (\<lambda>X. X\<lparr>inputs := map r (inputs X)\<rparr>)
                    (if x = y
                     then Some (Y\<lparr>attrs := set_attr attr_outputs (IntAttr (int (length (outputs U)))) (attrs Y),
                                 outputs := [length (all_values s)..<length (all_values s) + length (outputs U)]\<rparr>)
                     else if x = u then Some (U\<lparr>inputs := []\<rparr>)
                     else node_at s x)"
      and vals: "\<forall>v. value_at s' v =
                    (if v = out then None
                     else if length (all_values s) \<le> v \<and> v < length (all_values s) + length (outputs U)
                     then map_option (\<lambda>V. \<lparr>type = type V, node = y\<rparr>)
                            (value_at s (outputs U ! (v - length (all_values s))))
                     else value_at s v)"
      and lv: "length (all_values s') = length (all_values s) + length (outputs U)"
      by blast
    have nu: "n \<noteq> u" using kN kU n u by (auto simp: trigger_kinds_def)
    have A: ?A using nodes n yn nu by simp
    have B: ?B
    proof
      fix v assume v: "v \<in> set (outputs N')"
      from owned [OF wf n v] have vlt: "v < length (all_values s)" by (auto dest: value_at_less)
      have vU: "v \<notin> set (outputs U)" using owner_unique [OF wf n v u] nu by auto
      have vo: "v \<noteq> out" using owner_unique [OF wf n v y] oY yn by auto
      have r: "\<forall>z. r z = v \<longleftrightarrow> z = v"
      proof
        fix z show "r z = v \<longleftrightarrow> z = v"
        proof (cases "z \<in> set (outputs U)")
          case True
          with r_hit vlt vU show ?thesis by auto
        next
          case False
          with r_other show ?thesis by simp
        qed
      qed
      show "uses s' v = uses s v"
        by (rule renamed_uses [OF ln nodes y _ u _ uy r]) (use inU vo in auto)
    qed
    have C: ?C using nodes y u by (auto split: if_splits)
    have D: ?D
    proof (intro allI impI)
      fix x X assume X: "node_at s x = Some X \<and> kind X = prim_ListUnpack \<and> inputs X = []"
      with kY y have "x \<noteq> y" by (auto simp: trigger_kinds_def)
      moreover from X u inU have "x \<noteq> u" by auto
      ultimately show "node_at s' x = Some X" using nodes X by simp
    qed
    have E: ?E
    proof (intro allI impI)
      fix x X v assume X: "node_at s x = Some X \<and> kind X = prim_ListUnpack \<and> inputs X = [v] \<and> v \<in> set (outputs N')"
      with kY y have xy: "x \<noteq> y" by (auto simp: trigger_kinds_def)
      from X have v: "v \<in> set (outputs N')" by simp
      have vo: "v \<noteq> out" using owner_unique [OF wf n v y] oY yn by auto
      with X u inU have xu: "x \<noteq> u" by auto
      have vU: "v \<notin> set (outputs U)" using owner_unique [OF wf n v u] nu by auto
      with r_other have "r v = v" by simp
      with xy xu nodes X show "node_at s' x = Some X" by simp
    qed
    have F: ?F using vals by auto
    have G: ?G using lv by simp
    from A B C D E F G show ?thesis by blast
  qed
  then show ?A ?B ?C ?D ?E ?F ?G by blast+
qed

subsection \<open>Pass 1 as a whole\<close>

text \<open>
  A fusible node of the graph is still fusible, with the same ListUnpack, when the
  traversal reaches it, and stays fused once it is.
\<close>

lemma fuse_pass_fused:
  assumes wf: "well_formed g" and nin: "n \<in> set (ids_Block (block g))"
    and n: "node_at g n = Some N" and kN: "kind N \<in> trigger_kinds"
    and out: "outputs N = [out]" and us: "uses g out = [(u, off)]"
    and u: "node_at g u = Some U" and kU: "kind U = prim_ListUnpack"
  shows "\<exists>g'. FuseWithListUnpack_Block (block g) g = Inr g' \<and> well_formed g' \<and> block g' = block g
      \<and> (\<exists>N' L. node_at g' n = Some N' \<and> kind N' = kind N
            \<and> attrs N' = set_attr attr_outputs (IntAttr (int (length (outputs U)))) (attrs N)
            \<and> outputs N' = [L..<L + length (outputs U)] \<and> length (all_values g) \<le> L)
      \<and> node_at g' u = Some (U\<lparr>inputs := []\<rparr>) \<and> value_at g' out = None"
proof -
  let ?ids = "ids_Block (block g)"
  from wf have dist: "distinct ?ids" and live: "\<forall>x \<in> set ?ids. node_at g x \<noteq> None"
    by (simp_all add: well_formed_iff)
  from split_list_first [OF nin] obtain pre post where ids: "?ids = pre @ n # post"
    and npre: "n \<notin> set pre" by blast
  have "(u, off) \<in> set (uses g out)" using us by simp
  then have "off < length (inputs U)" "inputs U ! off = out" using u by (auto simp: uses_iff)
  moreover from well_formedD(3) [OF wf u] kU have "length (inputs U) \<le> 1" by (simp add: schema_def)
  ultimately have off: "off = 0" and inU: "inputs U = [out]" by (cases "inputs U"; simp)+
  from owned [OF wf n, of out] out have outlt: "out < length (all_values g)"
    by (auto dest: value_at_less)
  define J where "J = (\<lambda>(ys::nat list) s. well_formed s \<and> block s = block g \<and> set ys \<subseteq> set ?ids
      \<and> distinct ys \<and> length (all_values g) \<le> length (all_values s)
      \<and> (\<exists>N'. node_at s n = Some N' \<and> kind N' = kind N \<and> outputs N' = [out] \<and> attrs N' = attrs N)
      \<and> uses s out = [(u, 0)] \<and> node_at s u = Some U)"
  define K where "K = (\<lambda>(ys::nat list) s. well_formed s \<and> block s = block g \<and> set ys \<subseteq> set ?ids
      \<and> n \<notin> set ys \<and> length (all_values g) \<le> length (all_values s)
      \<and> (\<exists>N' L. node_at s n = Some N' \<and> kind N' = kind N
            \<and> attrs N' = set_attr attr_outputs (IntAttr (int (length (outputs U)))) (attrs N)
            \<and> outputs N' = [L..<L + length (outputs U)] \<and> length (all_values g) \<le> L)
      \<and> node_at s u = Some (U\<lparr>inputs := []\<rparr>) \<and> value_at s out = None)"
  have J0: "J (pre @ n # post) g"
    using wf ids dist n out us off u by (simp add: J_def)
  have before: "\<exists>s'. FuseWithListUnpack_at y s = Inr s' \<and> J ys s'"
    if Jy: "J (y # ys) s" and yn: "y \<noteq> n" for y ys s
  proof -
    from Jy have wfs: "well_formed s" and bs: "block s = block g" and sub: "set (y # ys) \<subseteq> set ?ids"
      and dys: "distinct (y # ys)" and lv: "length (all_values g) \<le> length (all_values s)"
      and uss: "uses s out = [(u, 0)]" and us': "node_at s u = Some U"
      by (simp_all add: J_def)
    from Jy obtain N' where n': "node_at s n = Some N'" "kind N' = kind N" "outputs N' = [out]"
      "attrs N' = attrs N" by (auto simp: J_def)
    from sub wfs bs obtain Y where y: "node_at s y = Some Y" by (auto simp: well_formed_iff)
    from fuse_step [OF wfs y] obtain s' where step: "FuseWithListUnpack_at y s = Inr s'"
      and wf': "well_formed s'" and b': "block s' = block s" by blast
    have kN': "kind N' \<in> trigger_kinds" using n' kN by simp
    note st = fused_stays [OF wfs y n'(1) kN' yn step]
    from st(1) n' obtain N'' where "node_at s' n = Some N''" "kind N'' = kind N" "outputs N'' = [out]"
      "attrs N'' = attrs N" by auto
    moreover from st(2) n' uss have "uses s' out = [(u, 0)]" by simp
    moreover from st(5) us' kU inU n' have "node_at s' u = Some U" by auto
    ultimately have "J ys s'"
      using wf' b' bs sub dys lv st(7) by (auto simp: J_def)
    with step show ?thesis by blast
  qed
  have at: "\<exists>s'. FuseWithListUnpack_at n s = Inr s' \<and> K ys s'" if Jn: "J (n # ys) s" for ys s
  proof -
    from Jn have wfs: "well_formed s" and bs: "block s = block g" and sub: "set (n # ys) \<subseteq> set ?ids"
      and dys: "distinct (n # ys)" and lv: "length (all_values g) \<le> length (all_values s)"
      and uss: "uses s out = [(u, 0)]" and us': "node_at s u = Some U"
      by (simp_all add: J_def)
    from Jn obtain N' where n': "node_at s n = Some N'" "kind N' = kind N" "outputs N' = [out]"
      "attrs N' = attrs N" by (auto simp: J_def)
    have fus: "FindFusibleListUnpack n s = Inr (Some u)"
      using FindFusibleListUnpack_Some_iff [OF n'(1), of u] n' uss us' kU by auto
    from fuse_step [OF wfs n'(1)] obtain s' where step: "FuseWithListUnpack_at n s = Inr s'"
      and wf': "well_formed s'" and b': "block s' = block s"
      and alt: "(s' = s \<and> (kind N' \<notin> trigger_kinds \<or> FindFusibleListUnpack n s = Inr None))
        \<or> (\<exists>u U out r. kind N' \<in> trigger_kinds \<and> outputs N' = [out] \<and> uses s out = [(u, 0)]
             \<and> node_at s u = Some U \<and> kind U = prim_ListUnpack \<and> inputs U = [out] \<and> u \<noteq> n
             \<and> out \<notin> set (outputs U) \<and> out < length (all_values s)
             \<and> (\<forall>x. x \<notin> set (outputs U) \<longrightarrow> r x = x)
             \<and> (\<forall>x \<in> set (outputs U). length (all_values s) \<le> r x
                    \<and> r x < length (all_values s) + length (outputs U))
             \<and> (\<forall>x. node_at s' x = map_option (\<lambda>X. X\<lparr>inputs := map r (inputs X)\<rparr>)
                    (if x = n
                     then Some (N'\<lparr>attrs := set_attr attr_outputs (IntAttr (int (length (outputs U)))) (attrs N'),
                                 outputs := [length (all_values s)..<length (all_values s) + length (outputs U)]\<rparr>)
                     else if x = u then Some (U\<lparr>inputs := []\<rparr>)
                     else node_at s x))
             \<and> (\<forall>v. value_at s' v =
                    (if v = out then None
                     else if length (all_values s) \<le> v \<and> v < length (all_values s) + length (outputs U)
                     then map_option (\<lambda>V. \<lparr>type = type V, node = n\<rparr>)
                            (value_at s (outputs U ! (v - length (all_values s))))
                     else value_at s v))
             \<and> length (all_values s') = length (all_values s) + length (outputs U))"
      by blast
    from alt fus n' kN obtain u1 U1 out1 r where
        o1: "outputs N' = [out1]" and us1: "uses s out1 = [(u1, 0)]" and u1: "node_at s u1 = Some U1"
        and u1n: "u1 \<noteq> n"
        and nodes: "\<forall>x. node_at s' x = map_option (\<lambda>X. X\<lparr>inputs := map r (inputs X)\<rparr>)
                    (if x = n
                     then Some (N'\<lparr>attrs := set_attr attr_outputs (IntAttr (int (length (outputs U1)))) (attrs N'),
                                 outputs := [length (all_values s)..<length (all_values s) + length (outputs U1)]\<rparr>)
                     else if x = u1 then Some (U1\<lparr>inputs := []\<rparr>)
                     else node_at s x)"
        and vals: "\<forall>v. value_at s' v =
                    (if v = out1 then None
                     else if length (all_values s) \<le> v \<and> v < length (all_values s) + length (outputs U1)
                     then map_option (\<lambda>V. \<lparr>type = type V, node = n\<rparr>)
                            (value_at s (outputs U1 ! (v - length (all_values s))))
                     else value_at s v)"
        and lv': "length (all_values s') = length (all_values s) + length (outputs U1)"
      by auto
    from o1 n' have e1: "out1 = out" by simp
    with us1 uss have e2: "u1 = u" by simp
    with u1 us' have e3: "U1 = U" by simp
    have "node_at s' n = Some (N'\<lparr>inputs := map r (inputs N'),
              attrs := set_attr attr_outputs (IntAttr (int (length (outputs U)))) (attrs N),
              outputs := [length (all_values s)..<length (all_values s) + length (outputs U)]\<rparr>)"
      using nodes e3 n' by simp
    moreover have "node_at s' u = Some (U\<lparr>inputs := []\<rparr>)"
      using nodes e2 e3 u1n by simp
    moreover have "value_at s' out = None" using vals e1 by simp
    ultimately have "K ys s'"
      using wf' b' bs sub dys lv lv' n' by (auto simp: K_def)
    with step show ?thesis by blast
  qed
  have after: "\<exists>s'. FuseWithListUnpack_at y s = Inr s' \<and> K ys s'" if Ky: "K (y # ys) s" for y ys s
  proof -
    from Ky have wfs: "well_formed s" and bs: "block s = block g" and sub: "set (y # ys) \<subseteq> set ?ids"
      and yn: "y \<noteq> n" and nys: "n \<notin> set ys" and lv: "length (all_values g) \<le> length (all_values s)"
      and us': "node_at s u = Some (U\<lparr>inputs := []\<rparr>)" and dead: "value_at s out = None"
      by (auto simp: K_def)
    from Ky obtain N' L where n': "node_at s n = Some N'" "kind N' = kind N"
      "attrs N' = set_attr attr_outputs (IntAttr (int (length (outputs U)))) (attrs N)"
      "outputs N' = [L..<L + length (outputs U)]" "length (all_values g) \<le> L"
      by (auto simp: K_def)
    from sub wfs bs obtain Y where y: "node_at s y = Some Y" by (auto simp: well_formed_iff)
    from fuse_step [OF wfs y] obtain s' where step: "FuseWithListUnpack_at y s = Inr s'"
      and wf': "well_formed s'" and b': "block s' = block s" by blast
    have kN': "kind N' \<in> trigger_kinds" using n' kN by simp
    note st = fused_stays [OF wfs y n'(1) kN' yn step]
    from st(1) n' obtain N'' where "node_at s' n = Some N''" "kind N'' = kind N"
      "attrs N'' = set_attr attr_outputs (IntAttr (int (length (outputs U)))) (attrs N)"
      "outputs N'' = [L..<L + length (outputs U)]" by auto
    moreover from st(4) us' kU have "node_at s' u = Some (U\<lparr>inputs := []\<rparr>)" by auto
    moreover from st(6) dead outlt lv have "value_at s' out = None" by auto
    ultimately have "K ys s'"
      using wf' b' bs sub nys lv st(7) n'(5) by (auto simp: K_def)
    with step show ?thesis by blast
  qed
  from for_each_focus [of J pre n post g FuseWithListUnpack_at K, OF J0 before at after npre]
  obtain g' where "for_each (pre @ n # post) FuseWithListUnpack_at g = Inr g'" "K [] g'"
    by blast
  then show ?thesis
    unfolding FuseWithListUnpack_Block_def walk_for_each ids K_def by auto
qed

text \<open>A node that is not fusible in the graph is not fusible in any graph of the traversal.\<close>

lemma fuse_pass_unfused:
  assumes wf: "well_formed g" and nin: "n \<in> set (ids_Block (block g))"
    and n: "node_at g n = Some N" and kN: "kind N \<in> trigger_kinds"
    and no: "FindFusibleListUnpack n g = Inr None"
  shows "\<exists>g'. FuseWithListUnpack_Block (block g) g = Inr g' \<and> well_formed g' \<and> block g' = block g
      \<and> (\<exists>N'. node_at g' n = Some N' \<and> kind N' = kind N \<and> attrs N' = attrs N
            \<and> outputs N' = outputs N \<and> length (inputs N') = length (inputs N))
      \<and> FindFusibleListUnpack n g' = Inr None"
proof -
  let ?ids = "ids_Block (block g)"
  define I where "I = (\<lambda>(ys::nat list) s. well_formed s \<and> block s = block g \<and> set ys \<subseteq> set ?ids
      \<and> (\<exists>N'. node_at s n = Some N' \<and> kind N' = kind N \<and> attrs N' = attrs N
            \<and> outputs N' = outputs N \<and> length (inputs N') = length (inputs N))
      \<and> FindFusibleListUnpack n s = Inr None)"
  have I0: "I ?ids g" using wf n no by (simp add: I_def)
  have step: "\<exists>s'. FuseWithListUnpack_at y s = Inr s' \<and> I ys s'" if Iy: "I (y # ys) s" for y ys s
  proof (cases "y = n")
    case True
    from Iy obtain N' where "node_at s n = Some N'" "FindFusibleListUnpack n s = Inr None"
      by (auto simp: I_def)
    then have "FuseWithListUnpack_at n s = Inr s"
      by (simp add: FuseWithListUnpack_at_trigger FuseWithListUnpack_def)
    with Iy True show ?thesis by (auto simp: I_def)
  next
    case yn: False
    from Iy have wfs: "well_formed s" and bs: "block s = block g" and sub: "set (y # ys) \<subseteq> set ?ids"
      and nos: "FindFusibleListUnpack n s = Inr None"
      by (simp_all add: I_def)
    from Iy obtain N' where n': "node_at s n = Some N'" "kind N' = kind N" "attrs N' = attrs N"
      "outputs N' = outputs N" "length (inputs N') = length (inputs N)" by (auto simp: I_def)
    from sub wfs bs obtain Y where y: "node_at s y = Some Y" by (auto simp: well_formed_iff)
    from fuse_step [OF wfs y] obtain s' where step: "FuseWithListUnpack_at y s = Inr s'"
      and wf': "well_formed s'" and b': "block s' = block s" by blast
    have kN': "kind N' \<in> trigger_kinds" using n' kN by simp
    note st = fused_stays [OF wfs y n'(1) kN' yn step]
    from st(1) obtain N'' where n'': "node_at s' n = Some N''" "kind N'' = kind N'"
      "outputs N'' = outputs N'" "attrs N'' = attrs N'" "length (inputs N'') = length (inputs N')"
      by blast
    from FindFusibleListUnpack_total [OF n''(1)] obtain res where res: "FindFusibleListUnpack n s' = Inr res"
      by blast
    have "res = None"
    proof (cases res)
      case None
      then show ?thesis .
    next
      case (Some u')
      with res FindFusibleListUnpack_Some_iff [OF n''(1), of u']
      obtain out' off' U' where o: "outputs N'' = [out']" and us: "uses s' out' = [(u', off')]"
        and u': "node_at s' u' = Some U'" and kU': "kind U' = prim_ListUnpack" by auto
      from o n''(3) have o': "outputs N' = [out']" by simp
      with st(2) us have "uses s out' = [(u', off')]" by simp
      moreover from st(3) u' kU' obtain X where "node_at s u' = Some X" "kind X = prim_ListUnpack"
        by force
      ultimately have "FindFusibleListUnpack n s = Inr (Some u')"
        using FindFusibleListUnpack_Some_iff [OF n'(1), of u'] o' by auto
      with nos show ?thesis by simp
    qed
    with res n'' n' wf' b' bs sub have "I ys s'" by (auto simp: I_def)
    with step show ?thesis by blast
  qed
  from for_each_invariant [of I ?ids g FuseWithListUnpack_at, OF I0 step]
  obtain g' where "for_each ?ids FuseWithListUnpack_at g = Inr g'" "I [] g'" by blast
  then show ?thesis
    unfolding FuseWithListUnpack_Block_def walk_for_each I_def by auto
qed

subsection \<open>Inserting into and removing from the blocks\<close>

lemma blocks_None_iff:
  "blocks_Block x b = None \<longleftrightarrow> x \<notin> set (ids_Block b)"
  "blocks_nodes x ns = None \<longleftrightarrow> x \<notin> set (ids_nodes ns)"
  "blocks_blocks x bs = None \<longleftrightarrow> x \<notin> set (ids_blocks bs)"
  by (induction x b and x ns and x bs rule: blocks_Block_blocks_nodes_blocks_blocks.induct)
    (auto split: option.splits)

lemma insert_absent:
  "it \<notin> set (ids_Block b) \<Longrightarrow> insert_Block new it b = b"
  "it \<notin> set (ids_nodes ns) \<Longrightarrow> insert_nodes new it ns = ns"
  "it \<notin> set (ids_blocks bs) \<Longrightarrow> insert_blocks new it bs = bs"
  by (induction new it b and new it ns and new it bs
      rule: insert_Block_insert_nodes_insert_blocks.induct) auto

lemma remove_absent:
  "it \<notin> set (ids_Block b) \<Longrightarrow> remove_Block it b = b"
  "it \<notin> set (ids_nodes ns) \<Longrightarrow> remove_nodes it ns = ns"
  "it \<notin> set (ids_blocks bs) \<Longrightarrow> remove_blocks it bs = bs"
  by (induction it b and it ns and it bs
      rule: remove_Block_remove_nodes_remove_blocks.induct) auto

lemma ids_insert_leaf:
  "blocks_Block it b = Some [] \<Longrightarrow> distinct (ids_Block b) \<Longrightarrow>
     \<exists>xs ys. ids_Block b = xs @ it # ys \<and> ids_Block (insert_Block new it b) = xs @ new # it # ys"
  "blocks_nodes it ns = Some [] \<Longrightarrow> distinct (ids_nodes ns) \<Longrightarrow>
     \<exists>xs ys. ids_nodes ns = xs @ it # ys \<and> ids_nodes (insert_nodes new it ns) = xs @ new # it # ys"
  "blocks_blocks it bs = Some [] \<Longrightarrow> distinct (ids_blocks bs) \<Longrightarrow>
     \<exists>xs ys. ids_blocks bs = xs @ it # ys \<and> ids_blocks (insert_blocks new it bs) = xs @ new # it # ys"
proof (induction new it b and new it ns and new it bs
      rule: insert_Block_insert_nodes_insert_blocks.induct)
  case (3 new it n bs rest)
  show ?case
  proof (cases "n = it")
    case True
    with 3(3) have "bs = []" by simp
    with True show ?thesis by (intro exI [of _ "[]"] exI [of _ "ids_nodes rest"]) simp
  next
    case False
    note ne = this
    show ?thesis
    proof (cases "blocks_blocks it bs")
      case None
      then have a: "it \<notin> set (ids_blocks bs)" by (simp add: blocks_None_iff)
      from None 3(3) ne have "blocks_nodes it rest = Some []" by simp
      moreover from 3(4) have "distinct (ids_nodes rest)" by simp
      ultimately obtain xs ys where "ids_nodes rest = xs @ it # ys"
        "ids_nodes (insert_nodes new it rest) = xs @ new # it # ys"
        using 3(2) [OF ne] by blast
      with ne a show ?thesis
        by (intro exI [of _ "ids_blocks bs @ n # xs"] exI [of _ ys]) (simp add: insert_absent)
    next
      case (Some r)
      with 3(3) ne have r: "blocks_blocks it bs = Some []" by simp
      then have "it \<in> set (ids_blocks bs)" using blocks_None_iff(3) [of it bs] by auto
      with 3(4) have b: "it \<notin> set (ids_nodes rest)" by auto
      from 3(4) have "distinct (ids_blocks bs)" by simp
      with r obtain xs ys where "ids_blocks bs = xs @ it # ys"
        "ids_blocks (insert_blocks new it bs) = xs @ new # it # ys"
        using 3(1) [OF ne] by blast
      with ne b show ?thesis
        by (intro exI [of _ xs] exI [of _ "ys @ n # ids_nodes rest"]) (simp add: insert_absent)
    qed
  qed
next
  case (5 new it b bs)
  show ?case
  proof (cases "blocks_Block it b")
    case None
    then have a: "it \<notin> set (ids_Block b)" by (simp add: blocks_None_iff)
    from None 5(3) have "blocks_blocks it bs = Some []" by simp
    moreover from 5(4) have "distinct (ids_blocks bs)" by simp
    ultimately obtain xs ys where "ids_blocks bs = xs @ it # ys"
      "ids_blocks (insert_blocks new it bs) = xs @ new # it # ys"
      using 5(2) by blast
    with a show ?thesis
      by (intro exI [of _ "ids_Block b @ xs"] exI [of _ ys]) (simp add: insert_absent)
  next
    case (Some r)
    with 5(3) have r: "blocks_Block it b = Some []" by simp
    then have "it \<in> set (ids_Block b)" using blocks_None_iff(1) [of it b] by auto
    with 5(4) have c: "it \<notin> set (ids_blocks bs)" by auto
    from 5(4) have "distinct (ids_Block b)" by simp
    with r obtain xs ys where "ids_Block b = xs @ it # ys"
      "ids_Block (insert_Block new it b) = xs @ new # it # ys"
      using 5(1) by blast
    with c show ?thesis
      by (intro exI [of _ xs] exI [of _ "ys @ ids_blocks bs"]) (simp add: insert_absent)
  qed
qed simp_all

lemma ids_remove_leaf:
  "blocks_Block it b = Some [] \<Longrightarrow> distinct (ids_Block b) \<Longrightarrow>
     \<exists>xs ys. ids_Block b = xs @ it # ys \<and> ids_Block (remove_Block it b) = xs @ ys"
  "blocks_nodes it ns = Some [] \<Longrightarrow> distinct (ids_nodes ns) \<Longrightarrow>
     \<exists>xs ys. ids_nodes ns = xs @ it # ys \<and> ids_nodes (remove_nodes it ns) = xs @ ys"
  "blocks_blocks it bs = Some [] \<Longrightarrow> distinct (ids_blocks bs) \<Longrightarrow>
     \<exists>xs ys. ids_blocks bs = xs @ it # ys \<and> ids_blocks (remove_blocks it bs) = xs @ ys"
proof (induction it b and it ns and it bs
      rule: remove_Block_remove_nodes_remove_blocks.induct)
  case (3 it n bs rest)
  show ?case
  proof (cases "n = it")
    case True
    with 3(3) have "bs = []" by simp
    with True show ?thesis by (intro exI [of _ "[]"] exI [of _ "ids_nodes rest"]) simp
  next
    case False
    note ne = this
    show ?thesis
    proof (cases "blocks_blocks it bs")
      case None
      then have a: "it \<notin> set (ids_blocks bs)" by (simp add: blocks_None_iff)
      from None 3(3) ne have "blocks_nodes it rest = Some []" by simp
      moreover from 3(4) have "distinct (ids_nodes rest)" by simp
      ultimately obtain xs ys where "ids_nodes rest = xs @ it # ys"
        "ids_nodes (remove_nodes it rest) = xs @ ys"
        using 3(2) [OF ne] by blast
      with ne a show ?thesis
        by (intro exI [of _ "ids_blocks bs @ n # xs"] exI [of _ ys]) (simp add: remove_absent)
    next
      case (Some r)
      with 3(3) ne have r: "blocks_blocks it bs = Some []" by simp
      then have "it \<in> set (ids_blocks bs)" using blocks_None_iff(3) [of it bs] by auto
      with 3(4) have b: "it \<notin> set (ids_nodes rest)" by auto
      from 3(4) have "distinct (ids_blocks bs)" by simp
      with r obtain xs ys where "ids_blocks bs = xs @ it # ys"
        "ids_blocks (remove_blocks it bs) = xs @ ys"
        using 3(1) [OF ne] by blast
      with ne b show ?thesis
        by (intro exI [of _ xs] exI [of _ "ys @ n # ids_nodes rest"]) (simp add: remove_absent)
    qed
  qed
next
  case (5 it b bs)
  show ?case
  proof (cases "blocks_Block it b")
    case None
    then have a: "it \<notin> set (ids_Block b)" by (simp add: blocks_None_iff)
    from None 5(3) have "blocks_blocks it bs = Some []" by simp
    moreover from 5(4) have "distinct (ids_blocks bs)" by simp
    ultimately obtain xs ys where "ids_blocks bs = xs @ it # ys"
      "ids_blocks (remove_blocks it bs) = xs @ ys"
      using 5(2) by blast
    with a show ?thesis
      by (intro exI [of _ "ids_Block b @ xs"] exI [of _ ys]) (simp add: remove_absent)
  next
    case (Some r)
    with 5(3) have r: "blocks_Block it b = Some []" by simp
    then have "it \<in> set (ids_Block b)" using blocks_None_iff(1) [of it b] by auto
    with 5(4) have c: "it \<notin> set (ids_blocks bs)" by auto
    from 5(4) have "distinct (ids_Block b)" by simp
    with r obtain xs ys where "ids_Block b = xs @ it # ys"
      "ids_Block (remove_Block it b) = xs @ ys"
      using 5(1) by blast
    with c show ?thesis
      by (intro exI [of _ xs] exI [of _ "ys @ ids_blocks bs"]) (simp add: remove_absent)
  qed
qed simp_all

lemma leaf_insert:
  "x \<noteq> new \<Longrightarrow> blocks_Block x b \<in> {None, Some []} \<Longrightarrow>
     blocks_Block x (insert_Block new it b) = blocks_Block x b"
  "x \<noteq> new \<Longrightarrow> blocks_nodes x ns \<in> {None, Some []} \<Longrightarrow>
     blocks_nodes x (insert_nodes new it ns) = blocks_nodes x ns"
  "x \<noteq> new \<Longrightarrow> blocks_blocks x bs \<in> {None, Some []} \<Longrightarrow>
     blocks_blocks x (insert_blocks new it bs) = blocks_blocks x bs"
proof (induction new it b and new it ns and new it bs
      rule: insert_Block_insert_nodes_insert_blocks.induct)
  case (3 new it n bs rest)
  show ?case
  proof (cases "n = it")
    case True
    with 3(3) show ?thesis by simp
  next
    case False
    note ne = this
    show ?thesis
    proof (cases "n = x")
      case True
      with 3(4) ne show ?thesis by simp
    next
      case nx: False
      show ?thesis
      proof (cases "blocks_blocks x bs")
        case None
        with 3(4) nx have "blocks_nodes x rest \<in> {None, Some []}" by simp
        from 3(2) [OF ne 3(3) this] 3(1) [OF ne 3(3)] None ne nx show ?thesis by simp
      next
        case (Some r)
        with 3(4) nx have "blocks_blocks x bs \<in> {None, Some []}" by simp
        from 3(1) [OF ne 3(3) this] Some ne nx show ?thesis by simp
      qed
    qed
  qed
next
  case (5 new it b bs)
  show ?case
  proof (cases "blocks_Block x b")
    case None
    with 5(4) have "blocks_blocks x bs \<in> {None, Some []}" by simp
    from 5(2) [OF 5(3) this] 5(1) [OF 5(3)] None show ?thesis by simp
  next
    case (Some r)
    with 5(4) have "blocks_Block x b \<in> {None, Some []}" by simp
    from 5(1) [OF 5(3) this] Some show ?thesis by simp
  qed
qed simp_all

lemma leaf_remove:
  "x \<noteq> it \<Longrightarrow> distinct (ids_Block b) \<Longrightarrow> blocks_Block it b \<in> {None, Some []} \<Longrightarrow>
     blocks_Block x b \<in> {None, Some []} \<Longrightarrow> blocks_Block x (remove_Block it b) = blocks_Block x b"
  "x \<noteq> it \<Longrightarrow> distinct (ids_nodes ns) \<Longrightarrow> blocks_nodes it ns \<in> {None, Some []} \<Longrightarrow>
     blocks_nodes x ns \<in> {None, Some []} \<Longrightarrow> blocks_nodes x (remove_nodes it ns) = blocks_nodes x ns"
  "x \<noteq> it \<Longrightarrow> distinct (ids_blocks bs) \<Longrightarrow> blocks_blocks it bs \<in> {None, Some []} \<Longrightarrow>
     blocks_blocks x bs \<in> {None, Some []} \<Longrightarrow> blocks_blocks x (remove_blocks it bs) = blocks_blocks x bs"
proof (induction it b and it ns and it bs
      rule: remove_Block_remove_nodes_remove_blocks.induct)
  case (3 it n bs rest)
  from 3(4) have d1: "distinct (ids_blocks bs)" and d2: "distinct (ids_nodes rest)" by simp_all
  show ?case
  proof (cases "n = it")
    case True
    with 3(5) have "bs = []" by simp
    with True 3(3) show ?thesis by simp
  next
    case False
    note ne = this
    have i1: "blocks_blocks it bs \<in> {None, Some []}"
      using 3(5) ne by (auto split: option.splits)
    have i2: "blocks_nodes it rest \<in> {None, Some []}"
    proof (cases "blocks_blocks it bs")
      case None
      with 3(5) ne show ?thesis by simp
    next
      case (Some r)
      then have "it \<in> set (ids_blocks bs)" using blocks_None_iff(3) [of it bs] by auto
      with 3(4) have "it \<notin> set (ids_nodes rest)" by auto
      then show ?thesis by (simp add: blocks_None_iff)
    qed
    show ?thesis
    proof (cases "n = x")
      case True
      with 3(6) ne show ?thesis by simp
    next
      case nx: False
      show ?thesis
      proof (cases "blocks_blocks x bs")
        case None
        with 3(6) nx have "blocks_nodes x rest \<in> {None, Some []}" by simp
        from 3(2) [OF ne 3(3) d2 i2 this] 3(1) [OF ne 3(3) d1 i1] None ne nx show ?thesis by simp
      next
        case (Some r)
        with 3(6) nx have "blocks_blocks x bs \<in> {None, Some []}" by simp
        from 3(1) [OF ne 3(3) d1 i1 this] Some ne nx show ?thesis by simp
      qed
    qed
  qed
next
  case (5 it b bs)
  from 5(4) have d1: "distinct (ids_Block b)" and d2: "distinct (ids_blocks bs)" by simp_all
  have i1: "blocks_Block it b \<in> {None, Some []}"
    using 5(5) by (auto split: option.splits)
  have i2: "blocks_blocks it bs \<in> {None, Some []}"
  proof (cases "blocks_Block it b")
    case None
    with 5(5) show ?thesis by simp
  next
    case (Some r)
    then have "it \<in> set (ids_Block b)" using blocks_None_iff(1) [of it b] by auto
    with 5(4) have "it \<notin> set (ids_blocks bs)" by auto
    then show ?thesis by (simp add: blocks_None_iff)
  qed
  show ?case
  proof (cases "blocks_Block x b")
    case None
    with 5(6) have "blocks_blocks x bs \<in> {None, Some []}" by simp
    from 5(2) [OF 5(3) d2 i2 this] 5(1) [OF 5(3) d1 i1] None show ?thesis by simp
  next
    case (Some r)
    with 5(6) have "blocks_Block x b \<in> {None, Some []}" by simp
    from 5(1) [OF 5(3) d1 i1 this] Some show ?thesis by simp
  qed
qed simp_all

lemma blocks_empty_iff: "blocks g x = [] \<longleftrightarrow> blocks_Block x (block g) \<in> {None, Some []}"
  by (auto simp: blocks_def split: option.splits)

lemma leaf_in_block:
  assumes "inBlockList s it" and "blocks s it = []"
  shows "blocks_Block it (block s) = Some []"
  using assms blocks_None_iff(1) [of it "block s"]
  by (auto simp: inBlockList_def blocks_def split: option.splits)

lemma ids_live_less:
  assumes "well_formed s" and "x \<in> set (ids_Block (block s))"
  shows "x < length (all_nodes s)"
  using assms by (auto simp: well_formed_iff dest: node_at_less)

lemma wf_insert_block:
  assumes wf: "well_formed s" and it: "inBlockList s it" and leaf: "blocks s it = []"
    and new: "length (all_nodes s) \<le> new"
  shows "distinct (ids_Block (insert_Block new it (block s)))"
    and "set (ids_Block (insert_Block new it (block s))) = insert new (set (ids_Block (block s)))"
    and "blocks_Block it (insert_Block new it (block s)) = Some []"
    and "\<And>x. x \<noteq> new \<Longrightarrow> blocks_Block x (block s) \<in> {None, Some []} \<Longrightarrow>
           blocks_Block x (insert_Block new it (block s)) \<in> {None, Some []}"
proof -
  have d: "distinct (ids_Block (block s))" using wf by (simp add: well_formed_iff)
  have n: "new \<notin> set (ids_Block (block s))" using ids_live_less [OF wf] new by fastforce
  from ids_insert_leaf(1) [OF leaf_in_block [OF it leaf] d, of new]
  obtain xs ys where e: "ids_Block (block s) = xs @ it # ys"
    "ids_Block (insert_Block new it (block s)) = xs @ new # it # ys" by blast
  with d n show "distinct (ids_Block (insert_Block new it (block s)))" by auto
  from e show "set (ids_Block (insert_Block new it (block s))) = insert new (set (ids_Block (block s)))"
    by auto
  have "new \<noteq> it" using n it by (auto simp: inBlockList_def)
  then show "blocks_Block it (insert_Block new it (block s)) = Some []"
    using leaf_in_block [OF it leaf] by (simp add: blocks_insert)
  show "\<And>x. x \<noteq> new \<Longrightarrow> blocks_Block x (block s) \<in> {None, Some []} \<Longrightarrow>
           blocks_Block x (insert_Block new it (block s)) \<in> {None, Some []}"
    by (simp add: leaf_insert)
qed

subsection \<open>Pass 4, round by round\<close>

lemma cast_ListType_eq: "cast_ListType t = None \<or> (\<exists>e. t = ListType e)"
  by (cases t) auto

lemma cast_IntType_eq: "cast_IntType e \<noteq> None \<longleftrightarrow> e = IntType"
  by (cases e) auto

lemma expand_output_skip:
  assumes it: "node_at s it = Some N" and i: "i < length (outputs N)"
    and no: "\<not> (\<exists>V p P Vv. inputs N = [V] \<and> value_at s V = Some Vv \<and> type Vv = ListType IntType
               \<and> node_at s (node Vv) = Some P \<and> kind P \<noteq> prim_ListConstruct)"
    and rd: "\<forall>v \<in> set (inputs N). \<exists>Vv P. value_at s v = Some Vv \<and> node_at s (node Vv) = Some P"
  shows "expand_output it i s = Inr s"
proof (cases "length (inputs N) = 1")
  case False
  with it i show ?thesis by (simp add: expand_output_def output_at_def)
next
  case True
  then obtain V where V: "inputs N = [V]" by (cases "inputs N") auto
  with rd obtain Vv P where Vv: "value_at s V = Some Vv" and P: "node_at s (node Vv) = Some P"
    by auto
  have pr: "producer s V = Inr (node Vv)" using Vv by (simp add: producer_eq_Inr)
  have ty: "type_of s V = Inr (type Vv)" using Vv by (simp add: type_of_eq_Inr)
  have si: "sole_input s it = Inr V" using it V by (simp add: sole_input_def)
  show ?thesis
  proof (cases "kind P = prim_ListConstruct")
    case True
    with it i V si pr P show ?thesis by (simp add: expand_output_def output_at_def)
  next
    case False
    with no V Vv P have nt: "type Vv \<noteq> ListType IntType" by auto
    have "cast_ListType (type Vv) = None
        \<or> (\<exists>lt. cast_ListType (type Vv) = Some lt \<and> cast_IntType (getElementType lt) = None)"
    proof (cases "type Vv")
      case (ListType e)
      with nt have "e \<noteq> IntType" by simp
      then have "cast_IntType e = None" using cast_IntType_eq [of e] by auto
      with ListType show ?thesis by simp
    qed simp_all
    with it i V si pr P ty False show ?thesis
      by (auto simp: expand_output_def output_at_def)
  qed
qed

text \<open>
  One round of the inner loop of pass 4 at a ListUnpack of a well-formed graph
  succeeds and returns a well-formed graph: the graph itself, or the graph with one
  more Constant and Gather.
\<close>

lemma expand_output_wf:
  assumes wf: "well_formed s" and it: "node_at s it = Some N" and k: "kind N = prim_ListUnpack"
    and i: "i < length (outputs N)" and bl: "inBlockList s it"
  shows "\<exists>s'. expand_output it i s = Inr s' \<and> well_formed s'
     \<and> (s' = s
        \<or> (\<exists>V p P. inputs N = [V] \<and> type_of s V = Inr (ListType IntType) \<and> producer s V = Inr p
             \<and> node_at s p = Some P \<and> kind P \<noteq> prim_ListConstruct
             \<and> (\<forall>m. node_at s' m =
                   map_option (replace_input (outputs N ! i) (Suc (length (all_values s))))
                     (if m = length (all_nodes s)
                      then Some \<lparr>kind = onnx_Constant, inputs = [], outputs = [length (all_values s)],
                                 attrs = [(attr_value, ScalarTensorAttr (to_int i))]\<rparr>
                      else if m = Suc (length (all_nodes s))
                      then Some \<lparr>kind = onnx_Gather, inputs = [V, length (all_values s)],
                                 outputs = [Suc (length (all_values s))], attrs = []\<rparr>
                      else node_at s m))
             \<and> (\<forall>v. value_at s' v =
                   (if v = length (all_values s)
                    then Some \<lparr>type = TensorType None None, node = length (all_nodes s)\<rparr>
                    else if v = Suc (length (all_values s))
                    then Some \<lparr>type = TensorType None None, node = Suc (length (all_nodes s))\<rparr>
                    else value_at s v))
             \<and> block s' = insert_Block (Suc (length (all_nodes s))) it
                             (insert_Block (length (all_nodes s)) it (block s))
             \<and> length (all_nodes s') = length (all_nodes s) + 2
             \<and> length (all_values s') = length (all_values s) + 2))"
proof (cases "\<exists>V p P Vv. inputs N = [V] \<and> value_at s V = Some Vv \<and> type Vv = ListType IntType
               \<and> node_at s (node Vv) = Some P \<and> kind P \<noteq> prim_ListConstruct")
  case False
  have "\<forall>v \<in> set (inputs N). \<exists>Vv P. value_at s v = Some Vv \<and> node_at s (node Vv) = Some P"
    using read_owned [OF wf it] by blast
  from expand_output_skip [OF it i False this] wf show ?thesis by simp
next
  case True
  then obtain V P Vv where ins: "inputs N = [V]" and Vv: "value_at s V = Some Vv"
    and tV: "type Vv = ListType IntType" and P: "node_at s (node Vv) = Some P"
    and kP: "kind P \<noteq> prim_ListConstruct" by blast
  let ?p = "node Vv"
  let ?L = "length (all_values s)" and ?n0 = "length (all_nodes s)"
  let ?o = "outputs N ! i"
  let ?C = "\<lparr>kind = onnx_Constant, inputs = [], outputs = [?L],
             attrs = [(attr_value, ScalarTensorAttr (to_int i))]\<rparr>"
  let ?G = "\<lparr>kind = onnx_Gather, inputs = [V, ?L], outputs = [Suc ?L], attrs = []\<rparr>"
  have p: "producer s V = Inr ?p" using Vv by (simp add: producer_eq_Inr)
  have t: "type_of s V = Inr (ListType IntType)" using Vv tV by (simp add: type_of_eq_Inr)
  from expand_output_step [OF it ins i p P kP t bl]
  obtain s' where run: "expand_output it i s = Inr s'"
    and nodes: "\<forall>m. node_at s' m = map_option (replace_input ?o (Suc ?L))
                     (if m = ?n0 then Some ?C else if m = Suc ?n0 then Some ?G else node_at s m)"
    and vals: "\<forall>v. value_at s' v =
                   (if v = ?L then Some \<lparr>type = TensorType None None, node = ?n0\<rparr>
                    else if v = Suc ?L then Some \<lparr>type = TensorType None None, node = Suc ?n0\<rparr>
                    else value_at s v)"
    and blk: "block s' = insert_Block (Suc ?n0) it (insert_Block ?n0 it (block s))"
    and ln: "length (all_nodes s') = ?n0 + 2" and lv: "length (all_values s') = ?L + 2"
    by blast
  have leaf: "blocks s it = []" using well_formedD(3) [OF wf it] k by (simp add: schema_def)
  let ?b1 = "insert_Block ?n0 it (block s)"
  note i1 = wf_insert_block [OF wf bl leaf, of ?n0, simplified]
  have d0: "distinct (ids_Block (block s))" using wf by (simp add: well_formed_iff)
  have it1: "it \<in> set (ids_Block ?b1)" using i1(2) bl by (simp add: inBlockList_def)
  have nn: "Suc ?n0 \<notin> set (ids_Block ?b1)"
    using i1(2) ids_live_less [OF wf] by fastforce
  from ids_insert_leaf(1) [OF i1(3) i1(1), of "Suc ?n0"]
  obtain xs ys where e: "ids_Block ?b1 = xs @ it # ys"
    "ids_Block (insert_Block (Suc ?n0) it ?b1) = xs @ Suc ?n0 # it # ys" by blast
  have dist': "distinct (ids_Block (block s'))"
    unfolding blk using e i1(1) nn by auto
  have ids': "set (ids_Block (block s')) = insert (Suc ?n0) (insert ?n0 (set (ids_Block (block s))))"
    unfolding blk using e i1(2) by auto
  have oldnode: "\<And>x X. node_at s x = Some X \<Longrightarrow> node_at s' x = Some (replace_input ?o (Suc ?L) X)"
  proof -
    fix x X assume X: "node_at s x = Some X"
    then have "x < ?n0" by (rule node_at_less)
    with nodes X show "node_at s' x = Some (replace_input ?o (Suc ?L) X)" by simp
  qed
  have oldval: "\<And>v V. value_at s v = Some V \<Longrightarrow> value_at s' v = Some V"
  proof -
    fix v V assume V: "value_at s v = Some V"
    then have "v < ?L" by (rule value_at_less)
    with vals V show "value_at s' v = Some V" by simp
  qed
  have newC: "node_at s' ?n0 = Some ?C" using nodes by (simp add: replace_input_def)
  have newG: "node_at s' (Suc ?n0) = Some (replace_input ?o (Suc ?L) ?G)" using nodes by simp
  have inv: "\<And>x X'. node_at s' x = Some X' \<Longrightarrow>
      (x = ?n0 \<and> X' = ?C) \<or> (x = Suc ?n0 \<and> X' = replace_input ?o (Suc ?L) ?G)
      \<or> (\<exists>X. node_at s x = Some X \<and> X' = replace_input ?o (Suc ?L) X)"
    using nodes by (auto simp: replace_input_def split: if_splits)
  have oin: "?o \<in> set (outputs N)" using i by simp
  have wf': "well_formed s'"
    unfolding well_formed_iff
  proof (intro conjI ballI allI impI)
    show "distinct (ids_Block (block s'))" by (rule dist')
  next
    fix x assume "x \<in> set (ids_Block (block s'))"
    with ids' have "x = ?n0 \<or> x = Suc ?n0 \<or> x \<in> set (ids_Block (block s))" by auto
    moreover have "x \<in> set (ids_Block (block s)) \<Longrightarrow> node_at s x \<noteq> None"
      using wf by (simp add: well_formed_iff)
    ultimately show "node_at s' x \<noteq> None" using newC newG oldnode by auto
  next
    fix x X' assume X': "node_at s' x = Some X'"
    from inv [OF X'] show "owns_outputs s' x X'"
    proof (elim disjE conjE exE)
      assume "x = ?n0" "X' = ?C"
      with vals show ?thesis by (simp add: owns_outputs_iff)
    next
      assume "x = Suc ?n0" "X' = replace_input ?o (Suc ?L) ?G"
      with vals show ?thesis by (simp add: owns_outputs_iff replace_input_def)
    next
      fix X assume X: "node_at s x = Some X" "X' = replace_input ?o (Suc ?L) X"
      show ?thesis
        unfolding owns_outputs_iff
      proof
        fix v assume "v \<in> set (outputs X')"
        with X have "v \<in> set (outputs X)" by (simp add: replace_input_def)
        from owned [OF wf X(1) this] obtain V where "value_at s v = Some V" "node V = x" by blast
        with oldval show "\<exists>V. value_at s' v = Some V \<and> node V = x" by auto
      qed
    qed
  next
    fix x X' assume X': "node_at s' x = Some X'"
    have fresh: "\<exists>V P. value_at s' (Suc ?L) = Some V \<and> node_at s' (node V) = Some P
          \<and> Suc ?L \<in> set (outputs P)"
      using vals newG by (simp add: replace_input_def)
    have old: "\<exists>V P. value_at s' v = Some V \<and> node_at s' (node V) = Some P \<and> v \<in> set (outputs P)"
      if "node_at s y = Some Y" "v \<in> set (inputs Y)" for y Y v
    proof -
      from read_owned [OF wf that] obtain V Q where V: "value_at s v = Some V"
        and Q: "node_at s (node V) = Some Q" and vQ: "v \<in> set (outputs Q)" by blast
      from oldnode [OF Q] vQ oldval [OF V] show ?thesis by (auto simp: replace_input_def)
    qed
    have rep: "\<exists>V P. value_at s' v' = Some V \<and> node_at s' (node V) = Some P \<and> v' \<in> set (outputs P)"
      if "node_at s y = Some Y" "v' \<in> set (inputs (replace_input ?o (Suc ?L) Y))" for y Y v'
    proof -
      from that(2) obtain v where v: "v \<in> set (inputs Y)" "v' = (if v = ?o then Suc ?L else v)"
        by (auto simp: replace_input_def)
      show ?thesis
      proof (cases "v = ?o")
        case True
        with v fresh show ?thesis by simp
      next
        case False
        with v old [OF that(1) v(1)] show ?thesis by simp
      qed
    qed
    from inv [OF X'] show "reads_owned s' X'"
    proof (elim disjE conjE exE)
      assume "x = ?n0" "X' = ?C"
      then show ?thesis by (simp add: reads_owned_iff)
    next
      assume x: "x = Suc ?n0" "X' = replace_input ?o (Suc ?L) ?G"
      have a: "\<exists>Va P. value_at s' ?L = Some Va \<and> node_at s' (node Va) = Some P \<and> ?L \<in> set (outputs P)"
        using vals newC by simp
      have b: "\<exists>Va P. value_at s' (if V = ?o then Suc ?L else V) = Some Va
            \<and> node_at s' (node Va) = Some P \<and> (if V = ?o then Suc ?L else V) \<in> set (outputs P)"
      proof (cases "V = ?o")
        case True
        with fresh show ?thesis by simp
      next
        case False
        with old [OF it, of V] ins show ?thesis by simp
      qed
      have "?L \<noteq> ?o" using owned [OF wf it oin] by (auto dest: value_at_less)
      with a b x show ?thesis by (simp add: reads_owned_iff replace_input_def)
    next
      fix X assume X: "node_at s x = Some X" "X' = replace_input ?o (Suc ?L) X"
      with rep [OF X(1)] show ?thesis by (simp add: reads_owned_iff)
    qed
  next
    fix x X' assume X': "node_at s' x = Some X'"
    from inv [OF X'] show "schema s' x X'"
    proof (elim disjE conjE exE)
      assume "x = ?n0" "X' = ?C"
      then show ?thesis by (simp add: schema_def)
    next
      assume x: "x = Suc ?n0" "X' = replace_input ?o (Suc ?L) ?G"
      then show ?thesis by (simp add: schema_def replace_input_def)
    next
      fix X assume X: "node_at s x = Some X" "X' = replace_input ?o (Suc ?L) X"
      have sX: "schema s x X" using well_formedD(3) [OF wf X(1)] .
      have xlt: "x < ?n0" using X(1) by (rule node_at_less)
      have bl': "blocks s x = [] \<Longrightarrow> blocks s' x = []"
      proof -
        assume "blocks s x = []"
        then have "blocks_Block x (block s) \<in> {None, Some []}" by (simp add: blocks_empty_iff)
        then have "blocks_Block x ?b1 \<in> {None, Some []}" using xlt by (simp add: leaf_insert)
        then have "blocks_Block x (insert_Block (Suc ?n0) it ?b1) \<in> {None, Some []}"
          using xlt by (simp add: leaf_insert)
        then show "blocks s' x = []" unfolding blk [symmetric] by (simp add: blocks_empty_iff)
      qed
      have same: "kind X' = kind X" "length (inputs X') = length (inputs X)" "outputs X' = outputs X"
        using X by (simp_all add: replace_input_def)
      have c3: "kind X = aten_index_put_inplace \<Longrightarrow>
           (case producer s' (inputs X' ! 1) of
              Inl e \<Rightarrow> False
            | Inr p \<Rightarrow> (case node_at s' p of
                          None \<Rightarrow> False
                        | Some P \<Rightarrow> kind P \<noteq> prim_ListUnpack \<and> inputs P \<noteq> []))"
      proof -
        assume kX: "kind X = aten_index_put_inplace"
        with sX obtain q Q where l3: "3 \<le> length (inputs X)"
          and q: "producer s (inputs X ! 1) = Inr q"
          and Q: "node_at s q = Some Q" and kQ: "kind Q \<noteq> prim_ListUnpack" and iQ: "inputs Q \<noteq> []"
          by (auto simp: schema_def split: sum.splits option.splits)
        let ?v = "inputs X ! 1"
        have vin: "?v \<in> set (inputs X)" using l3 by simp
        from q obtain Vq where Vq: "value_at s ?v = Some Vq" "node Vq = q"
          by (auto simp: producer_eq_Inr)
        from read_owned [OF wf X(1) vin] Vq Q have vQ: "?v \<in> set (outputs Q)" by auto
        have "?v \<noteq> ?o"
          using owner_unique [OF wf Q vQ it] oin kQ k Q it by auto
        then have "inputs X' ! 1 = ?v" using X l3 by (simp add: replace_input_def)
        moreover have "producer s' ?v = Inr q" using oldval [OF Vq(1)] Vq(2) by (simp add: producer_eq_Inr)
        moreover have "node_at s' q = Some (replace_input ?o (Suc ?L) Q)" using oldnode [OF Q] .
        ultimately show ?thesis using kQ iQ by (simp add: replace_input_def)
      qed
      from sX same bl' c3 show ?thesis by (auto simp: schema_def)
    qed
  qed
  from run wf' ins t p P kP nodes vals blk ln lv show ?thesis
    by (intro exI [of _ s'] conjI disjI2 exI [of _ V] exI [of _ ?p] exI [of _ P]) simp_all
qed

text \<open>The graph after the step of pass 4 at a ListUnpack that matches.\<close>

lemma list_unpack_step:
  assumes "node_at g it = Some N" and "kind N = prim_ListUnpack" and "inputs N = [V]"
    and "type_of g V = Inr (ListType IntType)"
    and "producer g V = Inr p" and "node_at g p = Some P"
    and "inBlockList g it"
    and "\<forall>v \<in> set (outputs N). value_at g v \<noteq> None"
    and "distinct (outputs N)" and "V \<notin> set (outputs N)" and "length (outputs N) \<le> 2 ^ 31"
  shows "(kind P \<noteq> prim_ListConstruct \<longrightarrow>
           (\<exists>g'. fuseListAndListUnpack_at it g = Inr g'
             \<and> (\<forall>i<length (outputs N).
                   node_at g' (length (all_nodes g) + 2 * i) =
                     Some \<lparr>kind = onnx_Constant, inputs = [],
                           outputs = [length (all_values g) + 2 * i],
                           attrs = [(attr_value, ScalarTensorAttr (int i))]\<rparr>
                 \<and> node_at g' (length (all_nodes g) + 2 * i + 1) =
                     Some \<lparr>kind = onnx_Gather, inputs = [V, length (all_values g) + 2 * i],
                           outputs = [length (all_values g) + 2 * i + 1], attrs = []\<rparr>)
             \<and> block g' = fold (\<lambda>m. insert_Block m it)
                   [length (all_nodes g)..<length (all_nodes g) + 2 * length (outputs N)] (block g)
             \<and> (\<forall>m M. node_at g m = Some M \<longrightarrow>
                   node_at g' m = Some (M\<lparr>inputs := map (replaced_by (outputs N)
                       (map (\<lambda>i. length (all_values g) + 2 * i + 1) [0..<length (outputs N)]))
                       (inputs M)\<rparr>))
             \<and> (\<forall>i<length (outputs N).
                   replaced_by (outputs N)
                     (map (\<lambda>i. length (all_values g) + 2 * i + 1) [0..<length (outputs N)])
                     (outputs N ! i) = length (all_values g) + 2 * i + 1)
             \<and> (\<forall>v \<in> set (outputs N). uses g' v = [])
             \<and> node_at g' it = Some N
             \<and> (\<forall>v<length (all_values g). value_at g' v = value_at g v)
             \<and> (\<forall>v. length (all_values g) \<le> v \<and> v < length (all_values g) + 2 * length (outputs N)
                   \<longrightarrow> type_of g' v = Inr (TensorType None None))
             \<and> length (all_nodes g') = length (all_nodes g) + 2 * length (outputs N)
             \<and> length (all_values g') = length (all_values g) + 2 * length (outputs N)))
       \<and> (kind P = prim_ListConstruct \<longrightarrow> fuseListAndListUnpack_at it g = Inr g)"
proof (intro conjI impI)
  assume kP: "kind P \<noteq> prim_ListConstruct"
  let ?k = "length (outputs N)" and ?n0 = "length (all_nodes g)" and ?v0 = "length (all_values g)"
  let ?f = "\<lambda>i. ?v0 + 2 * i + 1"
  let ?s = "fold (\<lambda>(v, w) y. if y = v then w else y) (map (\<lambda>i. (outputs N ! i, ?f i)) [0..<?k])"
  let ?r = "replaced_by (outputs N) (map ?f [0..<?k])"
  let ?new = "\<lambda>m. if even (m - ?n0)
                  then \<lparr>kind = onnx_Constant, inputs = [], outputs = [?v0 + (m - ?n0)],
                        attrs = [(attr_value, ScalarTensorAttr (to_int ((m - ?n0) div 2)))]\<rparr>
                  else \<lparr>kind = onnx_Gather, inputs = [V, ?v0 + (m - ?n0) - 1],
                        outputs = [?v0 + (m - ?n0)], attrs = []\<rparr>"
  obtain g' where run: "for_each [0..<?k] (expand_output it) g = Inr g'"
    and nodes: "\<forall>m. node_at g' m =
            (if m < ?n0 then map_option (\<lambda>M. M\<lparr>inputs := map ?s (inputs M)\<rparr>) (node_at g m)
             else if m < ?n0 + 2 * ?k then Some (?new m) else None)"
    and blk: "block g' = fold (\<lambda>m. insert_Block m it) [?n0..<?n0 + 2 * ?k] (block g)"
    and vals: "\<forall>v. value_at g' v =
            (if v < ?v0 then value_at g v
             else if v < ?v0 + 2 * ?k
             then Some \<lparr>type = TensorType None None, node = ?n0 + (v - ?v0)\<rparr>
             else None)"
    and ln: "length (all_nodes g') = ?n0 + 2 * ?k"
    and lv: "length (all_values g') = ?v0 + 2 * ?k"
    using expand_loop [OF assms(1,3,5,6) kP assms(4,7,8,10), of ?k] by auto
  have r: "fuseListAndListUnpack_at it g = Inr g'"
    using assms(1,2) run by (simp add: fuseListAndListUnpack_at_def)
  have old: "v < ?v0" if "v \<in> set (outputs N)" for v
    using that assms(8) by (auto simp: value_at_def split: if_splits)
  have disj: "set (map ?f [0..<?k]) \<inter> set (outputs N) = {}"
    using old by fastforce
  have sr: "?s = ?r"
    using fold_replace_is_replaced_by [OF assms(9) _ disj] by (simp add: zip_map_upt)
  have hit: "?r (outputs N ! i) = ?f i" if "i < ?k" for i
    using replaced_by_nth [OF assms(9), of "map ?f [0..<?k]" i] that by simp
  have miss: "?r x = x" if "x \<notin> set (outputs N)" for x
    using replaced_by_other [of "outputs N" "map ?f [0..<?k]" x] that by simp
  have fresh: "?r x \<notin> set (outputs N)" for x
  proof (cases "x \<in> set (outputs N)")
    case True
    then obtain i where "i < ?k" "outputs N ! i = x" by (auto simp: in_set_conv_nth)
    with hit have "?r x = ?f i" by auto
    with old show ?thesis by fastforce
  next
    case False
    with miss show ?thesis by simp
  qed
  have a: "\<forall>i<?k. node_at g' (?n0 + 2 * i) =
                     Some \<lparr>kind = onnx_Constant, inputs = [], outputs = [?v0 + 2 * i],
                           attrs = [(attr_value, ScalarTensorAttr (int i))]\<rparr>
                 \<and> node_at g' (?n0 + 2 * i + 1) =
                     Some \<lparr>kind = onnx_Gather, inputs = [V, ?v0 + 2 * i],
                           outputs = [?v0 + 2 * i + 1], attrs = []\<rparr>"
  proof (intro allI impI)
    fix i assume i: "i < ?k"
    with assms(11) have "i < 2 ^ 31" by simp
    then have ti: "to_int i = int i" by (rule to_int_small)
    from i nodes ti show "node_at g' (?n0 + 2 * i) =
                     Some \<lparr>kind = onnx_Constant, inputs = [], outputs = [?v0 + 2 * i],
                           attrs = [(attr_value, ScalarTensorAttr (int i))]\<rparr>
                 \<and> node_at g' (?n0 + 2 * i + 1) =
                     Some \<lparr>kind = onnx_Gather, inputs = [V, ?v0 + 2 * i],
                           outputs = [?v0 + 2 * i + 1], attrs = []\<rparr>"
      by simp
  qed
  have c: "\<forall>m M. node_at g m = Some M \<longrightarrow>
                   node_at g' m = Some (M\<lparr>inputs := map ?r (inputs M)\<rparr>)"
  proof (intro allI impI)
    fix m M assume M: "node_at g m = Some M"
    then have "m < ?n0" by (rule node_at_less)
    with nodes have "node_at g' m = map_option (\<lambda>M. M\<lparr>inputs := map ?s (inputs M)\<rparr>) (node_at g m)"
      by simp
    with M sr show "node_at g' m = Some (M\<lparr>inputs := map ?r (inputs M)\<rparr>)"
      by simp
  qed
  have d: "\<forall>i<?k. ?r (outputs N ! i) = ?f i"
    using hit by simp
  have e: "\<forall>v \<in> set (outputs N). uses g' v = []"
  proof
    fix v assume v: "v \<in> set (outputs N)"
    show "uses g' v = []"
      unfolding uses_empty_iff
    proof (intro allI impI)
      fix m M assume A: "node_at g' m = Some M"
      show "v \<notin> set (inputs M)"
      proof (cases "m < ?n0")
        case True
        with A nodes sr obtain M0 where "M = M0\<lparr>inputs := map ?r (inputs M0)\<rparr>"
          by (cases "node_at g m") auto
        then have "inputs M = map ?r (inputs M0)" by simp
        then have "set (inputs M) \<inter> set (outputs N) = {}"
          using fresh by auto
        with v show ?thesis by blast
      next
        case False
        with A nodes have M: "m < ?n0 + 2 * ?k" "M = ?new m"
          by (auto split: if_splits)
        show ?thesis
        proof (cases "even (m - ?n0)")
          case True
          with M show ?thesis by simp
        next
          case odd: False
          then have "?v0 \<le> ?v0 + (m - ?n0) - 1" by (cases "m - ?n0") auto
          with old [OF v] have "v \<noteq> ?v0 + (m - ?n0) - 1" by linarith
          with odd M v assms(10) show ?thesis by auto
        qed
      qed
    qed
  qed
  have f: "node_at g' it = Some N"
  proof -
    have "map ?r (inputs N) = inputs N"
      using assms(3,10) miss by simp
    with c assms(1) show ?thesis by simp
  qed
  have vv: "\<forall>v<?v0. value_at g' v = value_at g v" using vals by simp
  have vt: "\<forall>v. ?v0 \<le> v \<and> v < ?v0 + 2 * ?k \<longrightarrow> type_of g' v = Inr (TensorType None None)"
    using vals by (simp add: type_of_eq_Inr)
  from r a blk c d e f vv vt ln lv
  show "\<exists>g'. fuseListAndListUnpack_at it g = Inr g'
             \<and> (\<forall>i<?k.
                   node_at g' (?n0 + 2 * i) =
                     Some \<lparr>kind = onnx_Constant, inputs = [], outputs = [?v0 + 2 * i],
                           attrs = [(attr_value, ScalarTensorAttr (int i))]\<rparr>
                 \<and> node_at g' (?n0 + 2 * i + 1) =
                     Some \<lparr>kind = onnx_Gather, inputs = [V, ?v0 + 2 * i],
                           outputs = [?v0 + 2 * i + 1], attrs = []\<rparr>)
             \<and> block g' = fold (\<lambda>m. insert_Block m it) [?n0..<?n0 + 2 * ?k] (block g)
             \<and> (\<forall>m M. node_at g m = Some M \<longrightarrow>
                   node_at g' m = Some (M\<lparr>inputs := map ?r (inputs M)\<rparr>))
             \<and> (\<forall>i<?k. ?r (outputs N ! i) = ?v0 + 2 * i + 1)
             \<and> (\<forall>v \<in> set (outputs N). uses g' v = [])
             \<and> node_at g' it = Some N
             \<and> (\<forall>v<length (all_values g). value_at g' v = value_at g v)
             \<and> (\<forall>v. length (all_values g) \<le> v \<and> v < length (all_values g) + 2 * length (outputs N)
                   \<longrightarrow> type_of g' v = Inr (TensorType None None))
             \<and> length (all_nodes g') = length (all_nodes g) + 2 * length (outputs N)
             \<and> length (all_values g') = length (all_values g) + 2 * length (outputs N)"
    by blast
next
  assume kP: "kind P = prim_ListConstruct"
  have "expand_output it i g = Inr g" if "i < length (outputs N)" for i
    using that assms(1,3,5,6) kP
    by (simp add: expand_output_def output_at_def sole_input_def)
  then have "for_each [0..<length (outputs N)] (expand_output it) g = Inr g"
    by (intro for_each_fixpoint) simp
  with assms(1,2) show "fuseListAndListUnpack_at it g = Inr g"
    by (simp add: fuseListAndListUnpack_at_def)
qed

lemma filter_ids_insert:
  "\<not> Q new \<Longrightarrow> filter Q (ids_Block (insert_Block new it b)) = filter Q (ids_Block b)"
  "\<not> Q new \<Longrightarrow> filter Q (ids_nodes (insert_nodes new it ns)) = filter Q (ids_nodes ns)"
  "\<not> Q new \<Longrightarrow> filter Q (ids_blocks (insert_blocks new it bs)) = filter Q (ids_blocks bs)"
  by (induction new it b and new it ns and new it bs
      rule: insert_Block_insert_nodes_insert_blocks.induct) auto

subsection \<open>Pass 4 as a whole\<close>

text \<open>What every round of the inner loop keeps, the step of the pass keeps.\<close>

lemma expand_step_invariant:
  assumes wf: "well_formed s" and y: "node_at s y = Some Y" and bl: "inBlockList s y"
    and inv: "Inv s"
    and pres: "\<And>t t' Yt i. well_formed t \<Longrightarrow> Inv t \<Longrightarrow> node_at t y = Some Yt \<Longrightarrow>
        kind Yt = prim_ListUnpack \<Longrightarrow> i < length (outputs Yt) \<Longrightarrow> inBlockList t y \<Longrightarrow>
        expand_output y i t = Inr t' \<Longrightarrow> Inv t'"
  shows "\<exists>s'. fuseListAndListUnpack_at y s = Inr s' \<and> well_formed s' \<and> Inv s'
      \<and> set (ids_Block (block s)) \<subseteq> set (ids_Block (block s'))"
proof (cases "kind Y = prim_ListUnpack")
  case False
  with y wf inv show ?thesis by (simp add: fuseListAndListUnpack_at_def)
next
  case True
  define I where "I = (\<lambda>(js::nat list) t. well_formed t \<and> Inv t
      \<and> (\<exists>Yt. node_at t y = Some Yt \<and> kind Yt = prim_ListUnpack \<and> outputs Yt = outputs Y)
      \<and> inBlockList t y \<and> (\<forall>j \<in> set js. j < length (outputs Y))
      \<and> set (ids_Block (block s)) \<subseteq> set (ids_Block (block t)))"
  have I0: "I [0..<length (outputs Y)] s"
    using wf inv y True bl by (simp add: I_def)
  have step: "\<exists>t'. expand_output y j t = Inr t' \<and> I js t'" if Ij: "I (j # js) t" for j js t
  proof -
    from Ij obtain Yt where wft: "well_formed t" and it: "Inv t" and Yt: "node_at t y = Some Yt"
      and kYt: "kind Yt = prim_ListUnpack" and oYt: "outputs Yt = outputs Y"
      and blt: "inBlockList t y" and j: "j < length (outputs Y)"
      and js: "\<forall>j \<in> set js. j < length (outputs Y)"
      and sub: "set (ids_Block (block s)) \<subseteq> set (ids_Block (block t))"
      by (auto simp: I_def)
    from j oYt have j': "j < length (outputs Yt)" by simp
    from expand_output_wf [OF wft Yt kYt j' blt]
    obtain t' where run: "expand_output y j t = Inr t'" and wf': "well_formed t'"
      and alt: "t' = t \<or> (\<exists>V.
              (\<forall>m. node_at t' m =
                   map_option (replace_input (outputs Yt ! j) (Suc (length (all_values t))))
                     (if m = length (all_nodes t)
                      then Some \<lparr>kind = onnx_Constant, inputs = [], outputs = [length (all_values t)],
                                 attrs = [(attr_value, ScalarTensorAttr (to_int j))]\<rparr>
                      else if m = Suc (length (all_nodes t))
                      then Some \<lparr>kind = onnx_Gather, inputs = [V, length (all_values t)],
                                 outputs = [Suc (length (all_values t))], attrs = []\<rparr>
                      else node_at t m))
             \<and> block t' = insert_Block (Suc (length (all_nodes t))) y
                             (insert_Block (length (all_nodes t)) y (block t)))"
      by blast
    have inv': "Inv t'" using pres [OF wft it Yt kYt j' blt run] .
    from alt have "(\<exists>Yt'. node_at t' y = Some Yt' \<and> kind Yt' = prim_ListUnpack \<and> outputs Yt' = outputs Y)
        \<and> set (ids_Block (block t)) \<subseteq> set (ids_Block (block t'))"
    proof
      assume "t' = t"
      with Yt kYt oYt show ?thesis by auto
    next
      assume "\<exists>V.
              (\<forall>m. node_at t' m =
                   map_option (replace_input (outputs Yt ! j) (Suc (length (all_values t))))
                     (if m = length (all_nodes t)
                      then Some \<lparr>kind = onnx_Constant, inputs = [], outputs = [length (all_values t)],
                                 attrs = [(attr_value, ScalarTensorAttr (to_int j))]\<rparr>
                      else if m = Suc (length (all_nodes t))
                      then Some \<lparr>kind = onnx_Gather, inputs = [V, length (all_values t)],
                                 outputs = [Suc (length (all_values t))], attrs = []\<rparr>
                      else node_at t m))
             \<and> block t' = insert_Block (Suc (length (all_nodes t))) y
                             (insert_Block (length (all_nodes t)) y (block t))"
      then obtain V where nodes: "\<forall>m. node_at t' m =
                   map_option (replace_input (outputs Yt ! j) (Suc (length (all_values t))))
                     (if m = length (all_nodes t)
                      then Some \<lparr>kind = onnx_Constant, inputs = [], outputs = [length (all_values t)],
                                 attrs = [(attr_value, ScalarTensorAttr (to_int j))]\<rparr>
                      else if m = Suc (length (all_nodes t))
                      then Some \<lparr>kind = onnx_Gather, inputs = [V, length (all_values t)],
                                 outputs = [Suc (length (all_values t))], attrs = []\<rparr>
                      else node_at t m)"
        and blk: "block t' = insert_Block (Suc (length (all_nodes t))) y
                             (insert_Block (length (all_nodes t)) y (block t))" by blast
      have "y < length (all_nodes t)" using Yt by (rule node_at_less)
      with nodes Yt have "node_at t' y = Some (replace_input (outputs Yt ! j) (Suc (length (all_values t))) Yt)"
        by simp
      moreover have "set (ids_Block (block t)) \<subseteq> set (ids_Block (block t'))"
        unfolding blk by (auto simp: ids_insert)
      ultimately show ?thesis using kYt oYt by (simp add: replace_input_def)
    qed
    with wf' inv' blt js sub have "I js t'" by (auto simp: I_def inBlockList_def)
    with run show ?thesis by blast
  qed
  from for_each_invariant [of I "[0..<length (outputs Y)]" s "expand_output y", OF I0 step]
  obtain s' where "for_each [0..<length (outputs Y)] (expand_output y) s = Inr s'" "I [] s'" by blast
  with y True show ?thesis by (auto simp: fuseListAndListUnpack_at_def I_def)
qed

lemma producer_kept:
  assumes wf: "well_formed t" and it: "node_at t it = Some N" and ins: "inputs N = [V]"
    and val: "value_at t V = value_at g V" and own: "producer g V = Inr p"
    and P: "node_at t p = Some P'" and nP: "\<not> int_list_unpack t P'"
    and y: "node_at t y = Some Yt" and kY: "kind Yt = prim_ListUnpack"
    and W: "inputs Yt = [W]" and tW: "type_of t W = Inr (ListType IntType)"
    and nodes: "\<forall>m. node_at t' m =
                   map_option (replace_input ov (Suc (length (all_values t))))
                     (if m = length (all_nodes t) then Some C
                      else if m = Suc (length (all_nodes t)) then Some G
                      else node_at t m)"
    and vals: "\<forall>v. value_at t' v =
                   (if v = length (all_values t)
                    then Some \<lparr>type = TensorType None None, node = length (all_nodes t)\<rparr>
                    else if v = Suc (length (all_values t))
                    then Some \<lparr>type = TensorType None None, node = Suc (length (all_nodes t))\<rparr>
                    else value_at t v)"
    and ov: "ov \<in> set (outputs Yt)"
  shows "V \<noteq> ov" and "node_at t' it = Some N" and "value_at t' V = value_at g V"
    and "\<exists>P''. node_at t' p = Some P'' \<and> kind P'' = kind P' \<and> \<not> int_list_unpack t' P''"
proof -
  from own obtain Vv where Vv: "value_at g V = Some Vv" "node Vv = p"
    by (auto simp: producer_eq_Inr)
  show ne: "V \<noteq> ov"
  proof
    assume "V = ov"
    with ov owned [OF wf y, of V] val Vv have "p = y" by auto
    with P y have "P' = Yt" by simp
    with nP kY W tW show False by (simp add: int_list_unpack_def)
  qed
  have "it < length (all_nodes t)" using it by (rule node_at_less)
  with nodes it ins ne show "node_at t' it = Some N"
    by (simp add: replace_input_def)
  from val Vv have "V < length (all_values t)" by (auto dest: value_at_less)
  with vals val show "value_at t' V = value_at g V" by simp
  have plt: "p < length (all_nodes t)" using P by (rule node_at_less)
  let ?P'' = "replace_input ov (Suc (length (all_values t))) P'"
  have P'': "node_at t' p = Some ?P''" using nodes P plt by simp
  have "\<not> int_list_unpack t' ?P''"
  proof
    assume a: "int_list_unpack t' ?P''"
    then have k: "kind P' = prim_ListUnpack" by (simp add: int_list_unpack_def replace_input_def)
    from a obtain W' where W': "inputs ?P'' = [W']" "type_of t' W' = Inr (ListType IntType)"
      by (auto simp: int_list_unpack_def split: list.splits)
    then obtain W0 where W0: "inputs P' = [W0]" "W' = (if W0 = ov then Suc (length (all_values t)) else W0)"
      by (auto simp: replace_input_def)
    show False
    proof (cases "W0 = ov")
      case True
      with W0 W' vals show False by (simp add: type_of_eq_Inr)
    next
      case False
      from read_owned [OF wf P, of W0] W0 have "W0 < length (all_values t)"
        by (auto dest: value_at_less)
      with False W0 W' vals have "type_of t W0 = Inr (ListType IntType)"
        by (simp add: type_of_eq_Inr)
      with k W0 nP show False by (simp add: int_list_unpack_def)
    qed
  qed
  with P'' show "\<exists>P''. node_at t' p = Some P'' \<and> kind P'' = kind P' \<and> \<not> int_list_unpack t' P''"
    by (auto simp: replace_input_def)
qed

lemma expand_output_cases:
  assumes wf: "well_formed t" and y: "node_at t y = Some Yt" and kY: "kind Yt = prim_ListUnpack"
    and i: "i < length (outputs Yt)" and bl: "inBlockList t y"
    and run: "expand_output y i t = Inr t'"
  shows "t' = t
        \<or> (\<exists>W q Q. inputs Yt = [W] \<and> type_of t W = Inr (ListType IntType) \<and> producer t W = Inr q
             \<and> node_at t q = Some Q \<and> kind Q \<noteq> prim_ListConstruct
             \<and> (\<forall>m. node_at t' m =
                   map_option (replace_input (outputs Yt ! i) (Suc (length (all_values t))))
                     (if m = length (all_nodes t)
                      then Some \<lparr>kind = onnx_Constant, inputs = [], outputs = [length (all_values t)],
                                 attrs = [(attr_value, ScalarTensorAttr (to_int i))]\<rparr>
                      else if m = Suc (length (all_nodes t))
                      then Some \<lparr>kind = onnx_Gather, inputs = [W, length (all_values t)],
                                 outputs = [Suc (length (all_values t))], attrs = []\<rparr>
                      else node_at t m))
             \<and> (\<forall>v. value_at t' v =
                   (if v = length (all_values t)
                    then Some \<lparr>type = TensorType None None, node = length (all_nodes t)\<rparr>
                    else if v = Suc (length (all_values t))
                    then Some \<lparr>type = TensorType None None, node = Suc (length (all_nodes t))\<rparr>
                    else value_at t v))
             \<and> block t' = insert_Block (Suc (length (all_nodes t))) y
                             (insert_Block (length (all_nodes t)) y (block t))
             \<and> length (all_nodes t') = length (all_nodes t) + 2
             \<and> length (all_values t') = length (all_values t) + 2)"
  using expand_output_wf [OF wf y kY i bl] run by auto

lemma unexpanded_kept:
  assumes wf: "well_formed t" and un: "unexpanded g it N V p kP t"
    and ins: "inputs N = [V]" and own: "producer g V = Inr p"
    and y: "node_at t y = Some Yt" and kY: "kind Yt = prim_ListUnpack"
    and i: "i < length (outputs Yt)" and bl: "inBlockList t y" and yit: "y \<noteq> it"
    and run: "expand_output y i t = Inr t'"
  shows "unexpanded g it N V p kP t'"
proof -
  from expand_output_cases [OF wf y kY i bl run]
  show ?thesis
  proof
    assume "t' = t"
    with un show ?thesis by simp
  next
    assume "\<exists>W q Q. inputs Yt = [W] \<and> type_of t W = Inr (ListType IntType) \<and> producer t W = Inr q
             \<and> node_at t q = Some Q \<and> kind Q \<noteq> prim_ListConstruct
             \<and> (\<forall>m. node_at t' m =
                   map_option (replace_input (outputs Yt ! i) (Suc (length (all_values t))))
                     (if m = length (all_nodes t)
                      then Some \<lparr>kind = onnx_Constant, inputs = [], outputs = [length (all_values t)],
                                 attrs = [(attr_value, ScalarTensorAttr (to_int i))]\<rparr>
                      else if m = Suc (length (all_nodes t))
                      then Some \<lparr>kind = onnx_Gather, inputs = [W, length (all_values t)],
                                 outputs = [Suc (length (all_values t))], attrs = []\<rparr>
                      else node_at t m))
             \<and> (\<forall>v. value_at t' v =
                   (if v = length (all_values t)
                    then Some \<lparr>type = TensorType None None, node = length (all_nodes t)\<rparr>
                    else if v = Suc (length (all_values t))
                    then Some \<lparr>type = TensorType None None, node = Suc (length (all_nodes t))\<rparr>
                    else value_at t v))
             \<and> block t' = insert_Block (Suc (length (all_nodes t))) y
                             (insert_Block (length (all_nodes t)) y (block t))
             \<and> length (all_nodes t') = length (all_nodes t) + 2
             \<and> length (all_values t') = length (all_values t) + 2"
    then obtain W where W: "inputs Yt = [W]" and tW: "type_of t W = Inr (ListType IntType)"
      and nodes: "\<forall>m. node_at t' m =
                   map_option (replace_input (outputs Yt ! i) (Suc (length (all_values t))))
                     (if m = length (all_nodes t)
                      then Some \<lparr>kind = onnx_Constant, inputs = [], outputs = [length (all_values t)],
                                 attrs = [(attr_value, ScalarTensorAttr (to_int i))]\<rparr>
                      else if m = Suc (length (all_nodes t))
                      then Some \<lparr>kind = onnx_Gather, inputs = [W, length (all_values t)],
                                 outputs = [Suc (length (all_values t))], attrs = []\<rparr>
                      else node_at t m)"
      and vals: "\<forall>v. value_at t' v =
                   (if v = length (all_values t)
                    then Some \<lparr>type = TensorType None None, node = length (all_nodes t)\<rparr>
                    else if v = Suc (length (all_values t))
                    then Some \<lparr>type = TensorType None None, node = Suc (length (all_nodes t))\<rparr>
                    else value_at t v)"
      and blk: "block t' = insert_Block (Suc (length (all_nodes t))) y
                             (insert_Block (length (all_nodes t)) y (block t))"
      and ln: "length (all_nodes t') = length (all_nodes t) + 2"
      and lv: "length (all_values t') = length (all_values t) + 2"
      by blast
    from un obtain P' where it: "node_at t it = Some N" and val: "value_at t V = value_at g V"
      and lens: "length (all_nodes g) \<le> length (all_nodes t)" "length (all_values g) \<le> length (all_values t)"
      and P: "node_at t p = Some P'" and kP: "kind P' = kP" and nP: "\<not> int_list_unpack t P'"
      and rk: "reads_kept g N t"
      by (auto simp: unexpanded_def)
    let ?o = "outputs Yt ! i"
    have oin: "?o \<in> set (outputs Yt)" using i by simp
    note pk = producer_kept [OF wf it ins val own P nP y kY W tW nodes vals oin]
    have "reads_kept g N t'"
      unfolding reads_kept_def
    proof (intro allI impI)
      fix x X j assume a: "node_at g x = Some X \<and> j < length (inputs X) \<and> inputs X ! j \<in> set (outputs N)"
      with rk obtain X' where X': "node_at t x = Some X'" "j < length (inputs X')"
        "inputs X' ! j = inputs X ! j" unfolding reads_kept_def by blast
      have "inputs X ! j \<noteq> ?o"
        using owner_unique [OF wf it _ y oin] a yit by auto
      moreover have "x < length (all_nodes t)" using X'(1) by (rule node_at_less)
      ultimately show "\<exists>X'. node_at t' x = Some X' \<and> j < length (inputs X') \<and> inputs X' ! j = inputs X ! j"
        using nodes X' by (simp add: replace_input_def)
    qed
    with pk kP lens ln lv show ?thesis by (auto simp: unexpanded_def)
  qed
qed

lemma expanded_kept:
  assumes wf: "well_formed t" and ex: "expanded g it N V p kP c0 L t"
    and ins: "inputs N = [V]" and own: "producer g V = Inr p"
    and y: "node_at t y = Some Yt" and kY: "kind Yt = prim_ListUnpack"
    and i: "i < length (outputs Yt)" and bl: "inBlockList t y" and yit: "y \<noteq> it"
    and yold: "y < length (all_nodes g)"
    and run: "expand_output y i t = Inr t'"
  shows "expanded g it N V p kP c0 L t'"
proof -
  from expand_output_cases [OF wf y kY i bl run]
  show ?thesis
  proof
    assume "t' = t"
    with ex show ?thesis by simp
  next
    assume "\<exists>W q Q. inputs Yt = [W] \<and> type_of t W = Inr (ListType IntType) \<and> producer t W = Inr q
             \<and> node_at t q = Some Q \<and> kind Q \<noteq> prim_ListConstruct
             \<and> (\<forall>m. node_at t' m =
                   map_option (replace_input (outputs Yt ! i) (Suc (length (all_values t))))
                     (if m = length (all_nodes t)
                      then Some \<lparr>kind = onnx_Constant, inputs = [], outputs = [length (all_values t)],
                                 attrs = [(attr_value, ScalarTensorAttr (to_int i))]\<rparr>
                      else if m = Suc (length (all_nodes t))
                      then Some \<lparr>kind = onnx_Gather, inputs = [W, length (all_values t)],
                                 outputs = [Suc (length (all_values t))], attrs = []\<rparr>
                      else node_at t m))
             \<and> (\<forall>v. value_at t' v =
                   (if v = length (all_values t)
                    then Some \<lparr>type = TensorType None None, node = length (all_nodes t)\<rparr>
                    else if v = Suc (length (all_values t))
                    then Some \<lparr>type = TensorType None None, node = Suc (length (all_nodes t))\<rparr>
                    else value_at t v))
             \<and> block t' = insert_Block (Suc (length (all_nodes t))) y
                             (insert_Block (length (all_nodes t)) y (block t))
             \<and> length (all_nodes t') = length (all_nodes t) + 2
             \<and> length (all_values t') = length (all_values t) + 2"
    then obtain W where W: "inputs Yt = [W]" and tW: "type_of t W = Inr (ListType IntType)"
      and nodes: "\<forall>m. node_at t' m =
                   map_option (replace_input (outputs Yt ! i) (Suc (length (all_values t))))
                     (if m = length (all_nodes t)
                      then Some \<lparr>kind = onnx_Constant, inputs = [], outputs = [length (all_values t)],
                                 attrs = [(attr_value, ScalarTensorAttr (to_int i))]\<rparr>
                      else if m = Suc (length (all_nodes t))
                      then Some \<lparr>kind = onnx_Gather, inputs = [W, length (all_values t)],
                                 outputs = [Suc (length (all_values t))], attrs = []\<rparr>
                      else node_at t m)"
      and vals: "\<forall>v. value_at t' v =
                   (if v = length (all_values t)
                    then Some \<lparr>type = TensorType None None, node = length (all_nodes t)\<rparr>
                    else if v = Suc (length (all_values t))
                    then Some \<lparr>type = TensorType None None, node = Suc (length (all_nodes t))\<rparr>
                    else value_at t v)"
      and blk: "block t' = insert_Block (Suc (length (all_nodes t))) y
                             (insert_Block (length (all_nodes t)) y (block t))"
      and ln: "length (all_nodes t') = length (all_nodes t) + 2"
      and lv: "length (all_values t') = length (all_values t) + 2"
      by blast
    let ?k = "length (outputs N)"
    let ?n0 = "length (all_nodes t)" and ?L0 = "length (all_values t)"
    from ex obtain P' where it: "node_at t it = Some N" and val: "value_at t V = value_at g V"
      and b1: "length (all_nodes g) \<le> c0" and b2: "length (all_values g) \<le> L"
      and b3: "c0 + 2 * ?k \<le> ?n0" and b4: "L + 2 * ?k \<le> ?L0"
      and P: "node_at t p = Some P'" and kP: "kind P' = kP" and nP: "\<not> int_list_unpack t P'"
      and new: "\<forall>i<?k.
            node_at t (c0 + 2 * i) =
              Some \<lparr>kind = onnx_Constant, inputs = [], outputs = [L + 2 * i],
                    attrs = [(attr_value, ScalarTensorAttr (int i))]\<rparr>
          \<and> node_at t (c0 + 2 * i + 1) =
              Some \<lparr>kind = onnx_Gather, inputs = [V, L + 2 * i], outputs = [L + 2 * i + 1], attrs = []\<rparr>"
      and rd: "\<forall>x X j i. node_at g x = Some X \<and> j < length (inputs X) \<and> i < ?k
            \<and> inputs X ! j = outputs N ! i \<longrightarrow>
            (\<exists>X'. node_at t x = Some X' \<and> j < length (inputs X') \<and> inputs X' ! j = L + 2 * i + 1)"
      and nu: "\<forall>v \<in> set (outputs N). uses t v = []"
      and fl: "filter (\<lambda>x. x \<in> set ([c0..<c0 + 2 * ?k] @ [it])) (ids_Block (block t))
          = [c0..<c0 + 2 * ?k] @ [it]"
      by (auto simp: expanded_def)
    let ?o = "outputs Yt ! i"
    have oin: "?o \<in> set (outputs Yt)" using i by simp
    note pk = producer_kept [OF wf it ins val own P nP y kY W tW nodes vals oin]
    have yc: "y < c0" using yold b1 by simp
    have new': "\<forall>i<?k.
            node_at t' (c0 + 2 * i) =
              Some \<lparr>kind = onnx_Constant, inputs = [], outputs = [L + 2 * i],
                    attrs = [(attr_value, ScalarTensorAttr (int i))]\<rparr>
          \<and> node_at t' (c0 + 2 * i + 1) =
              Some \<lparr>kind = onnx_Gather, inputs = [V, L + 2 * i], outputs = [L + 2 * i + 1], attrs = []\<rparr>"
    proof (intro allI impI)
      fix j assume j: "j < ?k"
      with new have C: "node_at t (c0 + 2 * j) =
              Some \<lparr>kind = onnx_Constant, inputs = [], outputs = [L + 2 * j],
                    attrs = [(attr_value, ScalarTensorAttr (int j))]\<rparr>"
        and G: "node_at t (c0 + 2 * j + 1) =
              Some \<lparr>kind = onnx_Gather, inputs = [V, L + 2 * j], outputs = [L + 2 * j + 1], attrs = []\<rparr>"
        by simp_all
      have "L + 2 * j \<noteq> ?o"
        using owner_unique [OF wf C _ y oin] yc by auto
      moreover have "c0 + 2 * j < ?n0" "c0 + 2 * j + 1 < ?n0" using j b3 by simp_all
      ultimately show "node_at t' (c0 + 2 * j) =
              Some \<lparr>kind = onnx_Constant, inputs = [], outputs = [L + 2 * j],
                    attrs = [(attr_value, ScalarTensorAttr (int j))]\<rparr>
          \<and> node_at t' (c0 + 2 * j + 1) =
              Some \<lparr>kind = onnx_Gather, inputs = [V, L + 2 * j], outputs = [L + 2 * j + 1], attrs = []\<rparr>"
        using nodes C G pk(1) by (simp add: replace_input_def)
    qed
    have rd': "\<forall>x X j i. node_at g x = Some X \<and> j < length (inputs X) \<and> i < ?k
            \<and> inputs X ! j = outputs N ! i \<longrightarrow>
            (\<exists>X'. node_at t' x = Some X' \<and> j < length (inputs X') \<and> inputs X' ! j = L + 2 * i + 1)"
    proof (intro allI impI)
      fix x X j i' assume a: "node_at g x = Some X \<and> j < length (inputs X) \<and> i' < ?k
            \<and> inputs X ! j = outputs N ! i'"
      with rd obtain X' where X': "node_at t x = Some X'" "j < length (inputs X')"
        "inputs X' ! j = L + 2 * i' + 1" by blast
      from a new have G: "node_at t (c0 + 2 * i' + 1) =
              Some \<lparr>kind = onnx_Gather, inputs = [V, L + 2 * i'], outputs = [L + 2 * i' + 1], attrs = []\<rparr>"
        by simp
      have "L + 2 * i' + 1 \<noteq> ?o"
        using owner_unique [OF wf G _ y oin] yc by auto
      moreover have "x < ?n0" using X'(1) by (rule node_at_less)
      ultimately show "\<exists>X'. node_at t' x = Some X' \<and> j < length (inputs X') \<and> inputs X' ! j = L + 2 * i' + 1"
        using nodes X' by (simp add: replace_input_def)
    qed
    have nu': "\<forall>v \<in> set (outputs N). uses t' v = []"
    proof
      fix v assume v: "v \<in> set (outputs N)"
      with nu have u0: "uses t v = []" by simp
      from owned [OF wf it v] have vlt: "v < ?L0" by (auto dest: value_at_less)
      have vW: "v \<noteq> W"
      proof
        assume "v = W"
        with W y u0 show False by (fastforce simp: uses_empty_iff)
      qed
      show "uses t' v = []"
        unfolding uses_empty_iff
      proof (intro allI impI)
        fix m M assume M: "node_at t' m = Some M"
        from M nodes consider
            (c) "M = replace_input ?o (Suc ?L0) \<lparr>kind = onnx_Constant, inputs = [], outputs = [?L0],
                                 attrs = [(attr_value, ScalarTensorAttr (to_int i))]\<rparr>"
          | (g) "M = replace_input ?o (Suc ?L0) \<lparr>kind = onnx_Gather, inputs = [W, ?L0],
                                 outputs = [Suc ?L0], attrs = []\<rparr>"
          | (o) M0 where "node_at t m = Some M0" "M = replace_input ?o (Suc ?L0) M0"
          by (auto split: if_splits)
        then show "v \<notin> set (inputs M)"
        proof cases
          case c
          then show ?thesis by (simp add: replace_input_def)
        next
          case g
          with vlt vW show ?thesis by (auto simp: replace_input_def)
        next
          case o
          with u0 have "v \<notin> set (inputs M0)" by (auto simp: uses_empty_iff)
          with o vlt show ?thesis by (auto simp: replace_input_def)
        qed
      qed
    qed
    have itlt: "it < ?n0" using it by (rule node_at_less)
    have fl': "filter (\<lambda>x. x \<in> set ([c0..<c0 + 2 * ?k] @ [it])) (ids_Block (block t'))
          = [c0..<c0 + 2 * ?k] @ [it]"
      unfolding blk using fl b3 itlt by (simp add: filter_ids_insert)
    from pk kP b1 b2 b3 b4 ln lv new' rd' nu' fl' show ?thesis
      by (auto simp: expanded_def)
  qed
qed

lemma ids_fold_insert:
  assumes "blocks_Block it b = Some []" and "distinct (ids_Block b)"
    and "\<forall>m \<in> set ms. m \<notin> set (ids_Block b)" and "distinct ms"
    and "ids_Block b = xs @ it # ys"
  shows "ids_Block (fold (\<lambda>m. insert_Block m it) ms b) = xs @ ms @ it # ys"
  using assms
proof (induction ms arbitrary: b xs)
  case Nil
  then show ?case by simp
next
  case (Cons m ms)
  from ids_insert_leaf(1) [OF Cons.prems(1,2), of m]
  obtain xs' ys' where e: "ids_Block b = xs' @ it # ys'"
    "ids_Block (insert_Block m it b) = xs' @ m # it # ys'" by blast
  from Cons.prems(2,5) have "it \<notin> set xs" "it \<notin> set ys" by auto
  with e(1) Cons.prems(5) have "xs' = xs \<and> ys' = ys"
    by (metis append_Cons_eq_iff)
  with e have i: "ids_Block (insert_Block m it b) = (xs @ [m]) @ it # ys" by simp
  have mit: "m \<noteq> it" using Cons.prems(3,5) by auto
  have b1: "blocks_Block it (insert_Block m it b) = Some []"
    using Cons.prems(1) mit by (simp add: blocks_insert)
  have d1: "distinct (ids_Block (insert_Block m it b))"
    using i Cons.prems(2,3,5) by auto
  have f1: "\<forall>x \<in> set ms. x \<notin> set (ids_Block (insert_Block m it b))"
    using i Cons.prems(3,4,5) by auto
  from Cons.IH [OF b1 d1 f1 _ i] Cons.prems(4) show ?case by simp
qed

lemma filter_segment:
  assumes "distinct (xs @ ms @ it # ys)"
  shows "filter (\<lambda>x. x \<in> set (ms @ [it])) (xs @ ms @ it # ys) = ms @ [it]"
proof -
  have a: "filter (\<lambda>x. x \<in> set (ms @ [it])) xs = []"
    using assms by (auto simp: filter_empty_conv)
  have b: "filter (\<lambda>x. x \<in> set (ms @ [it])) ys = []"
    using assms by (auto simp: filter_empty_conv)
  have c: "filter (\<lambda>x. x \<in> set (ms @ [it])) ms = ms"
    by (simp add: filter_id_conv)
  from a b c show ?thesis by simp
qed

text \<open>
  A ListUnpack that matches in the graph still matches when the traversal reaches it,
  and what the step at it has made stays.
\<close>

lemma expand_pass_expanded:
  assumes wf: "well_formed g" and itin: "it \<in> set (ids_Block (block g))"
    and it: "node_at g it = Some N" and kN: "kind N = prim_ListUnpack" and ins: "inputs N = [V]"
    and tV: "type_of g V = Inr (ListType IntType)"
    and own: "producer g V = Inr p" and P: "node_at g p = Some P"
    and dN: "distinct (outputs N)" and nP: "\<not> int_list_unpack g P"
    and kP: "kind P \<noteq> prim_ListConstruct"
  shows "\<exists>g' c0 L. fuseListAndListUnpack (block g) g = Inr g' \<and> well_formed g'
      \<and> expanded g it N V p (kind P) c0 L g'"
proof -
  let ?ids = "ids_Block (block g)"
  let ?k = "length (outputs N)"
  from wf have dist: "distinct ?ids" by (simp add: well_formed_iff)
  from split_list_first [OF itin] obtain pre post where ids: "?ids = pre @ it # post"
    and npre: "it \<notin> set pre" by blast
  define J where "J = (\<lambda>(ys::nat list) s. well_formed s \<and> set ys \<subseteq> set (ids_Block (block s))
      \<and> distinct ys \<and> (\<forall>y \<in> set ys. y < length (all_nodes g))
      \<and> unexpanded g it N V p (kind P) s)"
  define K where "K = (\<lambda>(ys::nat list) s. well_formed s \<and> set ys \<subseteq> set (ids_Block (block s))
      \<and> it \<notin> set ys \<and> (\<forall>y \<in> set ys. y < length (all_nodes g))
      \<and> (\<exists>c0 L. expanded g it N V p (kind P) c0 L s))"
  have un0: "unexpanded g it N V p (kind P) g"
    using it P nP by (auto simp: unexpanded_def reads_kept_def)
  have old: "\<forall>y \<in> set ?ids. y < length (all_nodes g)"
    using ids_live_less [OF wf] by blast
  have J0: "J (pre @ it # post) g"
    using wf dist un0 old ids by (auto simp: J_def)
  have before: "\<exists>s'. fuseListAndListUnpack_at y s = Inr s' \<and> J ys s'"
    if Jy: "J (y # ys) s" and yn: "y \<noteq> it" for y ys s
  proof -
    from Jy have wfs: "well_formed s" and sub: "set (y # ys) \<subseteq> set (ids_Block (block s))"
      and dys: "distinct (y # ys)" and oldy: "\<forall>y \<in> set (y # ys). y < length (all_nodes g)"
      and un: "unexpanded g it N V p (kind P) s"
      by (simp_all add: J_def)
    from sub have bl: "inBlockList s y" by (simp add: inBlockList_def)
    with wfs obtain Y where y: "node_at s y = Some Y" by (auto simp: well_formed_iff inBlockList_def)
    from expand_step_invariant [of s y Y "unexpanded g it N V p (kind P)", OF wfs y bl un]
      unexpanded_kept [OF _ _ ins own _ _ _ _ yn]
    obtain s' where "fuseListAndListUnpack_at y s = Inr s'" "well_formed s'"
      "unexpanded g it N V p (kind P) s'" "set (ids_Block (block s)) \<subseteq> set (ids_Block (block s'))"
      by blast
    with sub dys oldy show ?thesis by (auto simp: J_def)
  qed
  have at: "\<exists>s'. fuseListAndListUnpack_at it s = Inr s' \<and> K ys s'" if Jn: "J (it # ys) s" for ys s
  proof -
    from Jn have wfs: "well_formed s" and sub: "set (it # ys) \<subseteq> set (ids_Block (block s))"
      and dys: "distinct (it # ys)" and oldy: "\<forall>y \<in> set (it # ys). y < length (all_nodes g)"
      and un: "unexpanded g it N V p (kind P) s"
      by (simp_all add: J_def)
    from un obtain P' where its: "node_at s it = Some N" and val: "value_at s V = value_at g V"
      and lens: "length (all_nodes g) \<le> length (all_nodes s)" "length (all_values g) \<le> length (all_values s)"
      and Ps: "node_at s p = Some P'" and kP': "kind P' = kind P" and nP': "\<not> int_list_unpack s P'"
      and rk: "reads_kept g N s"
      by (auto simp: unexpanded_def)
    let ?c0 = "length (all_nodes s)" and ?L = "length (all_values s)"
    let ?news = "map (\<lambda>i. ?L + 2 * i + 1) [0..<?k]"
    let ?r = "replaced_by (outputs N) ?news"
    from sub have bl: "inBlockList s it" by (simp add: inBlockList_def)
    have ts: "type_of s V = Inr (ListType IntType)"
      using tV val by (simp add: type_of_eq_Inr)
    have ps: "producer s V = Inr p" using own val by (simp add: producer_eq_Inr)
    have live: "\<forall>v \<in> set (outputs N). value_at s v \<noteq> None"
      using owned [OF wfs its] by auto
    have VN: "V \<notin> set (outputs N)"
    proof
      assume "V \<in> set (outputs N)"
      with owned [OF wfs its, of V] ps have "p = it" by (auto simp: producer_eq_Inr)
      with Ps its have "P' = N" by simp
      with nP' kN ins ts show False by (simp add: int_list_unpack_def)
    qed
    have sch: "schema s it N" using well_formedD(3) [OF wfs its] .
    with kN have "int ?k < 2 ^ 31" and leaf: "blocks s it = []" by (simp_all add: schema_def)
    then have "?k < 2 ^ 31" by (simp add: less_pow31_int)
    then have small: "?k \<le> 2 ^ 31" by simp
    from kP kP' have kP'': "kind P' \<noteq> prim_ListConstruct" by simp
    from list_unpack_step [OF its kN ins ts ps Ps bl live dN VN small, THEN conjunct1, rule_format, OF kP'']
    obtain s' where run: "fuseListAndListUnpack_at it s = Inr s'"
      and new: "\<forall>i<?k.
                   node_at s' (?c0 + 2 * i) =
                     Some \<lparr>kind = onnx_Constant, inputs = [], outputs = [?L + 2 * i],
                           attrs = [(attr_value, ScalarTensorAttr (int i))]\<rparr>
                 \<and> node_at s' (?c0 + 2 * i + 1) =
                     Some \<lparr>kind = onnx_Gather, inputs = [V, ?L + 2 * i],
                           outputs = [?L + 2 * i + 1], attrs = []\<rparr>"
      and blk: "block s' = fold (\<lambda>m. insert_Block m it) [?c0..<?c0 + 2 * ?k] (block s)"
      and others: "\<forall>m M. node_at s m = Some M \<longrightarrow>
                   node_at s' m = Some (M\<lparr>inputs := map ?r (inputs M)\<rparr>)"
      and hit: "\<forall>i<?k. ?r (outputs N ! i) = ?L + 2 * i + 1"
      and nouse: "\<forall>v \<in> set (outputs N). uses s' v = []"
      and same: "node_at s' it = Some N"
      and vold: "\<forall>v<?L. value_at s' v = value_at s v"
      and vnew: "\<forall>v. ?L \<le> v \<and> v < ?L + 2 * ?k \<longrightarrow> type_of s' v = Inr (TensorType None None)"
      and ln: "length (all_nodes s') = ?c0 + 2 * ?k"
      and lv: "length (all_values s') = ?L + 2 * ?k"
      by blast
    from expand_step_invariant [of s it N "\<lambda>_. True", OF wfs its bl] run
    have wf': "well_formed s'" and sub': "set (ids_Block (block s)) \<subseteq> set (ids_Block (block s'))"
      by auto
    have val': "value_at s' V = value_at g V"
    proof -
      from own val have "V < ?L" by (auto simp: producer_eq_Inr dest: value_at_less)
      with vold val show ?thesis by simp
    qed
    let ?P'' = "P'\<lparr>inputs := map ?r (inputs P')\<rparr>"
    have P'': "node_at s' p = Some ?P''" using others Ps by simp
    have nP'': "\<not> int_list_unpack s' ?P''"
    proof
      assume a: "int_list_unpack s' ?P''"
      then have k: "kind P' = prim_ListUnpack" by (simp add: int_list_unpack_def)
      from a obtain W0 where W0: "inputs P' = [W0]" "type_of s' (?r W0) = Inr (ListType IntType)"
        by (auto simp: int_list_unpack_def split: list.splits)
      show False
      proof (cases "W0 \<in> set (outputs N)")
        case True
        then obtain i where i: "i < ?k" "outputs N ! i = W0" by (auto simp: in_set_conv_nth)
        with hit have "?r W0 = ?L + 2 * i + 1" by auto
        moreover from i have "?L \<le> ?L + 2 * i + 1 \<and> ?L + 2 * i + 1 < ?L + 2 * ?k" by simp
        ultimately have "type_of s' (?r W0) = Inr (TensorType None None)" using vnew by simp
        with W0 show False by simp
      next
        case False
        then have "?r W0 = W0" by (simp add: replaced_by_other)
        moreover from read_owned [OF wfs Ps, of W0] W0 have "W0 < ?L"
          by (auto dest: value_at_less)
        ultimately have "type_of s W0 = Inr (ListType IntType)"
          using W0 vold by (simp add: type_of_eq_Inr)
        with k W0 nP' show False by (simp add: int_list_unpack_def)
      qed
    qed
    have rd: "\<forall>x X j i. node_at g x = Some X \<and> j < length (inputs X) \<and> i < ?k
            \<and> inputs X ! j = outputs N ! i \<longrightarrow>
            (\<exists>X'. node_at s' x = Some X' \<and> j < length (inputs X') \<and> inputs X' ! j = ?L + 2 * i + 1)"
    proof (intro allI impI)
      fix x X j i assume a: "node_at g x = Some X \<and> j < length (inputs X) \<and> i < ?k
            \<and> inputs X ! j = outputs N ! i"
      then have "inputs X ! j \<in> set (outputs N)" by simp
      with a rk obtain X' where X': "node_at s x = Some X'" "j < length (inputs X')"
        "inputs X' ! j = inputs X ! j" unfolding reads_kept_def by blast
      with others have "node_at s' x = Some (X'\<lparr>inputs := map ?r (inputs X')\<rparr>)" by simp
      with X' a hit show "\<exists>X'. node_at s' x = Some X' \<and> j < length (inputs X') \<and> inputs X' ! j = ?L + 2 * i + 1"
        by simp
    qed
    have ds: "distinct (ids_Block (block s))" using wfs by (simp add: well_formed_iff)
    from bl obtain xs zs where sp: "ids_Block (block s) = xs @ it # zs"
      by (auto simp: inBlockList_def dest: split_list)
    have fresh: "\<forall>m \<in> set [?c0..<?c0 + 2 * ?k]. m \<notin> set (ids_Block (block s))"
      using ids_live_less [OF wfs] by fastforce
    have idsf: "ids_Block (block s') = xs @ [?c0..<?c0 + 2 * ?k] @ it # zs"
      unfolding blk
      by (rule ids_fold_insert [OF leaf_in_block [OF bl leaf] ds fresh _ sp]) simp
    have "distinct (ids_Block (block s'))" using wf' by (simp add: well_formed_iff)
    then have fl: "filter (\<lambda>x. x \<in> set ([?c0..<?c0 + 2 * ?k] @ [it])) (ids_Block (block s'))
          = [?c0..<?c0 + 2 * ?k] @ [it]"
      unfolding idsf by (rule filter_segment)
    have "expanded g it N V p (kind P) ?c0 ?L s'"
      unfolding expanded_def
      using same val' lens ln lv P'' kP' nP'' new rd nouse fl by auto
    with wf' sub sub' dys oldy have "K ys s'" by (auto simp: K_def)
    with run show ?thesis by blast
  qed
  have after: "\<exists>s'. fuseListAndListUnpack_at y s = Inr s' \<and> K ys s'" if Ky: "K (y # ys) s" for y ys s
  proof -
    from Ky obtain c0 L where wfs: "well_formed s" and sub: "set (y # ys) \<subseteq> set (ids_Block (block s))"
      and nys: "it \<notin> set (y # ys)" and oldy: "\<forall>y \<in> set (y # ys). y < length (all_nodes g)"
      and ex: "expanded g it N V p (kind P) c0 L s"
      by (auto simp: K_def)
    from nys have yn: "y \<noteq> it" by auto
    from oldy have yold: "y < length (all_nodes g)" by simp
    from sub have bl: "inBlockList s y" by (simp add: inBlockList_def)
    with wfs obtain Y where y: "node_at s y = Some Y" by (auto simp: well_formed_iff inBlockList_def)
    from expand_step_invariant [of s y Y "expanded g it N V p (kind P) c0 L", OF wfs y bl ex]
      expanded_kept [OF _ _ ins own _ _ _ _ yn yold]
    obtain s' where "fuseListAndListUnpack_at y s = Inr s'" "well_formed s'"
      "expanded g it N V p (kind P) c0 L s'" "set (ids_Block (block s)) \<subseteq> set (ids_Block (block s'))"
      by blast
    with sub nys oldy show ?thesis by (auto simp: K_def)
  qed
  from for_each_focus [of J pre it post g fuseListAndListUnpack_at K, OF J0 before at after npre]
  obtain g' where "for_each (pre @ it # post) fuseListAndListUnpack_at g = Inr g'" "K [] g'"
    by blast
  then show ?thesis
    unfolding fuseListAndListUnpack_def walk_for_each ids K_def by auto
qed

text \<open>A ListUnpack of the list of a ListConstruct is as it was in every graph of the traversal.\<close>

lemma expand_pass_kept:
  assumes wf: "well_formed g" and itin: "it \<in> set (ids_Block (block g))"
    and it: "node_at g it = Some N" and kN: "kind N = prim_ListUnpack" and ins: "inputs N = [V]"
    and own: "producer g V = Inr p" and P: "node_at g p = Some P"
    and kP: "kind P = prim_ListConstruct"
  shows "\<exists>g'. fuseListAndListUnpack (block g) g = Inr g' \<and> well_formed g'
      \<and> unexpanded g it N V p (kind P) g'"
proof -
  let ?ids = "ids_Block (block g)"
  define I where "I = (\<lambda>(ys::nat list) s. well_formed s \<and> set ys \<subseteq> set (ids_Block (block s))
      \<and> unexpanded g it N V p (kind P) s)"
  have nP: "\<not> int_list_unpack g P" using kP by (simp add: int_list_unpack_def)
  have un0: "unexpanded g it N V p (kind P) g"
    using it P nP by (auto simp: unexpanded_def reads_kept_def)
  have I0: "I ?ids g" using wf un0 by (simp add: I_def)
  have step: "\<exists>s'. fuseListAndListUnpack_at y s = Inr s' \<and> I ys s'" if Iy: "I (y # ys) s" for y ys s
  proof -
    from Iy have wfs: "well_formed s" and sub: "set (y # ys) \<subseteq> set (ids_Block (block s))"
      and un: "unexpanded g it N V p (kind P) s"
      by (simp_all add: I_def)
    from sub have bl: "inBlockList s y" by (simp add: inBlockList_def)
    with wfs obtain Y where y: "node_at s y = Some Y" by (auto simp: well_formed_iff inBlockList_def)
    show ?thesis
    proof (cases "y = it")
      case True
      from un obtain P' where its: "node_at s it = Some N" and val: "value_at s V = value_at g V"
        and Ps: "node_at s p = Some P'" and kP': "kind P' = kind P"
        by (auto simp: unexpanded_def)
      from own val obtain Vv where Vv: "value_at s V = Some Vv" "node Vv = p"
        by (auto simp: producer_eq_Inr)
      have no: "\<not> (\<exists>V p P Vv. inputs N = [V] \<and> value_at s V = Some Vv \<and> type Vv = ListType IntType
               \<and> node_at s (node Vv) = Some P \<and> kind P \<noteq> prim_ListConstruct)"
        using ins Vv Ps kP' kP by auto
      have rd: "\<forall>v \<in> set (inputs N). \<exists>Vv P. value_at s v = Some Vv \<and> node_at s (node Vv) = Some P"
        using read_owned [OF wfs its] by blast
      have "for_each [0..<length (outputs N)] (expand_output it) s = Inr s"
        using expand_output_skip [OF its _ no rd] by (intro for_each_fixpoint) simp
      with its kN have "fuseListAndListUnpack_at it s = Inr s"
        by (simp add: fuseListAndListUnpack_at_def)
      with Iy True show ?thesis by (auto simp: I_def)
    next
      case False
      from expand_step_invariant [of s y Y "unexpanded g it N V p (kind P)", OF wfs y bl un]
        unexpanded_kept [OF _ _ ins own _ _ _ _ False]
      obtain s' where "fuseListAndListUnpack_at y s = Inr s'" "well_formed s'"
        "unexpanded g it N V p (kind P) s'" "set (ids_Block (block s)) \<subseteq> set (ids_Block (block s'))"
        by blast
      with sub show ?thesis by (auto simp: I_def)
    qed
  qed
  from for_each_invariant [of I ?ids g fuseListAndListUnpack_at, OF I0 step]
  obtain g' where "for_each ?ids fuseListAndListUnpack_at g = Inr g'" "I [] g'" by blast
  then show ?thesis
    unfolding fuseListAndListUnpack_def walk_for_each I_def by auto
qed

section \<open>The claims\<close>

subsection \<open>Running the preprocessing twice\<close>




subsection \<open>Pass 2: the adds that are left alone\<close>

text \<open>
  Claim C2, as stated: an add is left unchanged when the element type of a list input
  is not Int. The add of an int list (first) and a float list (second) is rewritten
  into a Concat: line 145 reads the element type of \<^verbatim>\<open>input(0)\<close> only.
\<close>

theorem C2_add_mixed_counterexample:
  "type_of graph_add_mixed 2 = Inr (ListType IntType)
   \<and> type_of graph_add_mixed 3 = Inr (ListType FloatType)
   \<and> ReplaceAddWithConcat_at 4 graph_add_mixed \<noteq> Inr graph_add_mixed
   \<and> ReplaceAddWithConcat_at 4 graph_add_mixed =
       Inr \<lparr>all_nodes =
             [Some \<lparr>kind = prim_Param, inputs = [], outputs = [0, 1], attrs = []\<rparr>,
              Some \<lparr>kind = prim_Return, inputs = [5], outputs = [], attrs = []\<rparr>,
              Some \<lparr>kind = aten_size, inputs = [0], outputs = [2], attrs = []\<rparr>,
              Some \<lparr>kind = aten_size, inputs = [1], outputs = [3], attrs = []\<rparr>,
              None,
              Some \<lparr>kind = onnx_Concat, inputs = [2, 3], outputs = [5],
                    attrs = [(attr_axis, IntAttr 0)]\<rparr>],
            all_values =
             [Some \<lparr>type = TensorType (Some kFloat) (Some 3), node = 0\<rparr>,
              Some \<lparr>type = TensorType (Some kFloat) (Some 3), node = 0\<rparr>,
              Some \<lparr>type = ListType IntType, node = 2\<rparr>,
              Some \<lparr>type = ListType FloatType, node = 3\<rparr>,
              None,
              Some \<lparr>type = TensorType (Some kLong) (Some 1), node = 5\<rparr>],
            block = Block 0 [(2, []), (3, []), (5, [])] 1\<rparr>"
  by code_simp

text \<open>
  Claim C2, amended. At an \<^verbatim>\<open>aten::add\<close> node the step of the pass returns the graph as
  it is when the first input is no list (the second input is not read then), when the
  second input is no list, and when the first input is a list whose element type is
  not Int; in particular for an add of two float lists. The element type of the
  second input is not looked at: an add with one output, in a block, whose first
  input is an int list and whose second input is a list of any element type is
  replaced by a Concat.
\<close>

theorem C2_add_unchanged:
  assumes "node_at g it = Some N" and "kind N = aten_add"
    and "input_at g it 0 = Inr in0" and "type_of g in0 = Inr t0"
  shows "((\<nexists>elem. t0 = ListType elem) \<longrightarrow> ReplaceAddWithConcat_at it g = Inr g)
       \<and> (input_at g it 1 = Inr in1 \<and> type_of g in1 = Inr t1
            \<and> ((\<nexists>elem. t1 = ListType elem) \<or> t0 \<noteq> ListType IntType)
            \<longrightarrow> ReplaceAddWithConcat_at it g = Inr g)
       \<and> (input_at g it 1 = Inr in1 \<and> type_of g in1 = Inr t1
            \<and> t0 = ListType FloatType \<and> t1 = ListType FloatType
            \<longrightarrow> ReplaceAddWithConcat_at it g = Inr g)
       \<and> (input_at g it 1 = Inr in1 \<and> type_of g in1 = Inr (ListType elem1)
            \<and> t0 = ListType IntType
            \<and> outputs N = [out] \<and> out < length (all_values g)
            \<and> inBlockList g it \<and> blocks g it = []
            \<longrightarrow> (\<exists>g' C. ReplaceAddWithConcat_at it g = Inr g' \<and> g' \<noteq> g
                  \<and> node_at g' (length (all_nodes g)) = Some C \<and> kind C = onnx_Concat
                  \<and> node_at g' it = None))"
proof -
  have c: "\<exists>g' C. ReplaceAddWithConcat_at it g = Inr g' \<and> g' \<noteq> g
                  \<and> node_at g' (length (all_nodes g)) = Some C \<and> kind C = onnx_Concat
                  \<and> node_at g' it = None"
    if "input_at g it 1 = Inr in1" and "type_of g in1 = Inr (ListType elem1)"
      and "t0 = ListType IntType" and "outputs N = [out]" and "out < length (all_values g)"
      and "inBlockList g it" and "blocks g it = []"
  proof -
    have t0': "type_of g in0 = Inr (ListType IntType)"
      using assms(4) that(3) by simp
    have itlt: "it < length (all_nodes g)" using assms(1) by (rule node_at_less)
    from add_becomes_concat [OF assms(1-3) t0' that(1,2,4-7)]
    obtain g' where run: "ReplaceAddWithConcat_at it g = Inr g'"
      and nodes: "\<forall>m. node_at g' m =
           (if m = it then None
            else if m = length (all_nodes g)
            then Some (replace_input out (length (all_values g))
                   \<lparr>kind = onnx_Concat, inputs = [in0, in1], outputs = [length (all_values g)],
                     attrs = [(attr_axis, IntAttr 0)]\<rparr>)
            else map_option (replace_input out (length (all_values g))) (node_at g m))"
      and ln: "length (all_nodes g') = Suc (length (all_nodes g))"
      by blast
    from ln have "g' \<noteq> g" by auto
    moreover have "node_at g' (length (all_nodes g)) =
        Some (replace_input out (length (all_values g))
                   \<lparr>kind = onnx_Concat, inputs = [in0, in1], outputs = [length (all_values g)],
                     attrs = [(attr_axis, IntAttr 0)]\<rparr>)"
      using nodes itlt by simp
    moreover have "node_at g' it = None" using nodes by simp
    ultimately show ?thesis using run by (simp add: replace_input_def)
  qed
  have a: "ReplaceAddWithConcat_at it g = Inr g" if "\<nexists>elem. t0 = ListType elem"
    using that assms by (cases t0) (auto simp: ReplaceAddWithConcat_at_def)
  have b: "ReplaceAddWithConcat_at it g = Inr g"
    if "input_at g it 1 = Inr in1" and "type_of g in1 = Inr t1"
      and "(\<nexists>elem. t1 = ListType elem) \<or> t0 \<noteq> ListType IntType"
  proof (cases "\<exists>elem. t0 = ListType elem")
    case False
    then show ?thesis by (simp add: a)
  next
    case True
    then obtain e0 where e0: "t0 = ListType e0" by blast
    show ?thesis
    proof (cases "\<exists>elem. t1 = ListType elem")
      case False
      with that assms e0 show ?thesis
        by (cases t1) (auto simp: ReplaceAddWithConcat_at_def)
    next
      case True
      then obtain e1 where e1: "t1 = ListType e1" by blast
      from that(3) True e0 have "e0 \<noteq> IntType" by simp
      with that assms e0 e1 show ?thesis
        by (cases e0) (auto simp: ReplaceAddWithConcat_at_def)
    qed
  qed
  from a b c show ?thesis by blast
qed

text \<open>The add of two float lists, and the add of an int list and a float list.\<close>

theorem C2_add_unchanged_witness:
  "ReplaceAddWithConcat_at 4 graph_add_float = Inr graph_add_float
   \<and> (\<exists>g' C. ReplaceAddWithConcat_at 4 graph_add_mixed = Inr g' \<and> g' \<noteq> graph_add_mixed
         \<and> node_at g' 5 = Some C \<and> kind C = onnx_Concat \<and> node_at g' 4 = None)"
proof -
  have n: "node_at graph_add_float 4 =
      Some \<lparr>kind = aten_add, inputs = [2, 3], outputs = [4], attrs = []\<rparr>"
    by code_simp
  have i0: "input_at graph_add_float 4 0 = Inr 2" by code_simp
  have t0: "type_of graph_add_float 2 = Inr (ListType FloatType)" by code_simp
  have i1: "input_at graph_add_float 4 1 = Inr 3" by code_simp
  have t1: "type_of graph_add_float 3 = Inr (ListType FloatType)" by code_simp
  have first: "ReplaceAddWithConcat_at 4 graph_add_float = Inr graph_add_float"
    using C2_add_unchanged [OF n _ i0 t0, of 3 "ListType FloatType"] i1 t1 by simp
  have n': "node_at graph_add_mixed 4 =
      Some \<lparr>kind = aten_add, inputs = [2, 3], outputs = [4], attrs = []\<rparr>"
    by code_simp
  have i0': "input_at graph_add_mixed 4 0 = Inr 2" by code_simp
  have t0': "type_of graph_add_mixed 2 = Inr (ListType IntType)" by code_simp
  have i1': "input_at graph_add_mixed 4 1 = Inr 3" by code_simp
  have t1': "type_of graph_add_mixed 3 = Inr (ListType FloatType)" by code_simp
  have l': "4 < length (all_values graph_add_mixed)" by code_simp
  have b': "inBlockList graph_add_mixed 4" by code_simp
  have c': "blocks graph_add_mixed 4 = []" by code_simp
  have ln': "length (all_nodes graph_add_mixed) = 5" by code_simp
  have second: "\<exists>g' C. ReplaceAddWithConcat_at 4 graph_add_mixed = Inr g' \<and> g' \<noteq> graph_add_mixed
         \<and> node_at g' 5 = Some C \<and> kind C = onnx_Concat \<and> node_at g' 4 = None"
    using C2_add_unchanged [OF n' _ i0' t0', of 3 "ListType FloatType" FloatType 4]
      i1' t1' l' b' c'
    unfolding ln' by simp
  from first second show ?thesis by blast
qed

subsection \<open>Pass 3: the check of line 209\<close>

text \<open>
  Claim C3. The expression of line 209, \<^verbatim>\<open>(!lc_node->inputs().size()) == 1\<close>, is true
  for the size 0 only. Line 203 has read \<^verbatim>\<open>lc_node->input(0)\<close> before, which fails on an
  empty input list: so at every size the guard can be reached with, the expression is
  false. The \<^verbatim>\<open>continue\<close> of line 210 is never reached, and the pass rewrites the same
  nodes, with the same result, as the loop without the check.
\<close>

theorem C3_size_check_no_effect:
  "(size_check sz \<longleftrightarrow> sz = 0)
   \<and> (\<forall>mask. input_at g lc_node 0 = Inr mask \<longrightarrow>
        (\<exists>LC. node_at g lc_node = Some LC \<and> \<not> size_check (length (inputs LC))))
   \<and> ReplaceIndexPutWithMaskedScatter_at it g = IndexPut_at (\<lambda>sz. False) it g"
proof (intro conjI allI impI)
  show "size_check sz \<longleftrightarrow> sz = 0"
    by (simp add: size_check_def)
next
  fix mask
  assume "input_at g lc_node 0 = Inr mask"
  then show "\<exists>LC. node_at g lc_node = Some LC \<and> \<not> size_check (length (inputs LC))"
    by (auto simp: input_at_eq_Inr size_check_def)
next
  show "ReplaceIndexPutWithMaskedScatter_at it g = IndexPut_at (\<lambda>sz. False) it g"
    unfolding ReplaceIndexPutWithMaskedScatter_at_def
    by (rule IndexPut_at_check) (simp add: size_check_def)
qed

text \<open>The graph of scenario S3: the ListConstruct has one input, and the check is false.\<close>

theorem C3_size_check_no_effect_witness:
  "input_at graph_index_put 2 0 = Inr 1
   \<and> \<not> size_check 1
   \<and> ReplaceIndexPutWithMaskedScatter_at 4 graph_index_put = IndexPut_at (\<lambda>sz. False) 4 graph_index_put"
proof -
  have i: "input_at graph_index_put 2 0 = Inr 1"
    by code_simp
  from C3_size_check_no_effect [of 1 graph_index_put 2 4] i show ?thesis by simp
qed

subsection \<open>Pass 1: which nodes are fused\<close>

text \<open>
  Claim C4. Let \<open>n\<close> be a node of a trigger kind in the blocks of a well-formed graph.
  \<^const>\<open>FindFusibleListUnpack\<close> finds the ListUnpack \<open>u\<close> to fuse with if and only if
  \<open>n\<close> has exactly one output, that output has exactly one use, and the consumer of
  that use is \<open>u\<close>, a node of kind \<^verbatim>\<open>prim::ListUnpack\<close>. The pass
  \<^const>\<open>FuseWithListUnpack_Block\<close> on the graph succeeds, and in the graph it returns:
  when \<open>n\<close> has such a consumer \<open>U\<close>, \<open>n\<close> is fused with it (\<open>n\<close> has the attribute
  \<^verbatim>\<open>_outputs\<close> with the number of outputs of \<open>U\<close> and as many new outputs, \<open>U\<close> has
  no inputs, and the list output of \<open>n\<close> is gone); when there is no such consumer (no
  use, more than one use, a consumer of another kind, or not exactly one output),
  \<open>n\<close> has the kind, the attributes and the outputs it had, and is still not fusible.
\<close>

theorem C4_fusible_iff:
  assumes "well_formed g" and "n \<in> set (ids_Block (block g))"
    and "node_at g n = Some N"
    and "kind N \<in> {aten_split, aten_split_with_sizes, aten_unsafe_split,
                    aten_unsafe_split_with_sizes, aten_unbind, aten_unsafe_chunk, aten_where}"
  shows "(FindFusibleListUnpack n g = Inr (Some u) \<longleftrightarrow>
            (\<exists>out off U. outputs N = [out] \<and> uses g out = [(u, off)] \<and>
               node_at g u = Some U \<and> kind U = prim_ListUnpack))
     \<and> (\<exists>g'. FuseWithListUnpack_Block (block g) g = Inr g' \<and> well_formed g'
          \<and> (\<forall>out off u U. outputs N = [out] \<and> uses g out = [(u, off)] \<and>
                 node_at g u = Some U \<and> kind U = prim_ListUnpack \<longrightarrow>
               (\<exists>N' L. node_at g' n = Some N' \<and> kind N' = kind N
                   \<and> attrs N' = set_attr attr_outputs (IntAttr (int (length (outputs U)))) (attrs N)
                   \<and> outputs N' = [L..<L + length (outputs U)] \<and> length (all_values g) \<le> L)
               \<and> node_at g' u = Some (U\<lparr>inputs := []\<rparr>) \<and> value_at g' out = None)
          \<and> ((\<nexists>out off u U. outputs N = [out] \<and> uses g out = [(u, off)] \<and>
                 node_at g u = Some U \<and> kind U = prim_ListUnpack) \<longrightarrow>
               (\<exists>N'. node_at g' n = Some N' \<and> kind N' = kind N \<and> attrs N' = attrs N
                   \<and> outputs N' = outputs N \<and> length (inputs N') = length (inputs N))
               \<and> FindFusibleListUnpack n g' = Inr None))"
proof
  show "FindFusibleListUnpack n g = Inr (Some u) \<longleftrightarrow>
            (\<exists>out off U. outputs N = [out] \<and> uses g out = [(u, off)] \<and>
               node_at g u = Some U \<and> kind U = prim_ListUnpack)"
    by (rule FindFusibleListUnpack_Some_iff [OF assms(3)])
next
  have kN: "kind N \<in> trigger_kinds" using assms(4) by (simp add: trigger_kinds_def)
  let ?fus = "\<exists>out off u U. outputs N = [out] \<and> uses g out = [(u, off)] \<and>
                 node_at g u = Some U \<and> kind U = prim_ListUnpack"
  show "\<exists>g'. FuseWithListUnpack_Block (block g) g = Inr g' \<and> well_formed g'
          \<and> (\<forall>out off u U. outputs N = [out] \<and> uses g out = [(u, off)] \<and>
                 node_at g u = Some U \<and> kind U = prim_ListUnpack \<longrightarrow>
               (\<exists>N' L. node_at g' n = Some N' \<and> kind N' = kind N
                   \<and> attrs N' = set_attr attr_outputs (IntAttr (int (length (outputs U)))) (attrs N)
                   \<and> outputs N' = [L..<L + length (outputs U)] \<and> length (all_values g) \<le> L)
               \<and> node_at g' u = Some (U\<lparr>inputs := []\<rparr>) \<and> value_at g' out = None)
          \<and> ((\<nexists>out off u U. outputs N = [out] \<and> uses g out = [(u, off)] \<and>
                 node_at g u = Some U \<and> kind U = prim_ListUnpack) \<longrightarrow>
               (\<exists>N'. node_at g' n = Some N' \<and> kind N' = kind N \<and> attrs N' = attrs N
                   \<and> outputs N' = outputs N \<and> length (inputs N') = length (inputs N))
               \<and> FindFusibleListUnpack n g' = Inr None)"
  proof (cases ?fus)
    case True
    then obtain out off u U where c: "outputs N = [out]" "uses g out = [(u, off)]"
      "node_at g u = Some U" "kind U = prim_ListUnpack" by blast
    from fuse_pass_fused [OF assms(1-3) kN c]
    obtain g' where g': "FuseWithListUnpack_Block (block g) g = Inr g'" "well_formed g'"
      "\<exists>N' L. node_at g' n = Some N' \<and> kind N' = kind N
            \<and> attrs N' = set_attr attr_outputs (IntAttr (int (length (outputs U)))) (attrs N)
            \<and> outputs N' = [L..<L + length (outputs U)] \<and> length (all_values g) \<le> L"
      "node_at g' u = Some (U\<lparr>inputs := []\<rparr>)" "value_at g' out = None"
      by blast
    have uniq: "out' = out \<and> u' = u \<and> U' = U"
      if "outputs N = [out'] \<and> uses g out' = [(u', off')] \<and> node_at g u' = Some U' \<and> kind U' = prim_ListUnpack"
      for out' off' u' U'
      using that c by auto
    have all: "\<forall>out off u U. outputs N = [out] \<and> uses g out = [(u, off)] \<and>
                 node_at g u = Some U \<and> kind U = prim_ListUnpack \<longrightarrow>
               (\<exists>N' L. node_at g' n = Some N' \<and> kind N' = kind N
                   \<and> attrs N' = set_attr attr_outputs (IntAttr (int (length (outputs U)))) (attrs N)
                   \<and> outputs N' = [L..<L + length (outputs U)] \<and> length (all_values g) \<le> L)
               \<and> node_at g' u = Some (U\<lparr>inputs := []\<rparr>) \<and> value_at g' out = None"
    proof (intro allI impI)
      fix out' off' u' U'
      assume a: "outputs N = [out'] \<and> uses g out' = [(u', off')] \<and> node_at g u' = Some U'
          \<and> kind U' = prim_ListUnpack"
      from uniq [OF a] g'
      show "(\<exists>N' L. node_at g' n = Some N' \<and> kind N' = kind N
                   \<and> attrs N' = set_attr attr_outputs (IntAttr (int (length (outputs U')))) (attrs N)
                   \<and> outputs N' = [L..<L + length (outputs U')] \<and> length (all_values g) \<le> L)
               \<and> node_at g' u' = Some (U'\<lparr>inputs := []\<rparr>) \<and> value_at g' out' = None"
        by simp
    qed
    from g'(1,2) all True show ?thesis by (intro exI [of _ g']) blast
  next
    case False
    from FindFusibleListUnpack_total [OF assms(3)] obtain res where "FindFusibleListUnpack n g = Inr res"
      by blast
    moreover have "res \<noteq> Some u'" for u'
    proof
      assume "res = Some u'"
      with \<open>FindFusibleListUnpack n g = Inr res\<close> FindFusibleListUnpack_Some_iff [OF assms(3), of u'] False
      show False by blast
    qed
    ultimately have "FindFusibleListUnpack n g = Inr None"
      by (cases res) auto
    from fuse_pass_unfused [OF assms(1-3) kN this]
    obtain g' where "FuseWithListUnpack_Block (block g) g = Inr g'" "well_formed g'"
      "\<exists>N'. node_at g' n = Some N' \<and> kind N' = kind N \<and> attrs N' = attrs N
            \<and> outputs N' = outputs N \<and> length (inputs N') = length (inputs N)"
      "FindFusibleListUnpack n g' = Inr None"
      by blast
    with False show ?thesis by (intro exI [of _ g']) auto
  qed
qed

text \<open>
  The pass on the graph of scenario S1 fuses the split with its ListUnpack; on the
  graph of scenario S6, where the list of the split has two uses, it leaves the split
  as it is.
\<close>

theorem C4_fusible_iff_witness:
  "FindFusibleListUnpack 4 graph_split = Inr (Some 5)
   \<and> (\<exists>g'. FuseWithListUnpack_Block (block graph_split) graph_split = Inr g'
        \<and> (\<exists>N' L. node_at g' 4 = Some N' \<and> kind N' = aten_split_with_sizes
              \<and> attrs N' = [(attr_outputs, IntAttr 3)] \<and> outputs N' = [L, L + 1, L + 2] \<and> 7 \<le> L)
        \<and> node_at g' 5 = Some \<lparr>kind = prim_ListUnpack, inputs = [], outputs = [4, 5, 6], attrs = []\<rparr>
        \<and> value_at g' 3 = None)
   \<and> (\<exists>g'. FuseWithListUnpack_Block (block graph_split_two_uses) graph_split_two_uses = Inr g'
        \<and> (\<exists>N'. node_at g' 4 = Some N' \<and> kind N' = aten_split \<and> attrs N' = [] \<and> outputs N' = [3])
        \<and> FindFusibleListUnpack 4 g' = Inr None)"
proof -
  have wf: "well_formed graph_split" by code_simp
  have nin: "4 \<in> set (ids_Block (block graph_split))" by code_simp
  have n: "node_at graph_split 4 =
      Some \<lparr>kind = aten_split_with_sizes, inputs = [0, 1, 2], outputs = [3], attrs = []\<rparr>"
    by code_simp
  have u: "node_at graph_split 5 =
      Some \<lparr>kind = prim_ListUnpack, inputs = [3], outputs = [4, 5, 6], attrs = []\<rparr>"
    by code_simp
  have us: "uses graph_split 3 = [(5, 0)]" by code_simp
  have lv: "length (all_values graph_split) = 7" by code_simp
  note th = C4_fusible_iff [OF wf nin n, simplified]
  from th [of 5] us u have a: "FindFusibleListUnpack 4 graph_split = Inr (Some 5)" by simp
  from th [of 5] obtain g' where run: "FuseWithListUnpack_Block (block graph_split) graph_split = Inr g'"
    and fused: "\<forall>off u U. uses graph_split 3 = [(u, off)] \<and> node_at graph_split u = Some U
        \<and> kind U = prim_ListUnpack \<longrightarrow>
               (\<exists>N' L. node_at g' 4 = Some N' \<and> kind N' = aten_split_with_sizes
                   \<and> attrs N' = [(attr_outputs, IntAttr (int (length (outputs U))))]
                   \<and> outputs N' = [L..<L + length (outputs U)] \<and> length (all_values graph_split) \<le> L)
               \<and> node_at g' u = Some (U\<lparr>inputs := []\<rparr>) \<and> value_at g' 3 = None"
    by auto
  from fused [rule_format, of 5 0 "\<lparr>kind = prim_ListUnpack, inputs = [3], outputs = [4, 5, 6], attrs = []\<rparr>"]
    us u lv
  have b: "(\<exists>N' L. node_at g' 4 = Some N' \<and> kind N' = aten_split_with_sizes
              \<and> attrs N' = [(attr_outputs, IntAttr 3)] \<and> outputs N' = [L, L + 1, L + 2] \<and> 7 \<le> L)
        \<and> node_at g' 5 = Some \<lparr>kind = prim_ListUnpack, inputs = [], outputs = [4, 5, 6], attrs = []\<rparr>
        \<and> value_at g' 3 = None"
    by simp
  have wf2: "well_formed graph_split_two_uses" by code_simp
  have nin2: "4 \<in> set (ids_Block (block graph_split_two_uses))" by code_simp
  have n2: "node_at graph_split_two_uses 4 =
      Some \<lparr>kind = aten_split, inputs = [0, 1, 2], outputs = [3], attrs = []\<rparr>"
    by code_simp
  have us2: "uses graph_split_two_uses 3 = [(5, 0), (6, 0)]" by code_simp
  from C4_fusible_iff [OF wf2 nin2 n2, simplified, of 5] us2
  have c: "\<exists>g'. FuseWithListUnpack_Block (block graph_split_two_uses) graph_split_two_uses = Inr g'
        \<and> (\<exists>N'. node_at g' 4 = Some N' \<and> kind N' = aten_split \<and> attrs N' = [] \<and> outputs N' = [3])
        \<and> FindFusibleListUnpack 4 g' = Inr None"
    by auto
  from a run b c show ?thesis by blast
qed

subsection \<open>Pass 1: the fused node\<close>

text \<open>
  Claim C5. Let \<open>n\<close> be a node whose sole consumer is the ListUnpack \<open>u\<close> (found by
  \<^const>\<open>FindFusibleListUnpack\<close>), with \<open>k\<close> outputs (fewer than \<open>2^31\<close>) that are distinct
  live values. The
  rewrite succeeds, and in the graph it returns: \<open>n\<close> has the integer attribute
  \<^verbatim>\<open>_outputs\<close> equal to \<open>k\<close>; the outputs of \<open>n\<close> are \<open>k\<close> new values, the i-th with the
  type of the i-th output of \<open>u\<close>; the inputs of \<open>u\<close> are cleared; the original output
  of \<open>n\<close> is erased; in every node, each input that was the i-th output of \<open>u\<close> is the
  i-th new output of \<open>n\<close>, so that no output of \<open>u\<close> has a use; and \<open>u\<close> is still a
  node of the graph, in its place in the block.
\<close>

theorem C5_fuse_with_list_unpack:
  assumes "node_at g n = Some N" and "FindFusibleListUnpack n g = Inr (Some u)"
    and "node_at g u = Some U" and "n \<noteq> u"
    and "\<forall>v \<in> set (outputs U). value_at g v \<noteq> None"
    and "\<forall>v \<in> set (outputs N). value_at g v \<noteq> None"
    and "length (outputs U) < 2 ^ 31" and "distinct (outputs U)"
  shows "\<exists>g' out. FuseWithListUnpack n g = Inr g' \<and> outputs N = [out]
      \<and> node_at g' n =
          Some (N\<lparr>inputs := map (replaced_by (outputs U)
                      [length (all_values g)..<length (all_values g) + length (outputs U)]) (inputs N),
                  outputs := [length (all_values g)..<length (all_values g) + length (outputs U)],
                  attrs := set_attr attr_outputs (IntAttr (int (length (outputs U)))) (attrs N)\<rparr>)
      \<and> (\<forall>i<length (outputs U). \<exists>V. value_at g (outputs U ! i) = Some V
            \<and> value_at g' (length (all_values g) + i) = Some \<lparr>type = type V, node = n\<rparr>)
      \<and> node_at g' u = Some (U\<lparr>inputs := []\<rparr>)
      \<and> value_at g' out = None
      \<and> (\<forall>m M. node_at g m = Some M \<and> m \<noteq> u \<and> m \<noteq> n \<longrightarrow>
            node_at g' m = Some (M\<lparr>inputs := map (replaced_by (outputs U)
                      [length (all_values g)..<length (all_values g) + length (outputs U)]) (inputs M)\<rparr>))
      \<and> (\<forall>i<length (outputs U).
            replaced_by (outputs U) [length (all_values g)..<length (all_values g) + length (outputs U)]
              (outputs U ! i) = length (all_values g) + i)
      \<and> (\<forall>v \<in> set (outputs U). uses g' v = [])
      \<and> block g' = block g"
proof -
  let ?k = "length (outputs U)" and ?nv = "length (all_values g)"
  let ?s = "fold (\<lambda>(v, w) y. if y = v then w else y) (zip (outputs U) [?nv..<?nv + ?k])"
  let ?r = "replaced_by (outputs U) [?nv..<?nv + ?k]"
  obtain g' out where run: "FuseWithListUnpack n g = Inr g'"
    and out: "outputs N = [out]"
    and nodes: "\<forall>m. node_at g' m =
            map_option (\<lambda>M. M\<lparr>inputs := map ?s (inputs M)\<rparr>)
            (if m = n
             then Some (N\<lparr>attrs := set_attr attr_outputs (IntAttr (to_int64 ?k)) (attrs N),
                         outputs := [?nv..<?nv + ?k]\<rparr>)
             else if m = u then Some (U\<lparr>inputs := []\<rparr>)
             else node_at g m)"
    and vals: "\<forall>v. value_at g' v =
            (if v = out then None
             else if ?nv \<le> v \<and> v < ?nv + ?k
             then map_option (\<lambda>V. \<lparr>type = type V, node = n\<rparr>) (value_at g (outputs U ! (v - ?nv)))
             else value_at g v)"
    and blk: "block g' = block g"
    using fuse_with_list_unpack [OF assms(1-7)] by blast
  have old: "v < ?nv" if "v \<in> set (outputs U)" for v
    using that assms(5) by (auto simp: value_at_def split: if_splits)
  have outlt: "out < ?nv"
    using out assms(6) by (auto simp: value_at_def split: if_splits)
  have disj: "set [?nv..<?nv + ?k] \<inter> set (outputs U) = {}"
    using old by fastforce
  have sr: "?s = ?r"
    by (rule fold_replace_is_replaced_by [OF assms(8) _ disj]) simp
  have hit: "?r (outputs U ! i) = ?nv + i" if "i < ?k" for i
    using replaced_by_nth [OF assms(8), of "[?nv..<?nv + ?k]" i] that by simp
  have miss: "?r x = x" if "x \<notin> set (outputs U)" for x
    using replaced_by_other [of "outputs U" "[?nv..<?nv + ?k]" x] that by simp
  have fresh: "?r x \<notin> set (outputs U)" for x
  proof (cases "x \<in> set (outputs U)")
    case True
    then obtain i where "i < ?k" "outputs U ! i = x" by (auto simp: in_set_conv_nth)
    with hit have "?r x = ?nv + i" by auto
    with old show ?thesis by fastforce
  next
    case False
    with miss show ?thesis by simp
  qed
  have a: "node_at g' n = Some (N\<lparr>inputs := map ?r (inputs N), outputs := [?nv..<?nv + ?k],
                  attrs := set_attr attr_outputs (IntAttr (int ?k)) (attrs N)\<rparr>)"
  proof -
    have "(2::nat) ^ 31 < 2 ^ 63" by simp
    with assms(7) have "?k < 2 ^ 63" by linarith
    then have "to_int64 ?k = int ?k" by (rule to_int64_small)
    with nodes sr show ?thesis by simp
  qed
  have b: "\<forall>i<?k. \<exists>V. value_at g (outputs U ! i) = Some V
            \<and> value_at g' (?nv + i) = Some \<lparr>type = type V, node = n\<rparr>"
  proof (intro allI impI)
    fix i assume i: "i < ?k"
    then have "outputs U ! i \<in> set (outputs U)" by simp
    with assms(5) obtain V where V: "value_at g (outputs U ! i) = Some V" by auto
    moreover have "value_at g' (?nv + i) = Some \<lparr>type = type V, node = n\<rparr>"
      using vals i V outlt by simp
    ultimately show "\<exists>V. value_at g (outputs U ! i) = Some V
            \<and> value_at g' (?nv + i) = Some \<lparr>type = type V, node = n\<rparr>"
      by blast
  qed
  have c: "node_at g' u = Some (U\<lparr>inputs := []\<rparr>)"
    using nodes assms(4) by simp
  have d: "value_at g' out = None"
    using vals by simp
  have e: "\<forall>m M. node_at g m = Some M \<and> m \<noteq> u \<and> m \<noteq> n \<longrightarrow>
            node_at g' m = Some (M\<lparr>inputs := map ?r (inputs M)\<rparr>)"
    using nodes sr by simp
  have f: "\<forall>v \<in> set (outputs U). uses g' v = []"
  proof
    fix v assume v: "v \<in> set (outputs U)"
    show "uses g' v = []"
      unfolding uses_empty_iff
    proof (intro allI impI)
      fix m M assume A: "node_at g' m = Some M"
      define X where "X = (if m = n
             then Some (N\<lparr>attrs := set_attr attr_outputs (IntAttr (to_int64 ?k)) (attrs N),
                         outputs := [?nv..<?nv + ?k]\<rparr>)
             else if m = u then Some (U\<lparr>inputs := []\<rparr>)
             else node_at g m)"
      have "node_at g' m = map_option (\<lambda>M. M\<lparr>inputs := map ?r (inputs M)\<rparr>) X"
        using nodes sr by (simp add: X_def)
      with A obtain M0 where "M = M0\<lparr>inputs := map ?r (inputs M0)\<rparr>"
        by (cases X) auto
      then have "inputs M = map ?r (inputs M0)" by simp
      then have "set (inputs M) \<inter> set (outputs U) = {}"
        using fresh by auto
      with v show "v \<notin> set (inputs M)" by blast
    qed
  qed
  have h: "\<forall>i<?k. ?r (outputs U ! i) = ?nv + i"
    using hit by simp
  from run out a b c d e f h blk show ?thesis by blast
qed

text \<open>The graph of scenario S1: the return node reads the three new outputs of the split.\<close>

theorem C5_fuse_with_list_unpack_witness:
  "\<exists>g'. FuseWithListUnpack 4 graph_split = Inr g'
      \<and> node_at g' 4 = Some \<lparr>kind = aten_split_with_sizes, inputs = [0, 1, 2],
                               outputs = [7, 8, 9], attrs = [(attr_outputs, IntAttr 3)]\<rparr>
      \<and> value_at g' 7 = Some \<lparr>type = TensorType (Some kFloat) (Some 3), node = 4\<rparr>
      \<and> value_at g' 8 = Some \<lparr>type = TensorType (Some kFloat) (Some 3), node = 4\<rparr>
      \<and> value_at g' 9 = Some \<lparr>type = TensorType (Some kFloat) (Some 3), node = 4\<rparr>
      \<and> node_at g' 5 = Some \<lparr>kind = prim_ListUnpack, inputs = [], outputs = [4, 5, 6], attrs = []\<rparr>
      \<and> value_at g' 3 = None
      \<and> node_at g' 1 = Some \<lparr>kind = prim_Return, inputs = [7, 8, 9], outputs = [], attrs = []\<rparr>
      \<and> uses g' 4 = [] \<and> uses g' 5 = [] \<and> uses g' 6 = []
      \<and> block g' = Block 0 [(2, []), (3, []), (4, []), (5, [])] 1"
proof -
  have n: "node_at graph_split 4 =
      Some \<lparr>kind = aten_split_with_sizes, inputs = [0, 1, 2], outputs = [3], attrs = []\<rparr>"
    by code_simp
  have f: "FindFusibleListUnpack 4 graph_split = Inr (Some 5)"
    by code_simp
  have u: "node_at graph_split 5 =
      Some \<lparr>kind = prim_ListUnpack, inputs = [3], outputs = [4, 5, 6], attrs = []\<rparr>"
    by code_simp
  have t: "value_at graph_split 3 = Some \<lparr>type = ListType (TensorType None None), node = 4\<rparr>"
      "value_at graph_split 4 = Some \<lparr>type = TensorType (Some kFloat) (Some 3), node = 5\<rparr>"
      "value_at graph_split 5 = Some \<lparr>type = TensorType (Some kFloat) (Some 3), node = 5\<rparr>"
      "value_at graph_split 6 = Some \<lparr>type = TensorType (Some kFloat) (Some 3), node = 5\<rparr>"
    by code_simp+
  have r: "node_at graph_split 1 =
      Some \<lparr>kind = prim_Return, inputs = [4, 5, 6], outputs = [], attrs = []\<rparr>"
    by code_simp
  have lv: "length (all_values graph_split) = 7" by code_simp
  have b: "block graph_split = Block 0 [(2, []), (3, []), (4, []), (5, [])] 1" by code_simp
  have up: "[7..<7 + 3] = [7, 8, 9]" by code_simp
  have rb: "map (replaced_by [4, 5, 6] [7, 8, 9]) [0, 1, 2] = [0, 1, 2]"
      "map (replaced_by [4, 5, 6] [7, 8, 9]) [4, 5, 6] = [7, 8, 9]"
    by code_simp+
  have v: "\<forall>v \<in> set [4, 5, 6]. value_at graph_split v \<noteq> None"
      "\<forall>v \<in> set [3]. value_at graph_split v \<noteq> None"
    using t by simp_all
  from C5_fuse_with_list_unpack [OF n f u _ _ _ _ _] v
  obtain g' where run: "FuseWithListUnpack 4 graph_split = Inr g'"
    and N': "node_at g' 4 = Some \<lparr>kind = aten_split_with_sizes,
               inputs = map (replaced_by [4, 5, 6] [7, 8, 9]) [0, 1, 2],
               outputs = [7, 8, 9], attrs = [(attr_outputs, IntAttr 3)]\<rparr>"
    and vals: "\<forall>i<3. \<exists>V. value_at graph_split ([4, 5, 6] ! i) = Some V
            \<and> value_at g' (7 + i) = Some \<lparr>type = type V, node = 4\<rparr>"
    and U': "node_at g' 5 = Some \<lparr>kind = prim_ListUnpack, inputs = [], outputs = [4, 5, 6], attrs = []\<rparr>"
    and gone: "value_at g' 3 = None"
    and others: "\<forall>m M. node_at graph_split m = Some M \<and> m \<noteq> 5 \<and> m \<noteq> 4 \<longrightarrow>
            node_at g' m = Some (M\<lparr>inputs := map (replaced_by [4, 5, 6] [7, 8, 9]) (inputs M)\<rparr>)"
    and nouse: "\<forall>v \<in> set [4, 5, 6]. uses g' v = []"
    and blk: "block g' = block graph_split"
    unfolding lv up by auto
  have v7: "value_at g' 7 = Some \<lparr>type = TensorType (Some kFloat) (Some 3), node = 4\<rparr>"
    using vals [rule_format, of 0] t by simp
  have v8: "value_at g' 8 = Some \<lparr>type = TensorType (Some kFloat) (Some 3), node = 4\<rparr>"
    using vals [rule_format, of 1] t by simp
  have v9: "value_at g' 9 = Some \<lparr>type = TensorType (Some kFloat) (Some 3), node = 4\<rparr>"
    using vals [rule_format, of 2] t by simp
  have ret: "node_at g' 1 = Some \<lparr>kind = prim_Return, inputs = [7, 8, 9], outputs = [], attrs = []\<rparr>"
    using others [rule_format, of 1] r rb by simp
  from run N' v7 v8 v9 U' gone ret nouse blk b rb show ?thesis by simp
qed

subsection \<open>Pass 3: masked_fill and masked_scatter\<close>



subsection \<open>Pass 2: the Concat\<close>

text \<open>
  Claim C7. At an \<^verbatim>\<open>aten::add\<close> node with one output, whose two inputs are int
  lists, the step of the pass succeeds, and in the graph it returns: a new node of kind
  \<^verbatim>\<open>onnx::Concat\<close> with the integer attribute \<open>axis = 0\<close>, the two list values as inputs
  and one new output stands where the add stood (it is put before the add, and the add
  is taken out of the block); the type of the new output is the tensor type derived
  from the Int element type (\<^const>\<open>fromNumberType\<close>, a 1-D integer tensor); every input
  edge of every other node that read the output of the add reads the new output, so
  the old output has no uses; and the add node and its output are gone.
\<close>

theorem C7_add_becomes_concat:
  assumes "node_at g it = Some N" and "kind N = aten_add"
    and "input_at g it 0 = Inr in0" and "type_of g in0 = Inr (ListType IntType)"
    and "input_at g it 1 = Inr in1" and "type_of g in1 = Inr (ListType IntType)"
    and "outputs N = [out]" and "out < length (all_values g)" and "out \<notin> set (inputs N)"
    and "inBlockList g it" and "blocks g it = []"
  shows "\<exists>g'. ReplaceAddWithConcat_at it g = Inr g'
      \<and> node_at g' (length (all_nodes g)) =
          Some \<lparr>kind = onnx_Concat, inputs = [in0, in1], outputs = [length (all_values g)],
                attrs = [(attr_axis, IntAttr 0)]\<rparr>
      \<and> value_at g' (length (all_values g)) =
          Some \<lparr>type = TensorType (Some kLong) (Some 1), node = length (all_nodes g)\<rparr>
      \<and> block g' = remove_Block it (insert_Block (length (all_nodes g)) it (block g))
      \<and> (\<forall>m M. m \<noteq> it \<and> node_at g m = Some M \<longrightarrow>
            node_at g' m = Some (replace_input out (length (all_values g)) M))
      \<and> uses g' out = []
      \<and> node_at g' it = None \<and> value_at g' out = None"
proof -
  let ?n = "length (all_nodes g)" and ?v = "length (all_values g)"
  obtain g' where run: "ReplaceAddWithConcat_at it g = Inr g'"
    and nodes: "\<forall>m. node_at g' m =
           (if m = it then None
            else if m = ?n
            then Some (replace_input out ?v
                   \<lparr>kind = onnx_Concat, inputs = [in0, in1], outputs = [?v],
                     attrs = [(attr_axis, IntAttr 0)]\<rparr>)
            else map_option (replace_input out ?v) (node_at g m))"
    and vals: "\<forall>v. value_at g' v =
           (if v = out then None
            else if v = ?v then Some \<lparr>type = fromNumberType IntType, node = ?n\<rparr>
            else value_at g v)"
    and blk: "block g' = remove_Block it (insert_Block ?n it (block g))"
    using add_becomes_concat [OF assms(1-8) assms(10,11)] by blast
  have itlt: "it < ?n" using assms(1) by (rule node_at_less)
  from assms(1,3,5) have ins: "in0 \<in> set (inputs N)" "in1 \<in> set (inputs N)"
    by (auto simp: input_at_eq_Inr)
  with assms(9) have ne: "in0 \<noteq> out" "in1 \<noteq> out" by auto
  have a: "node_at g' ?n = Some \<lparr>kind = onnx_Concat, inputs = [in0, in1], outputs = [?v],
                attrs = [(attr_axis, IntAttr 0)]\<rparr>"
    using nodes itlt ne by (simp add: replace_input_def)
  have b: "value_at g' ?v = Some \<lparr>type = TensorType (Some kLong) (Some 1), node = ?n\<rparr>"
    using vals assms(8) by (simp add: fromNumberType_def)
  have c: "\<forall>m M. m \<noteq> it \<and> node_at g m = Some M \<longrightarrow>
            node_at g' m = Some (replace_input out ?v M)"
    using nodes by (auto dest: node_at_less)
  have d: "uses g' out = []"
    unfolding uses_empty_iff using nodes ne assms(8)
    by (auto simp: replace_input_def split: if_splits)
  from run a b blk c d nodes vals show ?thesis by auto
qed

text \<open>The graph of scenario S2: the return node reads the output of the Concat.\<close>

theorem C7_add_becomes_concat_witness:
  "\<exists>g'. ReplaceAddWithConcat_at 4 graph_add = Inr g'
      \<and> node_at g' 5 = Some \<lparr>kind = onnx_Concat, inputs = [2, 3], outputs = [5],
                               attrs = [(attr_axis, IntAttr 0)]\<rparr>
      \<and> value_at g' 5 = Some \<lparr>type = TensorType (Some kLong) (Some 1), node = 5\<rparr>
      \<and> block g' = Block 0 [(2, []), (3, []), (5, [])] 1
      \<and> node_at g' 1 = Some \<lparr>kind = prim_Return, inputs = [5], outputs = [], attrs = []\<rparr>
      \<and> uses g' 4 = []
      \<and> node_at g' 4 = None \<and> value_at g' 4 = None"
proof -
  have n: "node_at graph_add 4 =
      Some \<lparr>kind = aten_add, inputs = [2, 3], outputs = [4], attrs = []\<rparr>"
    by code_simp
  have i0: "input_at graph_add 4 0 = Inr 2" by code_simp
  have t0: "type_of graph_add 2 = Inr (ListType IntType)" by code_simp
  have i1: "input_at graph_add 4 1 = Inr 3" by code_simp
  have t1: "type_of graph_add 3 = Inr (ListType IntType)" by code_simp
  have l: "4 < length (all_values graph_add)" by code_simp
  have b: "inBlockList graph_add 4" by code_simp
  have c: "blocks graph_add 4 = []" by code_simp
  have ln: "length (all_nodes graph_add) = 5" by code_simp
  have lv: "length (all_values graph_add) = 5" by code_simp
  have bb: "remove_Block 4 (insert_Block 5 4 (block graph_add)) = Block 0 [(2, []), (3, []), (5, [])] 1"
    by code_simp
  have r: "node_at graph_add 1 =
      Some \<lparr>kind = prim_Return, inputs = [4], outputs = [], attrs = []\<rparr>"
    by code_simp
  from C7_add_becomes_concat [OF n _ i0 t0 i1 t1 _ l _ b c] r
  show ?thesis
    unfolding ln lv bb by (auto simp: replace_input_def)
qed

subsection \<open>Pass 4: the Gathers\<close>

text \<open>
  Claim C8. Let \<open>U\<close> be a \<^verbatim>\<open>prim::ListUnpack\<close> node in the blocks of a well-formed
  graph, with distinct outputs, whose sole input \<open>V\<close> has the type
  \<^verbatim>\<open>ListType[IntType]\<close> and is produced by a node \<open>P\<close> that is not itself a ListUnpack
  of an int list (the outputs of such a node are ints, not lists). The pass
  \<^const>\<open>fuseListAndListUnpack\<close> on the graph succeeds, and in the graph it returns \<open>U\<close>
  is still there, unchanged. When \<open>P\<close> is no \<^verbatim>\<open>prim::ListConstruct\<close>, there are, for each
  output index \<open>i\<close>, a new \<^verbatim>\<open>onnx::Constant\<close> node holding the scalar integer tensor
  \<open>i\<close> and a new \<^verbatim>\<open>onnx::Gather\<close> node with the inputs \<open>V\<close> and the output of that
  Constant; in the order of the blocks the new nodes come before \<open>U\<close>, one after the
  other; every input edge that read the i-th output of \<open>U\<close> reads the output of the
  i-th Gather, and no output of \<open>U\<close> has a use. When \<open>P\<close> is a
  \<^verbatim>\<open>prim::ListConstruct\<close>, every input edge that read an output of \<open>U\<close> still reads it.
\<close>

theorem C8_list_unpack_becomes_gathers:
  assumes "well_formed g" and "it \<in> set (ids_Block (block g))"
    and "node_at g it = Some N" and "kind N = prim_ListUnpack" and "inputs N = [V]"
    and "type_of g V = Inr (ListType IntType)"
    and "producer g V = Inr p" and "node_at g p = Some P"
    and "distinct (outputs N)" and "\<not> int_list_unpack g P"
  shows "\<exists>g'. fuseListAndListUnpack (block g) g = Inr g' \<and> well_formed g' \<and> node_at g' it = Some N
     \<and> (kind P \<noteq> prim_ListConstruct \<longrightarrow>
          (\<exists>c0 L. length (all_nodes g) \<le> c0 \<and> length (all_values g) \<le> L
            \<and> (\<forall>i<length (outputs N).
                  node_at g' (c0 + 2 * i) =
                    Some \<lparr>kind = onnx_Constant, inputs = [], outputs = [L + 2 * i],
                          attrs = [(attr_value, ScalarTensorAttr (int i))]\<rparr>
                \<and> node_at g' (c0 + 2 * i + 1) =
                    Some \<lparr>kind = onnx_Gather, inputs = [V, L + 2 * i], outputs = [L + 2 * i + 1],
                          attrs = []\<rparr>)
            \<and> filter (\<lambda>x. x \<in> set ([c0..<c0 + 2 * length (outputs N)] @ [it])) (ids_Block (block g'))
                = [c0..<c0 + 2 * length (outputs N)] @ [it]
            \<and> (\<forall>x X j i. node_at g x = Some X \<and> j < length (inputs X) \<and> i < length (outputs N)
                  \<and> inputs X ! j = outputs N ! i \<longrightarrow>
                  (\<exists>X'. node_at g' x = Some X' \<and> j < length (inputs X') \<and> inputs X' ! j = L + 2 * i + 1))
            \<and> (\<forall>v \<in> set (outputs N). uses g' v = [])))
     \<and> (kind P = prim_ListConstruct \<longrightarrow>
          (\<forall>x X j. node_at g x = Some X \<and> j < length (inputs X) \<and> inputs X ! j \<in> set (outputs N) \<longrightarrow>
             (\<exists>X'. node_at g' x = Some X' \<and> j < length (inputs X') \<and> inputs X' ! j = inputs X ! j)))"
proof (cases "kind P = prim_ListConstruct")
  case True
  from expand_pass_kept [OF assms(1-5,7,8) True]
  obtain g' where "fuseListAndListUnpack (block g) g = Inr g'" "well_formed g'"
    "unexpanded g it N V p (kind P) g'" by blast
  with True show ?thesis
    unfolding unexpanded_def reads_kept_def by (intro exI [of _ g']) simp
next
  case False
  from expand_pass_expanded [OF assms False]
  obtain g' c0 L where "fuseListAndListUnpack (block g) g = Inr g'" "well_formed g'"
    "expanded g it N V p (kind P) c0 L g'" by blast
  with False show ?thesis
    unfolding expanded_def by (intro exI [of _ g']) auto
qed

text \<open>
  The pass on the graph of scenario S5, where the ListConstruct reads the two Gather
  outputs afterwards; and on a ListUnpack of a ListConstruct, which the return node
  still reads.
\<close>

theorem C8_list_unpack_becomes_gathers_witness:
  "(\<exists>g' c0 L. fuseListAndListUnpack (block graph_unpack) graph_unpack = Inr g'
      \<and> 5 \<le> c0 \<and> 5 \<le> L
      \<and> node_at g' c0 = Some \<lparr>kind = onnx_Constant, inputs = [], outputs = [L],
                               attrs = [(attr_value, ScalarTensorAttr 0)]\<rparr>
      \<and> node_at g' (c0 + 1) = Some \<lparr>kind = onnx_Gather, inputs = [1, L], outputs = [L + 1], attrs = []\<rparr>
      \<and> node_at g' (c0 + 2) = Some \<lparr>kind = onnx_Constant, inputs = [], outputs = [L + 2],
                               attrs = [(attr_value, ScalarTensorAttr 1)]\<rparr>
      \<and> node_at g' (c0 + 3) = Some \<lparr>kind = onnx_Gather, inputs = [1, L + 2], outputs = [L + 3], attrs = []\<rparr>
      \<and> filter (\<lambda>x. x \<in> {c0, c0 + 1, c0 + 2, c0 + 3, 3}) (ids_Block (block g'))
          = [c0, c0 + 1, c0 + 2, c0 + 3, 3]
      \<and> (\<exists>X'. node_at g' 4 = Some X' \<and> inputs X' ! 0 = L + 1 \<and> inputs X' ! 1 = L + 3)
      \<and> uses g' 2 = [] \<and> uses g' 3 = []
      \<and> node_at g' 3 = Some \<lparr>kind = prim_ListUnpack, inputs = [1], outputs = [2, 3], attrs = []\<rparr>)
   \<and> (\<exists>g'. fuseListAndListUnpack (block graph_unpack_construct) graph_unpack_construct = Inr g'
      \<and> node_at g' 3 = Some \<lparr>kind = prim_ListUnpack, inputs = [2], outputs = [3, 4], attrs = []\<rparr>
      \<and> (\<exists>X'. node_at g' 1 = Some X' \<and> inputs X' ! 0 = 3 \<and> inputs X' ! 1 = 4))"
proof -
  have wf: "well_formed graph_unpack" by code_simp
  have nin: "3 \<in> set (ids_Block (block graph_unpack))" by code_simp
  have n: "node_at graph_unpack 3 =
      Some \<lparr>kind = prim_ListUnpack, inputs = [1], outputs = [2, 3], attrs = []\<rparr>"
    by code_simp
  have t: "type_of graph_unpack 1 = Inr (ListType IntType)" by code_simp
  have p: "producer graph_unpack 1 = Inr 2" by code_simp
  have P: "node_at graph_unpack 2 =
      Some \<lparr>kind = aten_size, inputs = [0], outputs = [1], attrs = []\<rparr>"
    by code_simp
  have nP: "\<not> int_list_unpack graph_unpack \<lparr>kind = aten_size, inputs = [0], outputs = [1], attrs = []\<rparr>"
    by (simp add: int_list_unpack_def)
  have c: "node_at graph_unpack 4 =
      Some \<lparr>kind = prim_ListConstruct, inputs = [2, 3], outputs = [4], attrs = []\<rparr>"
    by code_simp
  have ln: "length (all_nodes graph_unpack) = 5" by code_simp
  have lv: "length (all_values graph_unpack) = 5" by code_simp
  from C8_list_unpack_becomes_gathers [OF wf nin n _ _ t p P _ nP]
  obtain g' c0 L where run: "fuseListAndListUnpack (block graph_unpack) graph_unpack = Inr g'"
    and same: "node_at g' 3 = Some \<lparr>kind = prim_ListUnpack, inputs = [1], outputs = [2, 3], attrs = []\<rparr>"
    and c0: "5 \<le> c0" and L: "5 \<le> L"
    and new: "\<forall>i<Suc (Suc 0). node_at g' (c0 + 2 * i) =
                    Some \<lparr>kind = onnx_Constant, inputs = [], outputs = [L + 2 * i],
                          attrs = [(attr_value, ScalarTensorAttr (int i))]\<rparr>
                \<and> node_at g' (c0 + 2 * i + 1) =
                    Some \<lparr>kind = onnx_Gather, inputs = [1, L + 2 * i], outputs = [L + 2 * i + 1],
                          attrs = []\<rparr>"
    and fl: "filter (\<lambda>x. x \<in> set ([c0..<c0 + 2 * 2] @ [3])) (ids_Block (block g'))
                = [c0..<c0 + 2 * 2] @ [3]"
    and rd: "\<forall>x X j i. node_at graph_unpack x = Some X \<and> j < length (inputs X) \<and> i < Suc (Suc 0)
                  \<and> inputs X ! j = [2, 3] ! i \<longrightarrow>
                  (\<exists>X'. node_at g' x = Some X' \<and> j < length (inputs X') \<and> inputs X' ! j = L + 2 * i + 1)"
    and nu: "\<forall>v \<in> set [2, 3]. uses g' v = []"
    unfolding ln lv by auto
  have n0: "node_at g' c0 = Some \<lparr>kind = onnx_Constant, inputs = [], outputs = [L],
                               attrs = [(attr_value, ScalarTensorAttr 0)]\<rparr>"
    and n1: "node_at g' (c0 + 1) = Some \<lparr>kind = onnx_Gather, inputs = [1, L], outputs = [L + 1], attrs = []\<rparr>"
    using new [rule_format, of 0] by simp_all
  have n2: "node_at g' (c0 + 2) = Some \<lparr>kind = onnx_Constant, inputs = [], outputs = [L + 2],
                               attrs = [(attr_value, ScalarTensorAttr 1)]\<rparr>"
    and n3: "node_at g' (c0 + 3) = Some \<lparr>kind = onnx_Gather, inputs = [1, L + 2], outputs = [L + 3], attrs = []\<rparr>"
    using new [rule_format, of 1] by (simp_all add: numeral_3_eq_3)
  have up: "[c0..<c0 + 2 * 2] = [c0, c0 + 1, c0 + 2, c0 + 3]"
    by (simp add: upt_rec numeral_3_eq_3)
  have fl': "filter (\<lambda>x. x \<in> {c0, c0 + 1, c0 + 2, c0 + 3, 3}) (ids_Block (block g'))
          = [c0, c0 + 1, c0 + 2, c0 + 3, 3]"
    using fl unfolding up by simp
  from rd [rule_format, of 4 _ 0 0] c obtain X0 where X0: "node_at g' 4 = Some X0"
    "0 < length (inputs X0)" "inputs X0 ! 0 = L + 1" by auto
  from rd [rule_format, of 4 _ 1 1] c obtain X1 where X1: "node_at g' 4 = Some X1"
    "1 < length (inputs X1)" "inputs X1 ! 1 = L + 3" by auto
  have rdr: "\<exists>X'. node_at g' 4 = Some X' \<and> inputs X' ! 0 = L + 1 \<and> inputs X' ! 1 = L + 3"
    using X0 X1 by auto
  have first: "\<exists>g' c0 L. fuseListAndListUnpack (block graph_unpack) graph_unpack = Inr g'
      \<and> 5 \<le> c0 \<and> 5 \<le> L
      \<and> node_at g' c0 = Some \<lparr>kind = onnx_Constant, inputs = [], outputs = [L],
                               attrs = [(attr_value, ScalarTensorAttr 0)]\<rparr>
      \<and> node_at g' (c0 + 1) = Some \<lparr>kind = onnx_Gather, inputs = [1, L], outputs = [L + 1], attrs = []\<rparr>
      \<and> node_at g' (c0 + 2) = Some \<lparr>kind = onnx_Constant, inputs = [], outputs = [L + 2],
                               attrs = [(attr_value, ScalarTensorAttr 1)]\<rparr>
      \<and> node_at g' (c0 + 3) = Some \<lparr>kind = onnx_Gather, inputs = [1, L + 2], outputs = [L + 3], attrs = []\<rparr>
      \<and> filter (\<lambda>x. x \<in> {c0, c0 + 1, c0 + 2, c0 + 3, 3}) (ids_Block (block g'))
          = [c0, c0 + 1, c0 + 2, c0 + 3, 3]
      \<and> (\<exists>X'. node_at g' 4 = Some X' \<and> inputs X' ! 0 = L + 1 \<and> inputs X' ! 1 = L + 3)
      \<and> uses g' 2 = [] \<and> uses g' 3 = []
      \<and> node_at g' 3 = Some \<lparr>kind = prim_ListUnpack, inputs = [1], outputs = [2, 3], attrs = []\<rparr>"
    using run c0 L n0 n1 n2 n3 fl' rdr nu same
    by (intro exI [of _ g'] exI [of _ c0] exI [of _ L]) simp
  have wf': "well_formed graph_unpack_construct" by code_simp
  have nin': "3 \<in> set (ids_Block (block graph_unpack_construct))" by code_simp
  have n': "node_at graph_unpack_construct 3 =
      Some \<lparr>kind = prim_ListUnpack, inputs = [2], outputs = [3, 4], attrs = []\<rparr>"
    by code_simp
  have t': "type_of graph_unpack_construct 2 = Inr (ListType IntType)" by code_simp
  have p': "producer graph_unpack_construct 2 = Inr 2" by code_simp
  have P': "node_at graph_unpack_construct 2 =
      Some \<lparr>kind = prim_ListConstruct, inputs = [0, 1], outputs = [2], attrs = []\<rparr>"
    by code_simp
  have nP': "\<not> int_list_unpack graph_unpack_construct
      \<lparr>kind = prim_ListConstruct, inputs = [0, 1], outputs = [2], attrs = []\<rparr>"
    by (simp add: int_list_unpack_def)
  have r': "node_at graph_unpack_construct 1 =
      Some \<lparr>kind = prim_Return, inputs = [3, 4], outputs = [], attrs = []\<rparr>"
    by code_simp
  from C8_list_unpack_becomes_gathers [OF wf' nin' n' _ _ t' p' P' _ nP']
  obtain h where runh: "fuseListAndListUnpack (block graph_unpack_construct) graph_unpack_construct = Inr h"
    and sameh: "node_at h 3 = Some \<lparr>kind = prim_ListUnpack, inputs = [2], outputs = [3, 4], attrs = []\<rparr>"
    and keep: "\<forall>x X j. node_at graph_unpack_construct x = Some X \<and> j < length (inputs X)
          \<and> inputs X ! j \<in> set [3, 4] \<longrightarrow>
             (\<exists>X'. node_at h x = Some X' \<and> j < length (inputs X') \<and> inputs X' ! j = inputs X ! j)"
    by auto
  from keep [rule_format, of 1 _ 0] r' obtain Y0 where Y0: "node_at h 1 = Some Y0" "inputs Y0 ! 0 = 3"
    by auto
  from keep [rule_format, of 1 _ 1] r' obtain Y1 where Y1: "node_at h 1 = Some Y1" "inputs Y1 ! 1 = 4"
    by auto
  have second: "\<exists>g'. fuseListAndListUnpack (block graph_unpack_construct) graph_unpack_construct = Inr g'
      \<and> node_at g' 3 = Some \<lparr>kind = prim_ListUnpack, inputs = [2], outputs = [3, 4], attrs = []\<rparr>
      \<and> (\<exists>X'. node_at g' 1 = Some X' \<and> inputs X' ! 0 = 3 \<and> inputs X' ! 1 = 4)"
    using runh sameh Y0 Y1 by auto
  from first second show ?thesis by blast
qed

subsection \<open>Pass 3: the nodes that are left alone\<close>

text \<open>
  Claim C9. At an \<^verbatim>\<open>aten::index_put_\<close> node whose reads succeed, the step of the pass
  returns the graph as it is (no node is created, nothing is rewired) when the type of
  the mask is no tensor type or its scalar kind is absent or not Bool, and also when
  the type of the value input is no tensor type or its rank is unknown.
\<close>

theorem C9_index_put_unchanged:
  assumes "node_at g it = Some N" and "kind N = aten_index_put_inplace"
    and "input_at g it 1 = Inr indices" and "producer g indices = Inr lc_node"
    and "input_at g lc_node 0 = Inr mask_value" and "type_of g mask_value = Inr mask_type"
  shows "((case mask_type of TensorType st rk \<Rightarrow> st \<noteq> Some kBool | _ \<Rightarrow> True)
            \<longrightarrow> ReplaceIndexPutWithMaskedScatter_at it g = Inr g)
       \<and> (input_at g it 2 = Inr val \<and> type_of g val = Inr val_type
            \<and> (case val_type of TensorType st rk \<Rightarrow> rk = None | _ \<Rightarrow> True)
            \<longrightarrow> ReplaceIndexPutWithMaskedScatter_at it g = Inr g)"
proof (intro conjI impI)
  assume "case mask_type of TensorType st rk \<Rightarrow> st \<noteq> Some kBool | _ \<Rightarrow> True"
  with assms show "ReplaceIndexPutWithMaskedScatter_at it g = Inr g"
    by (cases mask_type)
       (auto simp: ReplaceIndexPutWithMaskedScatter_at_def IndexPut_at_def)
next
  assume v: "input_at g it 2 = Inr val \<and> type_of g val = Inr val_type
      \<and> (case val_type of TensorType st rk \<Rightarrow> rk = None | _ \<Rightarrow> True)"
  from assms(5) obtain LC where LC: "node_at g lc_node = Some LC" "inputs LC \<noteq> []"
    by (auto simp: input_at_eq_Inr)
  show "ReplaceIndexPutWithMaskedScatter_at it g = Inr g"
  proof (cases "cast_TensorType mask_type")
    case None
    with assms show ?thesis
      by (simp add: ReplaceIndexPutWithMaskedScatter_at_def IndexPut_at_def)
  next
    case (Some mask_tensor)
    with assms v LC show ?thesis
      by (cases val_type)
         (auto simp: ReplaceIndexPutWithMaskedScatter_at_def IndexPut_at_def size_check_def)
  qed
qed

text \<open>An index of scalar kind Long, and a boolean mask with a value of unknown rank.\<close>

theorem C9_index_put_unchanged_witness:
  "ReplaceIndexPutWithMaskedScatter_at 4 graph_index_put_long = Inr graph_index_put_long
   \<and> ReplaceIndexPutWithMaskedScatter_at 4 graph_index_put_unranked = Inr graph_index_put_unranked"
proof -
  have n1: "node_at graph_index_put_long 4 =
      Some \<lparr>kind = aten_index_put_inplace, inputs = [0, 3, 2, 4], outputs = [5], attrs = []\<rparr>"
    by code_simp
  have i1: "input_at graph_index_put_long 4 1 = Inr 3" by code_simp
  have p1: "producer graph_index_put_long 3 = Inr 2" by code_simp
  have m1: "input_at graph_index_put_long 2 0 = Inr 1" by code_simp
  have t1: "type_of graph_index_put_long 1 = Inr (TensorType (Some kLong) (Some 1))" by code_simp
  have n2: "node_at graph_index_put_unranked 4 =
      Some \<lparr>kind = aten_index_put_inplace, inputs = [0, 3, 2, 4], outputs = [5], attrs = []\<rparr>"
    by code_simp
  have i2: "input_at graph_index_put_unranked 4 1 = Inr 3" by code_simp
  have p2: "producer graph_index_put_unranked 3 = Inr 2" by code_simp
  have m2: "input_at graph_index_put_unranked 2 0 = Inr 1" by code_simp
  have t2: "type_of graph_index_put_unranked 1 = Inr (TensorType (Some kBool) (Some 3))" by code_simp
  have v2: "input_at graph_index_put_unranked 4 2 = Inr 2" by code_simp
  have vt2: "type_of graph_index_put_unranked 2 = Inr (TensorType (Some kFloat) None)" by code_simp
  have a: "ReplaceIndexPutWithMaskedScatter_at 4 graph_index_put_long = Inr graph_index_put_long"
    using C9_index_put_unchanged [OF n1 _ i1 p1 m1 t1] by simp
  have b: "ReplaceIndexPutWithMaskedScatter_at 4 graph_index_put_unranked = Inr graph_index_put_unranked"
    using C9_index_put_unchanged [OF n2 _ i2 p2 m2 t2, of 2 "TensorType (Some kFloat) None"] v2 vt2 by simp
  from a b show ?thesis by simp
qed

subsection \<open>Pass 3: the read before the pattern is matched\<close>

text \<open>
  Claim C10. Line 203 reads \<^verbatim>\<open>lc_node->input(0)\<close> of the producer of the second input
  of an \<^verbatim>\<open>aten::index_put_\<close> node, whatever the kind of that producer and however many
  inputs it has. When the producer has no inputs, the read is out of range and the pass
  ends in that error: no check before line 203 establishes that there is an input.
\<close>

theorem C10_mask_read_out_of_range:
  assumes "node_at g it = Some N" and "kind N = aten_index_put_inplace"
    and "input_at g it 1 = Inr indices" and "producer g indices = Inr lc_node"
    and "node_at g lc_node = Some LC" and "inputs LC = []"
  shows "input_at g lc_node 0 = Inl out_of_range
       \<and> ReplaceIndexPutWithMaskedScatter_at it g = Inl out_of_range"
  using assms
  by (simp add: ReplaceIndexPutWithMaskedScatter_at_def IndexPut_at_def input_at_def)

text \<open>An index list that is a \<^verbatim>\<open>prim::Constant\<close>: the pass, and the whole preprocessing, end in the error.\<close>

theorem C10_mask_read_out_of_range_witness:
  "node_at graph_index_put_constant 4 \<noteq> None
   \<and> input_at graph_index_put_constant 4 1 = Inr 2
   \<and> producer graph_index_put_constant 2 = Inr 2
   \<and> input_at graph_index_put_constant 2 0 = Inl out_of_range
   \<and> ReplaceIndexPutWithMaskedScatter_at 4 graph_index_put_constant = Inl out_of_range
   \<and> PreprocessForONNX graph_index_put_constant = Inl out_of_range"
proof -
  have n: "node_at graph_index_put_constant 4 =
      Some \<lparr>kind = aten_index_put_inplace, inputs = [0, 2, 1, 3], outputs = [4], attrs = []\<rparr>"
    by code_simp
  have i: "input_at graph_index_put_constant 4 1 = Inr 2"
    by code_simp
  have p: "producer graph_index_put_constant 2 = Inr 2"
    by code_simp
  have l: "node_at graph_index_put_constant 2 =
      Some \<lparr>kind = prim_Constant, inputs = [], outputs = [2], attrs = []\<rparr>"
    by code_simp
  have w: "PreprocessForONNX graph_index_put_constant = Inl out_of_range"
    by code_simp
  from C10_mask_read_out_of_range [OF n _ i p l] n i p w show ?thesis by simp
qed

end
